(* ===== verification/Prelude.thy ===== *)
theory Prelude
  imports Main "HOL-Library.Word"
begin

unbundle bit_operations_syntax

text \<open>
  The vocabulary every component shares: machine integers and byte strings, the result type
  of fallible Rust code, big-endian integers, slices, and readers over a byte stream.

  Conventions of the translation.
  \<^item> \<open>u8\<close>, \<open>u16\<close>, \<open>u32\<close>, \<open>u64\<close> are words of that width; \<open>usize\<close> values that are lengths of
    in-memory buffers are \<open>nat\<close>, and a cast such as \<open>len as u16\<close> is \<open>of_nat\<close>, which wraps.
  \<^item> \<open>anyhow::Result<T>\<close> is \<open>'a result\<close>: \<open>Inl\<close> carries the class of the failure (the text of
    the message is dropped), \<open>Inr\<close> the value. A Rust panic is the class \<open>Panic\<close>.
  \<^item> a reader (\<open>AsyncRead\<close>) is the list of bytes that the peer will deliver; a read operation
    returns its value and the bytes that remain. Running into the end of the list is
    \<open>UnexpectedEof\<close>.
  \<^item> the bytes an operation writes are part of its result.
\<close>

section \<open>Types\<close>

type_synonym u8 = "8 word"
type_synonym u16 = "16 word"
type_synonym u32 = "32 word"
type_synonym u64 = "64 word"
type_synonym u128 = "128 word"
type_synonym bytes = "u8 list"

text \<open>The classes of failure. One class stands for every message of that kind.\<close>

datatype rust_error =
    UnexpectedEof      \<comment> \<open>\<open>read_exact\<close> on a stream that ended\<close>
  | Panic              \<comment> \<open>the thread panics instead of returning an error\<close>
  | Empty              \<comment> \<open>a value that must not be empty is\<close>
  | TooShort           \<comment> \<open>a buffer ends before the field it must hold\<close>
  | TooLong            \<comment> \<open>a value exceeds its length bound\<close>
  | Trailing           \<comment> \<open>bytes remain after a complete value\<close>
  | BadAddressType
  | BadUtf8
  | BadVersion
  | BadCommand
  | BadReserved
  | BadNetwork
  | BadStatus
  | Unsupported
  | ParseFailed
  | OutOfRange
  | Duplicate
  | Missing
  | Conflict
  | AuthFailed
  | NotFound
  | LimitExceeded
  | QuotaExceeded
  | Cancelled
  | Replayed
  | CacheFull
  | Rejected
  | Timestamp
  | DecryptFailed
  | RandomFailed
  | IoFailed

type_synonym 'a result = "rust_error + 'a"

section \<open>Results\<close>

text \<open>The \<open>?\<close> operator: go on with the value, or return the error.\<close>

definition and_then :: "'a result \<Rightarrow> ('a \<Rightarrow> 'b result) \<Rightarrow> 'b result" where
  "and_then r f = (case r of Inl e \<Rightarrow> Inl e | Inr x \<Rightarrow> f x)"

text \<open>\<open>Option::ok_or_else\<close> and \<open>Option::context\<close>.\<close>

definition ok_or :: "'a option \<Rightarrow> rust_error \<Rightarrow> 'a result" where
  "ok_or v e = (case v of None \<Rightarrow> Inl e | Some x \<Rightarrow> Inr x)"

definition is_ok :: "'a result \<Rightarrow> bool" where
  "is_ok r = (case r of Inl _ \<Rightarrow> False | Inr _ \<Rightarrow> True)"

lemma and_then_simps [simp]:
  "and_then (Inl e) f = Inl e"
  "and_then (Inr x) f = f x"
  by (simp_all add: and_then_def)

lemma and_then_Inr_iff: "and_then r f = Inr y \<longleftrightarrow> (\<exists>x. r = Inr x \<and> f x = Inr y)"
  by (cases r) auto

lemma and_then_Inl_iff:
  "and_then r f = Inl e \<longleftrightarrow> r = Inl e \<or> (\<exists>x. r = Inr x \<and> f x = Inl e)"
  by (cases r) auto

lemma and_then_assoc: "and_then (and_then r f) g = and_then r (\<lambda>x. and_then (f x) g)"
  by (cases r) auto

lemma and_then_cong [fundef_cong]:
  "r = r' \<Longrightarrow> (\<And>x. r' = Inr x \<Longrightarrow> f x = f' x) \<Longrightarrow> and_then r f = and_then r' f'"
  by (cases r') auto

lemma ok_or_simps [simp]:
  "ok_or None e = Inl e"
  "ok_or (Some x) e = Inr x"
  by (simp_all add: ok_or_def)

lemma ok_or_Inr_iff: "ok_or v e = Inr x \<longleftrightarrow> v = Some x"
  by (cases v) auto

lemma is_ok_simps [simp]: "is_ok (Inl e) = False" "is_ok (Inr x) = True"
  by (simp_all add: is_ok_def)

lemma is_ok_iff: "is_ok r \<longleftrightarrow> (\<exists>x. r = Inr x)"
  by (cases r) auto

lemma is_ok_and_then: "is_ok (and_then r f) \<longleftrightarrow> (\<exists>x. r = Inr x \<and> is_ok (f x))"
  by (cases r) auto

section \<open>Big-endian integers\<close>

text \<open>\<open>to_be_bytes\<close> of an \<open>n\<close>-byte integer, and \<open>from_be_bytes\<close> of a slice.\<close>

definition to_be_bytes :: "nat \<Rightarrow> 'a::len word \<Rightarrow> bytes" where
  "to_be_bytes n w = map (\<lambda>i. ucast (drop_bit (8 * (n - Suc i)) w)) [0..<n]"

definition from_be_bytes :: "bytes \<Rightarrow> 'a::len word" where
  "from_be_bytes bs = foldl (\<lambda>acc b. push_bit 8 acc OR ucast b) 0 bs"

lemma from_be_bytes_snoc: "from_be_bytes (bs @ [b]) = push_bit 8 (from_be_bytes bs) OR ucast b"
  by (simp add: from_be_bytes_def)

lemma bit_from_be_bytes:
  "bit (from_be_bytes bs :: 'a::len word) k \<longleftrightarrow>
     k < LENGTH('a) \<and> k div 8 < length bs \<and> bit (rev bs ! (k div 8)) (k mod 8)"
proof (induction bs arbitrary: k rule: rev_induct)
  case Nil
  show ?case by (simp add: from_be_bytes_def)
next
  case (snoc b bs)
  show ?case
  proof (cases "k < 8")
    case True
    then show ?thesis by (simp add: from_be_bytes_snoc bit_simps)
  next
    case False
    then obtain j where j: "k = 8 + j" using le_Suc_ex by (metis not_less)
    have "\<not> bit b k" using False bit_imp_le_length [of b k] by fastforce
    moreover have "(8 + j) div 8 = Suc (j div 8)" by simp
    ultimately show ?thesis
      unfolding j by (auto simp: from_be_bytes_snoc bit_push_bit_iff bit_or_iff bit_unsigned_iff snoc.IH)
  qed
qed

lemma length_to_be_bytes [simp]: "length (to_be_bytes n w) = n"
  by (simp add: to_be_bytes_def)

lemma rev_to_be_bytes_nth:
  "i < n \<Longrightarrow> rev (to_be_bytes n w) ! i = ucast (drop_bit (8 * i) w)"
  by (simp add: to_be_bytes_def rev_nth)

lemma from_to_be_bytes:
  assumes "LENGTH('a::len) \<le> 8 * n"
  shows "from_be_bytes (to_be_bytes n (w :: 'a word)) = w"
proof (rule bit_word_eqI)
  fix k assume k: "k < LENGTH('a)"
  then have "k div 8 < n" using assms by auto
  then show "bit (from_be_bytes (to_be_bytes n w) :: 'a word) k = bit w k"
    using k by (simp add: bit_from_be_bytes rev_to_be_bytes_nth bit_simps)
qed

lemma to_from_be_bytes:
  assumes "8 * length bs \<le> LENGTH('a::len)"
  shows "to_be_bytes (length bs) (from_be_bytes bs :: 'a word) = bs"
proof (rule nth_equalityI)
  show "length (to_be_bytes (length bs) (from_be_bytes bs :: 'a word)) = length bs" by simp
next
  fix i assume i: "i < length (to_be_bytes (length bs) (from_be_bytes bs :: 'a word))"
  let ?j = "length bs - Suc i"
  show "to_be_bytes (length bs) (from_be_bytes bs :: 'a word) ! i = bs ! i"
  proof (rule bit_word_eqI)
    fix k assume k: "k < LENGTH(8)"
    then have "(8 * ?j + k) div 8 = ?j" "(8 * ?j + k) mod 8 = k" by auto
    moreover have "8 * ?j + k < LENGTH('a)" using assms i k by auto
    ultimately show "bit (to_be_bytes (length bs) (from_be_bytes bs :: 'a word) ! i) k = bit (bs ! i) k"
      using i k by (auto simp: to_be_bytes_def bit_simps bit_from_be_bytes rev_nth)
  qed
qed

lemma from_to_be_bytes_widths [simp]:
  "from_be_bytes (to_be_bytes 2 (w2 :: u16)) = w2"
  "from_be_bytes (to_be_bytes 4 (w4 :: u32)) = w4"
  "from_be_bytes (to_be_bytes 8 (w8 :: u64)) = w8"
  "from_be_bytes (to_be_bytes 16 (w16 :: u128)) = w16"
  by (simp_all add: from_to_be_bytes)

lemma to_from_be_bytes_u16: "length bs = 2 \<Longrightarrow> to_be_bytes 2 (from_be_bytes bs :: u16) = bs"
  using to_from_be_bytes [where 'a = 16 and bs = bs] by simp

lemma to_from_be_bytes_u32: "length bs = 4 \<Longrightarrow> to_be_bytes 4 (from_be_bytes bs :: u32) = bs"
  using to_from_be_bytes [where 'a = 32 and bs = bs] by simp

lemma to_from_be_bytes_u128: "length bs = 16 \<Longrightarrow> to_be_bytes 16 (from_be_bytes bs :: u128) = bs"
  using to_from_be_bytes [where 'a = 128 and bs = bs] by simp

lemma length_2E: assumes "length xs = 2" obtains a b where "xs = [a, b]"
  using assms by (cases xs; cases "tl xs") auto

lemma length_4E: assumes "length xs = 4" obtains a b c d where "xs = [a, b, c, d]"
proof -
  have "length (take 2 xs) = 2" "length (drop 2 xs) = 2" using assms by auto
  then obtain a b c d where "take 2 xs = [a, b]" "drop 2 xs = [c, d]" by (metis length_2E)
  then have "xs = [a, b, c, d]" using append_take_drop_id [of 2 xs] by simp
  then show ?thesis by (rule that)
qed

lemma be_u16_cases:
  obtains a b where "to_be_bytes 2 (w :: u16) = [a, b]" "from_be_bytes [a, b] = w"
  using length_2E [OF length_to_be_bytes [of 2 w]] from_to_be_bytes_widths(1) [of w] by metis

lemma be_u32_cases:
  obtains a b c d where "to_be_bytes 4 (w :: u32) = [a, b, c, d]" "from_be_bytes [a, b, c, d] = w"
  using length_4E [OF length_to_be_bytes [of 4 w]] from_to_be_bytes_widths(2) [of w] by metis

text \<open>A length written as a big-endian \<open>u16\<close>: \<open>(len as u16).to_be_bytes()\<close>.\<close>

abbreviation len_u16 :: "nat \<Rightarrow> bytes" where
  "len_u16 n \<equiv> to_be_bytes 2 (of_nat n :: u16)"

lemma unat_of_nat_u16 [simp]: "n \<le> 65535 \<Longrightarrow> unat (of_nat n :: u16) = n"
  by (simp add: unat_of_nat)

lemma unat_of_nat_u8 [simp]: "n \<le> 255 \<Longrightarrow> unat (of_nat n :: u8) = n"
  by (simp add: unat_of_nat)

lemma unat_u16_le: "unat (w :: u16) \<le> 65535"
  using unsigned_less [of w, where 'a = nat] by simp

lemma unat_u8_le: "unat (w :: u8) \<le> 255"
  using unsigned_less [of w, where 'a = nat] by simp

section \<open>Slices\<close>

text \<open>\<open>&xs[a..b]\<close>, for \<open>a \<le> b \<le> xs.len()\<close>.\<close>

definition slice :: "nat \<Rightarrow> nat \<Rightarrow> 'a list \<Rightarrow> 'a list" where
  "slice a b xs = take (b - a) (drop a xs)"

lemma length_slice [simp]: "length (slice a b xs) = min (b - a) (length xs - a)"
  by (simp add: slice_def min.commute)

lemma slice_append_left:
  "b \<le> length xs \<Longrightarrow> slice a b (xs @ ys) = slice a b xs"
  by (simp add: slice_def)

lemma slice_append_right:
  "length xs \<le> a \<Longrightarrow> slice a b (xs @ ys) = slice (a - length xs) (b - length xs) ys"
  by (cases "a \<le> b") (simp_all add: slice_def)

lemma slice_whole: "slice 0 (length xs) xs = xs"
  by (simp add: slice_def)

lemma take_slice: "a \<le> b \<Longrightarrow> take a xs @ slice a b xs = take b xs"
  using take_add [of a "b - a" xs] by (simp add: slice_def)

text \<open>\<open>xs.chunks(n)\<close> for \<open>n > 0\<close>.\<close>

function chunks :: "nat \<Rightarrow> 'a list \<Rightarrow> 'a list list" where
  "chunks n xs = (if xs = [] \<or> n = 0 then [] else take n xs # chunks n (drop n xs))"
  by pat_completeness auto
termination
  by (relation "measure (\<lambda>(n, xs). length xs)") auto

declare chunks.simps [simp del]

lemma chunks_Nil [simp]: "chunks n [] = []"
  by (subst chunks.simps) simp

lemma concat_chunks: "0 < n \<Longrightarrow> concat (chunks n xs) = xs"
proof (induction n xs rule: chunks.induct)
  case (1 n xs)
  then show ?case by (subst chunks.simps) auto
qed

lemma chunks_bounds: "c \<in> set (chunks n xs) \<Longrightarrow> 0 < length c \<and> length c \<le> n"
proof (induction n xs rule: chunks.induct)
  case (1 n xs)
  show ?case
  proof (cases "xs = [] \<or> n = 0")
    case True
    with "1.prems" show ?thesis by (subst (asm) chunks.simps) simp
  next
    case False
    with "1.prems" have "c = take n xs \<or> c \<in> set (chunks n (drop n xs))"
      by (subst (asm) chunks.simps) simp
    then show ?thesis using "1.IH" False by auto
  qed
qed

lemma nth_update_le: "j < length xs \<Longrightarrow> xs[i := x] ! j = (if i = j then x else xs ! j)"
  by (cases "i = j") auto

text \<open>A loop that remembers the last element with a property finds it from the end.\<close>

lemma find_rev_Some:
  "find P (rev xs) = Some x \<longleftrightarrow> P x \<and> (\<exists>a b. xs = a @ x # b \<and> (\<forall>y \<in> set b. \<not> P y))"
proof (induction xs rule: rev_induct)
  case (snoc y ys)
  have split: "(\<exists>a b. ys @ [y] = a @ x # b \<and> (\<forall>z \<in> set b. \<not> P z)) \<longleftrightarrow>
      y = x \<or> (\<not> P y \<and> (\<exists>a b. ys = a @ x # b \<and> (\<forall>z \<in> set b. \<not> P z)))" (is "?l \<longleftrightarrow> ?r")
  proof
    assume ?l
    then obtain a b where ab: "ys @ [y] = a @ x # b" "\<forall>z \<in> set b. \<not> P z" by blast
    then show ?r by (cases b rule: rev_cases) auto
  next
    assume ?r
    then show ?l
    proof
      assume "\<not> P y \<and> (\<exists>a b. ys = a @ x # b \<and> (\<forall>z \<in> set b. \<not> P z))"
      then obtain a b where "ys @ [y] = a @ x # (b @ [y])" "\<forall>z \<in> set (b @ [y]). \<not> P z" by auto
      then show ?l by blast
    qed (metis append_Nil2 empty_iff list.set(1))
  qed
  show ?case unfolding split using snoc by auto
qed simp

section \<open>Readers\<close>

text \<open>\<open>AsyncReadExt::read_exact\<close> of \<open>n\<close> bytes.\<close>

definition read_exact :: "nat \<Rightarrow> bytes \<Rightarrow> (bytes \<times> bytes) result" where
  "read_exact n bs =
     (if n \<le> length bs then Inr (take n bs, drop n bs) else Inl UnexpectedEof)"

lemma read_exact_append [simp]: "length xs = n \<Longrightarrow> read_exact n (xs @ ys) = Inr (xs, ys)"
  by (simp add: read_exact_def)

lemma read_exact_0 [simp]: "read_exact 0 bs = Inr ([], bs)"
  by (simp add: read_exact_def)

lemma read_exact_Cons:
  "0 < n \<Longrightarrow> read_exact n (b # bs) =
     and_then (read_exact (n - 1) bs) (\<lambda>(xs, rest). Inr (b # xs, rest))"
  by (cases n) (simp_all add: read_exact_def)

lemma read_exact_Suc_Cons [simp]:
  "read_exact (Suc n) (b # bs) = and_then (read_exact n bs) (\<lambda>(xs, rest). Inr (b # xs, rest))"
  by (simp add: read_exact_Cons)

lemma read_exact_numeral_Cons [simp]:
  "read_exact (numeral k) (b # bs) =
     and_then (read_exact (pred_numeral k) bs) (\<lambda>(xs, rest). Inr (b # xs, rest))"
  by (simp add: numeral_eq_Suc)

lemma read_exact_to_be [simp]: "read_exact n (to_be_bytes n w @ ys) = Inr (to_be_bytes n w, ys)"
  by simp

lemma read_exact_Inr_iff:
  "read_exact n bs = Inr (xs, ys) \<longleftrightarrow> bs = xs @ ys \<and> length xs = n"
  by (auto simp: read_exact_def)

lemma read_exact_Inl_iff: "read_exact n bs = Inl e \<longleftrightarrow> e = UnexpectedEof \<and> length bs < n"
  by (auto simp: read_exact_def)

end
