(* ===== verification/RustStr.thy ===== *)
theory RustStr
  imports Prelude "HOL-Library.Sublist"
begin

text \<open>
  Rust strings. A \<open>str\<close> is its UTF-8 bytes, one \<open>char\<close> of HOL per byte, so that \<open>len()\<close> is
  \<open>length\<close> and a literal is written as such. The functions are those of the standard library
  that the source calls; they are exact on every valid UTF-8 string, the non-ASCII white
  space that \<open>str::trim\<close> removes included.
\<close>

section \<open>Bytes and UTF-8\<close>

definition as_bytes :: "string \<Rightarrow> bytes" where
  "as_bytes s = map of_char s"

definition of_bytes :: "bytes \<Rightarrow> string" where
  "of_bytes bs = map (\<lambda>b. char_of (unat b)) bs"

lemma length_as_bytes [simp]: "length (as_bytes s) = length s"
  by (simp add: as_bytes_def)

lemma length_of_bytes [simp]: "length (of_bytes bs) = length bs"
  by (simp add: of_bytes_def)

lemma as_bytes_append [simp]: "as_bytes (s @ t) = as_bytes s @ as_bytes t"
  by (simp add: as_bytes_def)

lemma as_bytes_Nil_iff [simp]: "as_bytes s = [] \<longleftrightarrow> s = []"
  by (simp add: as_bytes_def)

lemma unat_of_char_u8 [simp]: "unat (of_char c :: u8) = of_char c"
proof -
  have "unat (of_nat (of_char c) :: u8) = of_char c mod 256"
    by (simp add: unat_of_nat)
  then show ?thesis by (simp add: of_nat_of_char)
qed

lemma of_bytes_as_bytes [simp]: "of_bytes (as_bytes s) = s"
  by (simp add: as_bytes_def of_bytes_def comp_def)

lemma of_char_char_of_unat [simp]: "(of_char (char_of (unat b)) :: u8) = b"
proof -
  have "(of_char (char_of (unat b)) :: u8) = of_nat (of_char (char_of (unat b)))"
    by (rule of_nat_of_char [symmetric])
  also have "\<dots> = of_nat (unat b)" using unat_u8_le [of b] by simp
  finally show ?thesis by simp
qed

lemma as_bytes_of_bytes [simp]: "as_bytes (of_bytes bs) = bs"
  by (simp add: as_bytes_def of_bytes_def comp_def)

lemma as_bytes_inject [simp]: "as_bytes s = as_bytes t \<longleftrightarrow> s = t"
  by (metis of_bytes_as_bytes)

text \<open>
  The first UTF-8 sequence of a non-empty buffer: whether it is well formed, and its length
  (of the maximal ill-formed prefix, if it is not), as \<open>core::str::lossy\<close> splits it. A byte
  past the end reads as 0.
\<close>

definition safe_get :: "bytes \<Rightarrow> nat \<Rightarrow> nat" where
  "safe_get bs i = (if i < length bs then unat (bs ! i) else 0)"

definition is_cont :: "nat \<Rightarrow> bool" where
  "is_cont b \<longleftrightarrow> 0x80 \<le> b \<and> b \<le> 0xBF"

definition utf8_second :: "nat \<Rightarrow> nat \<Rightarrow> bool" where
  "utf8_second a b \<longleftrightarrow>
     (if a = 0xE0 then 0xA0 \<le> b \<and> b \<le> 0xBF
      else if a = 0xED then 0x80 \<le> b \<and> b \<le> 0x9F
      else if a = 0xF0 then 0x90 \<le> b \<and> b \<le> 0xBF
      else if a = 0xF4 then 0x80 \<le> b \<and> b \<le> 0x8F
      else is_cont b)"

definition utf8_seq :: "bytes \<Rightarrow> bool \<times> nat" where
  "utf8_seq bs =
     (let a = safe_get bs 0; b = safe_get bs 1; c = safe_get bs 2; d = safe_get bs 3 in
      if a < 0x80 then (True, 1)
      else if 0xC2 \<le> a \<and> a \<le> 0xDF then (if is_cont b then (True, 2) else (False, 1))
      else if 0xE0 \<le> a \<and> a \<le> 0xEF then
        (if \<not> utf8_second a b then (False, 1)
         else if \<not> is_cont c then (False, 2) else (True, 3))
      else if 0xF0 \<le> a \<and> a \<le> 0xF4 then
        (if \<not> utf8_second a b then (False, 1)
         else if \<not> is_cont c then (False, 2)
         else if \<not> is_cont d then (False, 3) else (True, 4))
      else (False, 1))"

lemma utf8_seq_pos: "utf8_seq bs = (ok, n) \<Longrightarrow> 0 < n"
  by (auto simp: utf8_seq_def Let_def split: if_splits)

function utf8_valid :: "bytes \<Rightarrow> bool" where
  "utf8_valid bs =
     (if bs = [] then True
      else (case utf8_seq bs of (ok, n) \<Rightarrow> ok \<and> utf8_valid (drop n bs)))"
  by pat_completeness auto
termination
  by (relation "measure length") (auto dest!: utf8_seq_pos [OF sym])

declare utf8_valid.simps [simp del]

text \<open>\<open>String::from_utf8\<close>.\<close>

definition from_utf8 :: "bytes \<Rightarrow> string result" where
  "from_utf8 bs = (if utf8_valid bs then Inr (of_bytes bs) else Inl BadUtf8)"

text \<open>\<open>String::from_utf8_lossy\<close>: every ill-formed sequence becomes U+FFFD.\<close>

function utf8_lossy :: "bytes \<Rightarrow> bytes" where
  "utf8_lossy bs =
     (if bs = [] then []
      else (case utf8_seq bs of
              (ok, n) \<Rightarrow> (if ok then take n bs else [0xEF, 0xBF, 0xBD]) @ utf8_lossy (drop n bs)))"
  by pat_completeness auto
termination
  by (relation "measure length") (auto dest!: utf8_seq_pos [OF sym])

declare utf8_lossy.simps [simp del]

definition from_utf8_lossy :: "bytes \<Rightarrow> string" where
  "from_utf8_lossy bs = of_bytes (utf8_lossy bs)"

lemma utf8_lossy_valid: "utf8_valid bs \<Longrightarrow> utf8_lossy bs = bs"
proof (induction bs rule: utf8_valid.induct)
  case (1 bs)
  show ?case
  proof (cases "bs = []")
    case False
    obtain ok n where u: "utf8_seq bs = (ok, n)" by force
    then have "ok" "utf8_valid (drop n bs)"
      using "1.prems" False by (subst (asm) utf8_valid.simps, simp)+
    then show ?thesis using "1.IH" u False by (subst utf8_lossy.simps) simp
  qed (simp add: utf8_lossy.simps)
qed

text \<open>The strings of the program are valid UTF-8: the invariant of Rust's \<open>str\<close>.\<close>

definition valid_str :: "string \<Rightarrow> bool" where
  "valid_str s \<longleftrightarrow> utf8_valid (as_bytes s)"

lemma from_utf8_as_bytes [simp]: "valid_str s \<Longrightarrow> from_utf8 (as_bytes s) = Inr s"
  by (simp add: from_utf8_def valid_str_def)

lemma from_utf8_Inr_iff: "from_utf8 bs = Inr s \<longleftrightarrow> utf8_valid bs \<and> s = of_bytes bs"
  by (auto simp: from_utf8_def)

lemma valid_str_Nil [simp]: "valid_str []"
  by (simp add: valid_str_def as_bytes_def utf8_valid.simps)

lemma utf8_valid_ascii: "\<forall>b \<in> set bs. unat b < 0x80 \<Longrightarrow> utf8_valid bs"
proof (induction bs)
  case Nil
  then show ?case by (simp add: utf8_valid.simps)
next
  case (Cons b bs)
  then have "utf8_seq (b # bs) = (True, 1)"
    by (simp add: utf8_seq_def safe_get_def)
  with Cons show ?case by (subst utf8_valid.simps) simp
qed

lemma valid_str_ascii: "\<forall>c \<in> set s. (of_char c :: nat) < 0x80 \<Longrightarrow> valid_str s"
  by (simp add: valid_str_def utf8_valid_ascii as_bytes_def)

section \<open>White space\<close>

text \<open>
  The length in bytes of the white-space character that a string starts with, 0 if it starts
  with none: the code points of \<open>White_Space\<close> in their UTF-8 encoding.
\<close>

definition ws_len :: "string \<Rightarrow> nat" where
  "ws_len s =
     (case s of [] \<Rightarrow> 0
      | ca # sa \<Rightarrow>
        let a = of_char ca :: nat in
        if (9 \<le> a \<and> a \<le> 13) \<or> a = 32 then 1 else
        (case sa of [] \<Rightarrow> 0
         | cb # sb \<Rightarrow>
           let b = of_char cb :: nat in
           if a = 0xC2 \<and> (b = 0x85 \<or> b = 0xA0) then 2 else
           (case sb of [] \<Rightarrow> 0
            | cc # _ \<Rightarrow>
              let c = of_char cc :: nat in
              if (a = 0xE1 \<and> b = 0x9A \<and> c = 0x80)
                 \<or> (a = 0xE2 \<and> b = 0x80 \<and> (0x80 \<le> c \<and> c \<le> 0x8A \<or> c = 0xA8 \<or> c = 0xA9 \<or> c = 0xAF))
                 \<or> (a = 0xE2 \<and> b = 0x81 \<and> c = 0x9F)
                 \<or> (a = 0xE3 \<and> b = 0x80 \<and> c = 0x80)
              then 3 else 0)))"

lemma ws_len_le: "ws_len s \<le> length s"
  by (auto simp: ws_len_def Let_def split: list.split)

lemma ws_len_take: "0 < ws_len (take n s) \<Longrightarrow> ws_len s = ws_len (take n s)"
proof -
  assume pos: "0 < ws_len (take n s)"
  consider "n = 0" | "n = 1" | "n = 2" | m where "n = Suc (Suc (Suc m))"
    by (metis One_nat_def numeral_2_eq_2 not0_implies_Suc)
  then show ?thesis
  proof cases
    case 1
    with pos show ?thesis by (simp add: ws_len_def)
  next
    case 2
    with pos show ?thesis by (cases s) (auto simp: ws_len_def Let_def split: if_splits)
  next
    case 3
    with pos show ?thesis
      by (cases s; cases "tl s") (auto simp: ws_len_def Let_def split: if_splits)
  next
    case 4
    then show ?thesis
      by (cases s; cases "tl s"; cases "tl (tl s)") (simp_all add: ws_len_def Let_def)
  qed
qed

function trim_start :: "string \<Rightarrow> string" where
  "trim_start s = (if ws_len s = 0 then s else trim_start (drop (ws_len s) s))"
  by pat_completeness auto
termination
proof (relation "measure length", goal_cases)
  case (2 s)
  then show ?case using ws_len_le [of s] by auto
qed simp

declare trim_start.simps [simp del]

text \<open>The length of the white-space character that a string ends with.\<close>

definition ws_len_end :: "string \<Rightarrow> nat" where
  "ws_len_end s =
     (if 1 \<le> length s \<and> ws_len (drop (length s - 1) s) = 1 then 1
      else if 2 \<le> length s \<and> ws_len (drop (length s - 2) s) = 2 then 2
      else if 3 \<le> length s \<and> ws_len (drop (length s - 3) s) = 3 then 3
      else 0)"

function trim_end :: "string \<Rightarrow> string" where
  "trim_end s =
     (if ws_len_end s = 0 then s else trim_end (take (length s - ws_len_end s) s))"
  by pat_completeness auto
termination
proof (relation "measure length", goal_cases)
  case (2 s)
  then show ?case by (auto simp: ws_len_end_def split: if_splits)
qed simp

declare trim_end.simps [simp del]

text \<open>\<open>str::trim\<close>.\<close>

definition trim :: "string \<Rightarrow> string" where
  "trim s = trim_end (trim_start s)"

lemma ws_len_trim_start: "ws_len (trim_start s) = 0"
proof (induction s rule: trim_start.induct)
  case (1 s)
  then show ?case by (cases "ws_len s = 0") (simp_all add: trim_start.simps [of s])
qed

lemma ws_len_end_trim_end: "ws_len_end (trim_end s) = 0"
proof (induction s rule: trim_end.induct)
  case (1 s)
  then show ?case by (cases "ws_len_end s = 0") (simp_all add: trim_end.simps [of s])
qed

lemma trim_end_take: "\<exists>n. trim_end s = take n s"
proof (induction s rule: trim_end.induct)
  case (1 s)
  show ?case
  proof (cases "ws_len_end s = 0")
    case True
    then show ?thesis by (intro exI [of _ "length s"]) (simp add: trim_end.simps)
  next
    case False
    then obtain n where "trim_end s = take n (take (length s - ws_len_end s) s)"
      using "1.IH" by (auto simp: trim_end.simps [of s])
    then show ?thesis by (auto simp: take_take)
  qed
qed

lemma trim_start_id: "ws_len s = 0 \<Longrightarrow> trim_start s = s"
  by (simp add: trim_start.simps)

lemma trim_end_id: "ws_len_end s = 0 \<Longrightarrow> trim_end s = s"
  by (simp add: trim_end.simps)

lemma ws_len_trim: "ws_len (trim s) = 0"
  unfolding trim_def
  using trim_end_take [of "trim_start s"] ws_len_take ws_len_trim_start
  by (metis gr0I)

lemma trim_trim [simp]: "trim (trim s) = trim s"
  using ws_len_trim [of s] ws_len_end_trim_end [of "trim_start s"]
  by (metis trim_def trim_start_id trim_end_id)

lemma trim_Nil [simp]: "trim [] = []"
  by (simp add: trim_def trim_start.simps trim_end.simps ws_len_def ws_len_end_def)

section \<open>ASCII case\<close>

definition to_lower :: "char \<Rightarrow> char" where
  "to_lower c =
     (if 65 \<le> (of_char c :: nat) \<and> (of_char c :: nat) \<le> 90
      then char_of ((of_char c :: nat) + 32) else c)"

definition to_ascii_lowercase :: "string \<Rightarrow> string" where
  "to_ascii_lowercase s = map to_lower s"

definition eq_ignore_ascii_case :: "string \<Rightarrow> string \<Rightarrow> bool" where
  "eq_ignore_ascii_case s t \<longleftrightarrow> to_ascii_lowercase s = to_ascii_lowercase t"

lemma to_lower_idem [simp]: "to_lower (to_lower c) = to_lower c"
  by (auto simp: to_lower_def)

lemma to_ascii_lowercase_idem [simp]:
  "to_ascii_lowercase (to_ascii_lowercase s) = to_ascii_lowercase s"
  by (simp add: to_ascii_lowercase_def comp_def)

lemma length_to_ascii_lowercase [simp]: "length (to_ascii_lowercase s) = length s"
  by (simp add: to_ascii_lowercase_def)

section \<open>Searching and splitting\<close>

text \<open>\<open>str::contains\<close> with a string pattern.\<close>

fun contains :: "string \<Rightarrow> string \<Rightarrow> bool" where
  "contains [] pat = (pat = [])"
| "contains (c # s) pat = (prefix pat (c # s) \<or> contains s pat)"

lemma contains_sublist: "contains s pat \<longleftrightarrow> sublist pat s"
  by (induction s) (auto simp: sublist_Cons_right)

text \<open>\<open>str::strip_prefix\<close>.\<close>

definition strip_prefix :: "string \<Rightarrow> string \<Rightarrow> string option" where
  "strip_prefix p s = (if prefix p s then Some (drop (length p) s) else None)"

lemma strip_prefix_Some_iff: "strip_prefix p s = Some t \<longleftrightarrow> s = p @ t"
  by (auto simp: strip_prefix_def prefix_def)

text \<open>\<open>str::split_once\<close> and \<open>str::rsplit_once\<close> with a character pattern.\<close>

fun split_once :: "char \<Rightarrow> string \<Rightarrow> (string \<times> string) option" where
  "split_once x [] = None"
| "split_once x (c # s) =
     (if c = x then Some ([], s)
      else map_option (\<lambda>(a, b). (c # a, b)) (split_once x s))"

definition rsplit_once :: "char \<Rightarrow> string \<Rightarrow> (string \<times> string) option" where
  "rsplit_once x s = map_option (\<lambda>(a, b). (rev b, rev a)) (split_once x (rev s))"

lemma split_once_Some_iff:
  "split_once x s = Some (a, b) \<longleftrightarrow> s = a @ x # b \<and> x \<notin> set a"
proof (induction s arbitrary: a)
  case Nil
  show ?case by simp
next
  case (Cons c s)
  then show ?case by (cases a) auto
qed

lemma rsplit_once_Some_iff:
  "rsplit_once x s = Some (a, b) \<longleftrightarrow> s = a @ x # b \<and> x \<notin> set b"
proof -
  have "rsplit_once x s = Some (a, b) \<longleftrightarrow> split_once x (rev s) = Some (rev b, rev a)"
    by (auto simp: rsplit_once_def)
  also have "\<dots> \<longleftrightarrow> s = a @ x # b \<and> x \<notin> set b"
    by (simp add: split_once_Some_iff rev_swap)
  finally show ?thesis .
qed

text \<open>\<open>str::split\<close> with a character pattern.\<close>

fun split :: "char \<Rightarrow> string \<Rightarrow> string list" where
  "split x [] = [[]]"
| "split x (c # s) =
     (if c = x then [] # split x s
      else (case split x s of [] \<Rightarrow> [[c]] | p # ps \<Rightarrow> (c # p) # ps))"

text \<open>\<open>str::lines\<close>: lines end in \<open>\n\<close> or \<open>\r\n\<close>; a final empty line is not reported.\<close>

definition strip_cr :: "string \<Rightarrow> string" where
  "strip_cr l = (if l \<noteq> [] \<and> last l = CHR 0x0D then butlast l else l)"

fun lines_raw :: "string \<Rightarrow> string list" where
  "lines_raw s = (let ps = split (CHR 0x0A) s in
     map strip_cr (butlast ps) @ (if last ps = [] then [] else [last ps]))"

definition lines :: "string \<Rightarrow> string list" where
  "lines s = lines_raw s"

text \<open>\<open>[String]::join("\n")\<close>.\<close>

fun join_nl :: "string list \<Rightarrow> string" where
  "join_nl [] = []"
| "join_nl [l] = l"
| "join_nl (l # ls) = l @ CHR 0x0A # join_nl ls"

lemma split_not_Nil: "split x s \<noteq> []"
  by (induction s) (auto split: list.splits)

lemma split_single: "x \<notin> set a \<Longrightarrow> split x a = [a]"
  by (induction a) auto

lemma split_append: "x \<notin> set a \<Longrightarrow> split x (a @ x # b) = a # split x b"
  by (induction a) auto

lemma split_no_sep: "l \<in> set (split x s) \<Longrightarrow> x \<notin> set l"
  by (induction s arbitrary: l) (auto split: list.splits if_splits)

lemma lines_no_newline:
  assumes "l \<in> set (lines s)"
  shows "CHR 0x0A \<notin> set l"
proof -
  let ?ps = "split (CHR 0x0A) s"
  have "l \<in> strip_cr ` set (butlast ?ps) \<or> l = last ?ps"
    using assms by (auto simp: lines_def Let_def split: if_splits)
  moreover have "set (strip_cr p) \<subseteq> set p" for p
    by (auto simp: strip_cr_def dest: in_set_butlastD)
  ultimately obtain p where "p \<in> set ?ps" "set l \<subseteq> set p"
    using split_not_Nil [of "CHR 0x0A" s] by (metis imageE in_set_butlastD last_in_set order_refl)
  then show ?thesis using split_no_sep by blast
qed

lemma lines_join_nl:
  assumes "\<forall>l \<in> set ls. l \<noteq> [] \<and> CHR 0x0A \<notin> set l \<and> last l \<noteq> CHR 0x0D"
  shows "lines (join_nl ls) = ls"
proof -
  have "split (CHR 0x0A) (join_nl ls) = (if ls = [] then [[]] else ls)"
    using assms by (induction ls rule: join_nl.induct) (auto simp: split_single split_append)
  moreover have "map strip_cr (butlast ls) = butlast ls"
    using assms by (intro map_idI) (auto simp: strip_cr_def dest!: in_set_butlastD)
  moreover have "ls \<noteq> [] \<Longrightarrow> last ls \<noteq> []" using assms by auto
  ultimately show ?thesis by (simp add: lines_def Let_def)
qed

lemma set_trim: "set (trim s) \<subseteq> set s"
proof -
  have "set (trim_start t) \<subseteq> set t" for t
    by (induction t rule: trim_start.induct) (subst trim_start.simps, auto dest: in_set_dropD)
  moreover have "set (trim_end t) \<subseteq> set t" for t
    using trim_end_take [of t] set_take_subset by metis
  ultimately show ?thesis unfolding trim_def by blast
qed

lemma last_trim_not_cr: "trim s \<noteq> [] \<Longrightarrow> last (trim s) \<noteq> CHR 0x0D"
proof
  assume ne: "trim s \<noteq> []" and cr: "last (trim s) = CHR 0x0D"
  then have "drop (length (trim s) - 1) (trim s) = [CHR 0x0D]"
    by (metis append_butlast_last_id append_eq_conv_conj length_butlast)
  moreover have "ws_len [CHR 0x0D] = 1" by (simp add: ws_len_def)
  ultimately have "ws_len_end (trim s) = 1"
    using ne by (simp add: ws_len_end_def Suc_le_eq)
  then show False using ws_len_end_trim_end [of "trim_start s"] by (simp add: trim_def)
qed

text \<open>\<open>str::get(..n)\<close>: the prefix of \<open>n\<close> bytes, if it ends on a character boundary.\<close>

definition str_get_to :: "nat \<Rightarrow> string \<Rightarrow> string option" where
  "str_get_to n s =
     (if n \<le> length s \<and> (n < length s \<longrightarrow> \<not> is_cont (of_char (s ! n)))
      then Some (take n s) else None)"

section \<open>Numbers\<close>

definition is_digit :: "char \<Rightarrow> bool" where
  "is_digit c \<longleftrightarrow> 48 \<le> (of_char c :: nat) \<and> (of_char c :: nat) \<le> 57"

definition digits_value :: "string \<Rightarrow> nat" where
  "digits_value s = foldl (\<lambda>acc c. 10 * acc + (of_char c - 48)) 0 s"

text \<open>
  \<open>str::parse\<close> of an unsigned integer whose largest value is \<open>m\<close>: an optional sign \<open>+\<close>, at
  least one digit, no overflow.
\<close>

definition parse_uint :: "nat \<Rightarrow> string \<Rightarrow> nat result" where
  "parse_uint m s =
     (let ds = (if s \<noteq> [] \<and> hd s = CHR ''+'' \<and> tl s \<noteq> [] then tl s else s) in
      if ds \<noteq> [] \<and> list_all is_digit ds \<and> digits_value ds \<le> m
      then Inr (digits_value ds) else Inl ParseFailed)"

lemma parse_uint_le: "parse_uint m s = Inr n \<Longrightarrow> n \<le> m"
  by (auto simp: parse_uint_def Let_def split: if_splits)

text \<open>\<open>Display\<close> of an unsigned integer.\<close>

fun show_dec :: "nat \<Rightarrow> string" where
  "show_dec n =
     (if n < 10 then [char_of (48 + n)] else show_dec (n div 10) @ [char_of (48 + n mod 10)])"

declare show_dec.simps [simp del]

lemma show_dec_digits: "show_dec n \<noteq> [] \<and> list_all is_digit (show_dec n)"
proof (induction n rule: show_dec.induct)
  case (1 n)
  have d: "is_digit (char_of (48 + k))" if "k < 10" for k :: nat
    using that by (auto simp: is_digit_def)
  show ?case
  proof (cases "n < 10")
    case True
    then show ?thesis by (subst (1 2) show_dec.simps) (simp add: d)
  next
    case False
    then show ?thesis using "1.IH" by (subst (1 2) show_dec.simps) (simp add: d)
  qed
qed

lemma digits_value_show_dec: "digits_value (show_dec n) = n"
proof (induction n rule: show_dec.induct)
  case (1 n)
  show ?case
  proof (cases "n < 10")
    case True
    then show ?thesis by (subst show_dec.simps) (simp add: digits_value_def)
  next
    case False
    then show ?thesis using "1.IH"
      by (subst show_dec.simps) (simp add: digits_value_def)
  qed
qed

lemma parse_uint_show_dec: "n \<le> m \<Longrightarrow> parse_uint m (show_dec n) = Inr n"
proof -
  assume n: "n \<le> m"
  have "hd (show_dec n) \<noteq> CHR ''+''"
    using show_dec_digits [of n] by (cases "show_dec n") (auto simp: is_digit_def)
  with n show ?thesis
    using show_dec_digits [of n] by (simp add: parse_uint_def digits_value_show_dec)
qed

end
