(* ===== verification/NetAddr.thy ===== *)
theory NetAddr
  imports RustStr
begin

text \<open>
  The network addresses of \<open>std::net\<close> as the source uses them: the address types, their
  predicates, their \<open>Display\<close> output and the parser behind \<open>str::parse::<IpAddr>\<close>.
\<close>

section \<open>Addresses\<close>

datatype ip_addr = IpV4 u32 | IpV6 u128

text \<open>A V6 socket address also carries its flow information and scope identifier.\<close>

datatype socket_addr = SocketV4 u32 u16 | SocketV6 u128 u16 u32 u32

fun sa_ip :: "socket_addr \<Rightarrow> ip_addr" where
  "sa_ip (SocketV4 ip port) = IpV4 ip"
| "sa_ip (SocketV6 ip port flow scope) = IpV6 ip"

fun sa_port :: "socket_addr \<Rightarrow> u16" where
  "sa_port (SocketV4 ip port) = port"
| "sa_port (SocketV6 ip port flow scope) = port"

fun socket_addr_new :: "ip_addr \<Rightarrow> u16 \<Rightarrow> socket_addr" where
  "socket_addr_new (IpV4 ip) port = SocketV4 ip port"
| "socket_addr_new (IpV6 ip) port = SocketV6 ip port 0 0"

fun is_ipv4 :: "socket_addr \<Rightarrow> bool" where
  "is_ipv4 (SocketV4 _ _) = True"
| "is_ipv4 (SocketV6 _ _ _ _) = False"

lemma socket_addr_new_sel [simp]:
  "sa_ip (socket_addr_new ip port) = ip"
  "sa_port (socket_addr_new ip port) = port"
  by (cases ip; simp)+

definition v4_octets :: "u32 \<Rightarrow> bytes" where
  "v4_octets ip = to_be_bytes 4 ip"

definition v6_octets :: "u128 \<Rightarrow> bytes" where
  "v6_octets ip = to_be_bytes 16 ip"

lemma length_octets [simp]: "length (v4_octets ip4) = 4" "length (v6_octets ip6) = 16"
  by (simp_all add: v4_octets_def v6_octets_def)

lemma from_octets [simp]:
  "from_be_bytes (v4_octets ip4) = ip4" "from_be_bytes (v6_octets ip6) = ip6"
  by (simp_all add: v4_octets_def v6_octets_def)

definition v4_of :: "u8 \<Rightarrow> u8 \<Rightarrow> u8 \<Rightarrow> u8 \<Rightarrow> u32" where
  "v4_of a b c d = from_be_bytes [a, b, c, d]"

text \<open>\<open>Ipv6Addr::to_ipv4_mapped\<close>: addresses in \<open>::ffff:0:0/96\<close>.\<close>

definition to_ipv4_mapped :: "u128 \<Rightarrow> u32 option" where
  "to_ipv4_mapped ip = (if drop_bit 32 ip = 0xFFFF then Some (ucast ip) else None)"

fun is_unspecified :: "ip_addr \<Rightarrow> bool" where
  "is_unspecified (IpV4 ip) = (ip = 0)"
| "is_unspecified (IpV6 ip) = (ip = 0)"

section \<open>Display\<close>

fun join_char :: "char \<Rightarrow> string list \<Rightarrow> string" where
  "join_char c [] = []"
| "join_char c [s] = s"
| "join_char c (s # ss) = s @ c # join_char c ss"

definition show_v4 :: "u32 \<Rightarrow> string" where
  "show_v4 ip = join_char (CHR ''.'') (map (\<lambda>b. show_dec (unat b)) (v4_octets ip))"

definition hex_digit :: "nat \<Rightarrow> char" where
  "hex_digit n = (if n < 10 then char_of (48 + n) else char_of (87 + n))"

fun show_hex :: "nat \<Rightarrow> string" where
  "show_hex n =
     (if n < 16 then [hex_digit n] else show_hex (n div 16) @ [hex_digit (n mod 16)])"

declare show_hex.simps [simp del]

definition v6_segments :: "u128 \<Rightarrow> nat list" where
  "v6_segments ip = map (\<lambda>i. unat (ucast (drop_bit (112 - 16 * i) ip) :: u16)) [0..<8]"

text \<open>The first longest run of zero segments: its start and length.\<close>

fun zero_run :: "nat \<Rightarrow> nat \<times> nat \<Rightarrow> nat \<times> nat \<Rightarrow> nat list \<Rightarrow> nat \<times> nat" where
  "zero_run i longest current [] = longest"
| "zero_run i longest (start, len) (s # ss) =
     (if s = 0 then
        (let start' = (if len = 0 then i else start); len' = len + 1;
             longest' = (if len' > snd longest then (start', len') else longest)
         in zero_run (i + 1) longest' (start', len') ss)
      else zero_run (i + 1) longest (0, 0) ss)"

definition show_segments :: "nat list \<Rightarrow> string" where
  "show_segments ss = join_char (CHR '':'') (map show_hex ss)"

definition show_v6 :: "u128 \<Rightarrow> string" where
  "show_v6 ip =
     (case to_ipv4_mapped ip of
        Some v4 \<Rightarrow> ''::ffff:'' @ show_v4 v4
      | None \<Rightarrow>
        (case zero_run 0 (0, 0) (0, 0) (v6_segments ip) of
           (start, len) \<Rightarrow>
             (if len > 1
              then show_segments (take start (v6_segments ip)) @ ''::''
                   @ show_segments (drop (start + len) (v6_segments ip))
              else show_segments (v6_segments ip))))"

fun show_ip :: "ip_addr \<Rightarrow> string" where
  "show_ip (IpV4 ip) = show_v4 ip"
| "show_ip (IpV6 ip) = show_v6 ip"

fun show_socket_addr :: "socket_addr \<Rightarrow> string" where
  "show_socket_addr (SocketV4 ip port) = show_v4 ip @ '':'' @ show_dec (unat port)"
| "show_socket_addr (SocketV6 ip port flow scope) =
     ''['' @ show_v6 ip @ (if scope = 0 then [] else ''%'' @ show_dec (unat scope))
     @ '']:'' @ show_dec (unat port)"

section \<open>Parsing\<close>

text \<open>
  The recursive-descent parser of \<open>core::net::parser\<close>. A reader takes the input left and
  returns the value and the input left after it; a failed reader consumes nothing.
\<close>

definition digit_of :: "nat \<Rightarrow> char \<Rightarrow> nat option" where
  "digit_of radix c =
     (let n = of_char c in
      if 48 \<le> n \<and> n \<le> 57 \<and> n - 48 < radix then Some (n - 48)
      else if 97 \<le> n \<and> n - 87 < radix then Some (n - 87)
      else if 65 \<le> n \<and> n \<le> 90 \<and> n - 55 < radix then Some (n - 55)
      else None)"

fun take_digits :: "nat \<Rightarrow> string \<Rightarrow> nat list \<times> string" where
  "take_digits radix [] = ([], [])"
| "take_digits radix (c # s) =
     (case digit_of radix c of
        None \<Rightarrow> ([], c # s)
      | Some d \<Rightarrow> (case take_digits radix s of (ds, r) \<Rightarrow> (d # ds, r)))"

definition read_number ::
  "nat \<Rightarrow> nat \<Rightarrow> bool \<Rightarrow> nat \<Rightarrow> string \<Rightarrow> (nat \<times> string) option" where
  "read_number radix max_digits allow_zero_prefix max_value s =
     (case take_digits radix s of
        (ds, r) \<Rightarrow>
          (let v = foldl (\<lambda>acc d. radix * acc + d) 0 ds in
           if ds = [] \<or> max_digits < length ds
              \<or> (\<not> allow_zero_prefix \<and> hd ds = 0 \<and> 1 < length ds) \<or> max_value < v
           then None else Some (v, r)))"

fun read_given_char :: "char \<Rightarrow> string \<Rightarrow> string option" where
  "read_given_char c [] = None"
| "read_given_char c (x # s) = (if x = c then Some s else None)"

text \<open>\<open>read_separator\<close>: the separator comes before every item but the first.\<close>

definition read_separator ::
  "char \<Rightarrow> nat \<Rightarrow> (string \<Rightarrow> ('a \<times> string) option) \<Rightarrow> string \<Rightarrow> ('a \<times> string) option" where
  "read_separator sep i p s =
     (if i = 0 then p s
      else (case read_given_char sep s of None \<Rightarrow> None | Some r \<Rightarrow> p r))"

fun read_octets :: "nat \<Rightarrow> nat \<Rightarrow> string \<Rightarrow> (nat list \<times> string) option" where
  "read_octets 0 i s = Some ([], s)"
| "read_octets (Suc k) i s =
     (case read_separator (CHR ''.'') i (read_number 10 3 False 255) s of
        None \<Rightarrow> None
      | Some (v, r) \<Rightarrow>
        (case read_octets k (i + 1) r of None \<Rightarrow> None | Some (vs, r') \<Rightarrow> Some (v # vs, r')))"

definition read_ipv4_addr :: "string \<Rightarrow> (u32 \<times> string) option" where
  "read_ipv4_addr s =
     map_option (\<lambda>(vs, r). (from_be_bytes (map of_nat vs), r)) (read_octets 4 0 s)"

text \<open>
  \<open>read_groups\<close> fills at most \<open>k\<close> further groups, \<open>i\<close> being already read; it returns the
  groups, whether they end in an embedded IPv4 address, and the input left.
\<close>

fun read_groups :: "nat \<Rightarrow> nat \<Rightarrow> string \<Rightarrow> nat list \<times> bool \<times> string" where
  "read_groups 0 i s = ([], False, s)"
| "read_groups (Suc k) i s =
     (case (if 0 < k then read_separator (CHR '':'') i read_ipv4_addr s else None) of
        Some (v4, r) \<Rightarrow> ([unat (drop_bit 16 v4), unat (take_bit 16 v4)], True, r)
      | None \<Rightarrow>
        (case read_separator (CHR '':'') i (read_number 16 4 True 65535) s of
           None \<Rightarrow> ([], False, s)
         | Some (g, r) \<Rightarrow>
           (case read_groups k (i + 1) r of (gs, v4, r') \<Rightarrow> (g # gs, v4, r'))))"

definition v6_of_segments :: "nat list \<Rightarrow> u128" where
  "v6_of_segments gs = foldl (\<lambda>acc g. push_bit 16 acc OR of_nat g) 0 gs"

definition read_ipv6_addr :: "string \<Rightarrow> (u128 \<times> string) option" where
  "read_ipv6_addr s =
     (case read_groups 8 0 s of
        (head, head_v4, r) \<Rightarrow>
          (if length head = 8 then Some (v6_of_segments head, r)
           else if head_v4 then None
           else (case Option.bind (read_given_char (CHR '':'') r) (read_given_char (CHR '':'')) of
                   None \<Rightarrow> None
                 | Some r' \<Rightarrow>
                   (case read_groups (8 - (length head + 1)) 0 r' of
                      (tail, _, r'') \<Rightarrow>
                        Some (v6_of_segments
                                (head @ replicate (8 - length head - length tail) 0 @ tail), r'')))))"

text \<open>\<open>str::parse::<IpAddr>\<close>: the whole string must be consumed.\<close>

definition parse_ip_addr :: "string \<Rightarrow> ip_addr result" where
  "parse_ip_addr s =
     (case read_ipv4_addr s of
        Some (v4, r) \<Rightarrow> (if r = [] then Inr (IpV4 v4) else Inl ParseFailed)
      | None \<Rightarrow>
        (case read_ipv6_addr s of
           Some (v6, r) \<Rightarrow> (if r = [] then Inr (IpV6 v6) else Inl ParseFailed)
         | None \<Rightarrow> Inl ParseFailed))"

end
