(* ===== verification/Codec.thy ===== *)
theory Codec
  imports Prelude "HOL-Library.Sublist"
begin

text \<open>
  The contracts between the components and their clients.
  \<^item> \<open>wire_codec\<close>: an encoder and a decoder on a byte stream that belong together. Clients get
    that a whole sequence of values survives the stream and that no encoding is a prefix of
    the encoding of another value.
  \<^item> \<open>incremental_codec\<close>: a decoder that is called on the bytes received so far and says that
    more are needed. Clients get that the values do not depend on how the stream was cut
    into packets.
  \<^item> \<open>step_invariant\<close>: a predicate that holds initially and is kept by every step holds in
    every reachable state.
\<close>

section \<open>Sequences of values on one stream\<close>

fun encode_all :: "('a \<Rightarrow> bytes result) \<Rightarrow> 'a list \<Rightarrow> bytes result" where
  "encode_all enc [] = Inr []"
| "encode_all enc (x # xs) =
     and_then (enc x) (\<lambda>b. and_then (encode_all enc xs) (\<lambda>bs. Inr (b @ bs)))"

fun decode_n ::
  "(bytes \<Rightarrow> ('a \<times> bytes) result) \<Rightarrow> nat \<Rightarrow> bytes \<Rightarrow> ('a list \<times> bytes) result" where
  "decode_n dec 0 bs = Inr ([], bs)"
| "decode_n dec (Suc n) bs =
     and_then (dec bs) (\<lambda>(x, rest).
     and_then (decode_n dec n rest) (\<lambda>(xs, rest'). Inr (x # xs, rest')))"

lemma encode_all_Cons_Inr:
  "encode_all enc (x # xs) = Inr bs \<longleftrightarrow>
     (\<exists>b bs'. enc x = Inr b \<and> encode_all enc xs = Inr bs' \<and> bs = b @ bs')"
  by (auto simp: and_then_Inr_iff)

lemma encode_all_append:
  "encode_all enc (xs @ ys) =
     and_then (encode_all enc xs) (\<lambda>b. and_then (encode_all enc ys) (\<lambda>c. Inr (b @ c)))"
proof (induction xs)
  case Nil
  show ?case by (cases "encode_all enc ys") simp_all
next
  case (Cons x xs)
  then show ?case
    by (cases "enc x"; cases "encode_all enc xs"; cases "encode_all enc ys") simp_all
qed

text \<open>An encoder and a decoder that belong together. \<open>ok\<close> holds of the values the client may
  encode; \<open>canon\<close> is what the decoder makes of a value (often the value itself).\<close>

locale wire_codec =
  fixes enc :: "'a \<Rightarrow> bytes result"
    and dec :: "bytes \<Rightarrow> ('b \<times> bytes) result"
    and ok :: "'a \<Rightarrow> bool"
    and canon :: "'a \<Rightarrow> 'b"
  assumes dec_enc: "ok x \<Longrightarrow> enc x = Inr bs \<Longrightarrow> dec (bs @ rest) = Inr (canon x, rest)"
begin

lemma decode_encode_all:
  assumes "list_all ok xs" "encode_all enc xs = Inr bs"
  shows "decode_n dec (length xs) (bs @ rest) = Inr (map canon xs, rest)"
  using assms
proof (induction xs arbitrary: bs)
  case Nil
  then show ?case by simp
next
  case (Cons x xs)
  then obtain b bs' where "enc x = Inr b" "encode_all enc xs = Inr bs'" "bs = b @ bs'"
    by (auto simp: and_then_Inr_iff)
  with Cons show ?case using dec_enc [of x b "bs' @ rest"] by simp
qed

lemma encoding_prefix_free:
  assumes "ok x" "ok y" "enc x = Inr bs" "enc y = Inr cs" "prefix bs cs"
  shows "bs = cs \<and> canon x = canon y"
proof -
  from \<open>prefix bs cs\<close> obtain zs where cs: "cs = bs @ zs" by (rule prefixE)
  have "dec cs = Inr (canon y, [])" using dec_enc [of y cs "[]"] assms by simp
  moreover have "dec cs = Inr (canon x, zs)" using dec_enc [of x bs zs] assms cs by simp
  ultimately show ?thesis using cs by simp
qed

lemma encoding_injective:
  assumes "ok x" "ok y" "enc x = Inr bs" "enc y = Inr bs"
  shows "canon x = canon y"
  using encoding_prefix_free [OF assms] by simp

end

section \<open>Decoding what has arrived so far\<close>

text \<open>
  The loop \<open>while let Some(x) = take(&mut pending)? { ... }\<close>: take values off the buffer until
  more bytes are needed. \<open>None\<close> is the loop that never ends.
\<close>

partial_function (option) drain ::
  "(bytes \<Rightarrow> ('a \<times> bytes) option result) \<Rightarrow> bytes \<Rightarrow> ('a list \<times> bytes) result option" where
  "drain tk pending =
     (case tk pending of
        Inl e \<Rightarrow> Some (Inl e)
      | Inr None \<Rightarrow> Some (Inr ([], pending))
      | Inr (Some v) \<Rightarrow>
          Option.bind (drain tk (snd v))
            (\<lambda>r. Some (and_then r (\<lambda>(xs, p). Inr (fst v # xs, p)))))"

text \<open>The receive loop around it: append a packet to the buffer, which may hold \<open>lim\<close> bytes, then
  drain the buffer.\<close>

fun feed ::
  "nat \<Rightarrow> (bytes \<Rightarrow> ('a \<times> bytes) option result) \<Rightarrow> bytes \<Rightarrow> bytes list \<Rightarrow>
     ('a list \<times> bytes) result option" where
  "feed lim tk pending [] = Some (Inr ([], pending))"
| "feed lim tk pending (c # cs) =
     (if \<not> length pending + length c \<le> lim then Some (Inl LimitExceeded)
      else Option.bind (drain tk (pending @ c))
       (\<lambda>r. case r of
          Inl e \<Rightarrow> Some (Inl e)
        | Inr (xs, p) \<Rightarrow>
            Option.bind (feed lim tk p cs)
              (\<lambda>r'. Some (and_then r' (\<lambda>(ys, q). Inr (xs @ ys, q))))))"

lemma drain_None: "tk p = Inr None \<Longrightarrow> drain tk p = Some (Inr ([], p))"
  by (subst drain.simps) simp

lemma drain_Some:
  "tk p = Inr (Some (x, q)) \<Longrightarrow> drain tk q = Some (Inr (xs, r)) \<Longrightarrow>
     drain tk p = Some (Inr (x # xs, r))"
  by (subst drain.simps) simp

lemma drain_end:
  assumes "drain tk p = Some (Inr (xs, r))"
  shows "tk r = Inr None"
proof -
  have "drain tk p = Some y \<Longrightarrow> \<forall>xs r. y = Inr (xs, r) \<longrightarrow> tk r = Inr None" for y
  proof (rule drain.raw_induct [of "\<lambda>tk p y. \<forall>xs r. y = Inr (xs, r) \<longrightarrow> tk r = Inr None"])
  qed (auto split: sum.splits option.splits simp: Option.bind_eq_Some_conv and_then_Inr_iff)
  with assms show ?thesis by blast
qed

locale incremental_codec =
  fixes enc :: "'a \<Rightarrow> bytes result"
    and tk :: "bytes \<Rightarrow> ('b \<times> bytes) option result"
    and ok :: "'a \<Rightarrow> bool"
    and canon :: "'a \<Rightarrow> 'b"
  assumes tk_enc: "ok x \<Longrightarrow> enc x = Inr bs \<Longrightarrow> tk (bs @ rest) = Inr (Some (canon x, rest))"
    and tk_short: "ok x \<Longrightarrow> enc x = Inr bs \<Longrightarrow> strict_prefix p bs \<Longrightarrow> tk p = Inr None"
    and tk_nil: "tk [] = Inr None"
begin

text \<open>Draining a part of an encoded sequence yields the values that are complete in it, and
  keeps the incomplete rest.\<close>

lemma drain_partial:
  assumes "list_all ok xs" "encode_all enc xs = Inr (p @ t)"
  shows "\<exists>k r. drain tk p = Some (Inr (map canon (take k xs), r)) \<and>
           encode_all enc (drop k xs) = Inr (r @ t) \<and> (t = [] \<longrightarrow> r = [])"
  using assms
proof (induction xs arbitrary: p)
  case Nil
  then show ?case by (intro exI [of _ 0] exI [of _ "[]"]) (simp add: drain_None tk_nil)
next
  case (Cons x xs)
  from Cons.prems obtain b cs where b: "enc x = Inr b" and cs: "encode_all enc xs = Inr cs"
    and bs: "p @ t = b @ cs" by (auto simp: encode_all_Cons_Inr simp del: encode_all.simps)
  have ok: "ok x" "list_all ok xs" using Cons.prems by auto
  show ?case
  proof (cases "prefix b p")
    case True
    then obtain q where p: "p = b @ q" by (rule prefixE)
    then have "encode_all enc xs = Inr (q @ t)" using cs bs by simp
    from Cons.IH [OF ok(2) this] obtain k r where
      IH: "drain tk q = Some (Inr (map canon (take k xs), r))"
        "encode_all enc (drop k xs) = Inr (r @ t)" "t = [] \<longrightarrow> r = []" by blast
    have "drain tk p = Some (Inr (map canon (take (Suc k) (x # xs)), r))"
      using drain_Some [OF tk_enc [OF ok(1) b, of q] IH(1)] p by simp
    with IH show ?thesis by (intro exI [of _ "Suc k"] exI [of _ r]) simp
  next
    case False
    then have short: "strict_prefix p b"
      using bs by (metis prefixI prefix_same_cases strict_prefixI prefix_order.eq_iff)
    then have "drain tk p = Some (Inr ([], p))"
      using tk_short [OF ok(1) b] drain_None by blast
    moreover have "t \<noteq> []" using short bs prefix_length_less by fastforce
    ultimately show ?thesis
      using Cons.prems by (intro exI [of _ 0] exI [of _ p]) simp
  qed
qed

text \<open>What waits in the buffer is a part of the next value.\<close>

lemma pending_short:
  assumes "list_all ok xs" "encode_all enc xs = Inr (p @ t)" "tk p = Inr None"
    "\<forall>x \<in> set xs. \<forall>b. enc x = Inr b \<longrightarrow> length b + n \<le> lim" "n \<le> length t"
  shows "length p + n \<le> lim"
proof (cases xs)
  case Nil
  then show ?thesis using assms(2,5) by simp
next
  case (Cons x ys)
  then obtain b bs where b: "enc x = Inr b" "p @ t = b @ bs" "ok x"
    using assms(1,2) by (auto simp: encode_all_Cons_Inr simp del: encode_all.simps)
  have "\<not> prefix b p" using tk_enc [OF b(3,1)] assms(3) by (auto elim: prefixE)
  then have "length p \<le> length b"
    using b(2) by (metis prefixI prefix_same_cases prefix_length_le)
  then show ?thesis using assms(4) b(1) Cons by fastforce
qed

lemma feed_partial:
  assumes "list_all ok xs" "encode_all enc xs = Inr (p @ concat cs)" "tk p = Inr None"
    "p \<noteq> [] \<longrightarrow> concat cs \<noteq> []"
    "\<forall>x \<in> set xs. \<forall>c \<in> set cs. \<forall>b. enc x = Inr b \<longrightarrow> length b + length c \<le> lim"
  shows "feed lim tk p cs = Some (Inr (map canon xs, []))"
  using assms
proof (induction cs arbitrary: xs p)
  case Nil
  then have "p = []" by auto
  moreover have "xs = []"
  proof (cases xs)
    case (Cons x ys)
    with Nil.prems \<open>p = []\<close> have "enc x = Inr []" "ok x"
      by (auto simp: and_then_Inr_iff)
    then show ?thesis using tk_enc [of x "[]" "[]"] tk_nil by simp
  qed
  ultimately show ?case by simp
next
  case (Cons c cs)
  have "encode_all enc xs = Inr ((p @ c) @ concat cs)" using Cons.prems by simp
  from drain_partial [OF Cons.prems(1) this] obtain k r where
    d: "drain tk (p @ c) = Some (Inr (map canon (take k xs), r))"
      "encode_all enc (drop k xs) = Inr (r @ concat cs)" "concat cs = [] \<longrightarrow> r = []" by blast
  have "list_all ok (drop k xs)"
    using Cons.prems(1) by (auto simp: list_all_iff dest: in_set_dropD)
  moreover have "\<forall>x \<in> set (drop k xs). \<forall>c \<in> set cs. \<forall>b. enc x = Inr b \<longrightarrow> length b + length c \<le> lim"
    using Cons.prems(5) by (auto dest: in_set_dropD)
  ultimately have "feed lim tk r cs = Some (Inr (map canon (drop k xs), []))"
    using Cons.IH [of "drop k xs" r] d drain_end by blast
  moreover have "length p + length c \<le> lim"
    by (rule pending_short [OF Cons.prems(1,2,3)]) (use Cons.prems(5) in auto)
  ultimately show ?case using d(1) by (simp flip: map_append)
qed

text \<open>However the stream is cut, the receiver sees exactly the values sent, as long as a value and
  a piece fit the buffer together.\<close>

lemma feed_encode_all:
  assumes "list_all ok xs" "encode_all enc xs = Inr (concat cs)"
    "\<forall>x \<in> set xs. \<forall>c \<in> set cs. \<forall>b. enc x = Inr b \<longrightarrow> length b + length c \<le> lim"
  shows "feed lim tk [] cs = Some (Inr (map canon xs, []))"
  using feed_partial [OF assms(1), of "[]" cs] assms(2,3) tk_nil by simp

text \<open>When each value is cut into pieces of its own, it is enough that every value fits the
  buffer.\<close>

lemma feed_one:
  assumes "ok x" "enc x = Inr (p @ concat cs)" "length (p @ concat cs) \<le> lim" "[] \<notin> set cs" "cs \<noteq> []"
  shows "feed lim tk p (cs @ ds) = Option.bind (feed lim tk [] ds)
    (\<lambda>r. Some (and_then r (\<lambda>(ys, q). Inr (canon x # ys, q))))"
  using assms
proof (induction cs arbitrary: p)
  case (Cons c cs)
  show ?case
  proof (cases "cs = []")
    case True
    then have "tk (p @ c) = Inr (Some (canon x, []))" using tk_enc [OF Cons.prems(1,2), of "[]"] by simp
    from drain_Some [of tk, OF this drain_None [of tk, OF tk_nil]] show ?thesis using True Cons.prems(3) by simp
  next
    case False
    have "concat cs \<noteq> []" using False Cons.prems(4) by (cases cs) auto
    then have "strict_prefix (p @ c) (p @ concat (c # cs))" by (simp add: strict_prefix_def)
    then have "drain tk (p @ c) = Some (Inr ([], p @ c))"
      using tk_short [OF Cons.prems(1,2)] drain_None by blast
    moreover have "and_then r Inr = r" for r :: "('b list \<times> bytes) result" by (cases r) simp_all
    ultimately show ?thesis using Cons.IH [of "p @ c"] Cons.prems False by simp
  qed
qed simp

lemma feed_framed:
  assumes "list_all2 (\<lambda>x cs. ok x \<and> enc x = Inr (concat cs) \<and> length (concat cs) \<le> lim \<and> [] \<notin> set cs \<and> cs \<noteq> []) xs css"
  shows "feed lim tk [] (concat css) = Some (Inr (map canon xs, []))"
  using assms
proof (induction rule: list_all2_induct)
  case (Cons x xs cs css)
  then show ?case using feed_one [of x "[]" cs lim "concat css"] by simp
qed simp

lemma feed_chunks:
  assumes "list_all2 (\<lambda>x b. ok x \<and> enc x = Inr b \<and> length b \<le> lim) xs bs" "0 < n"
  shows "feed lim tk [] (concat (map (chunks n) bs)) = Some (Inr (map canon xs, []))"
proof (rule feed_framed)
  have "b \<noteq> []" if "ok x" "enc x = Inr b" for x b using tk_enc [OF that, of "[]"] tk_nil by auto
  then have nonempty: "chunks n b \<noteq> []" if "ok x" "enc x = Inr b" for x b
    using that concat_chunks [OF assms(2), of b] by (metis concat.simps(1))
  show "list_all2 (\<lambda>x cs. ok x \<and> enc x = Inr (concat cs) \<and> length (concat cs) \<le> lim \<and> [] \<notin> set cs \<and> cs \<noteq> [])
      xs (map (chunks n) bs)"
    using assms(1) unfolding list_all2_map2
    by (rule list_all2_mono) (use assms(2) nonempty in \<open>auto simp: concat_chunks dest: chunks_bounds\<close>)
qed

end

section \<open>Invariants of step relations\<close>

inductive reachable :: "('s \<Rightarrow> bool) \<Rightarrow> ('s \<Rightarrow> 's \<Rightarrow> bool) \<Rightarrow> 's \<Rightarrow> bool"
  for init :: "'s \<Rightarrow> bool" and step :: "'s \<Rightarrow> 's \<Rightarrow> bool" where
  reachable_init: "init s \<Longrightarrow> reachable init step s"
| reachable_step: "reachable init step s \<Longrightarrow> step s s' \<Longrightarrow> reachable init step s'"

lemma reachable_run:
  "reachable init step s \<Longrightarrow> step\<^sup>*\<^sup>* s s' \<Longrightarrow> reachable init step s'"
  by (rotate_tac, induction rule: rtranclp_induct) (auto intro: reachable_step)

locale step_invariant =
  fixes init :: "'s \<Rightarrow> bool"
    and step :: "'s \<Rightarrow> 's \<Rightarrow> bool"
    and inv :: "'s \<Rightarrow> bool"
  assumes init_inv: "init s \<Longrightarrow> inv s"
    and step_inv: "inv s \<Longrightarrow> step s s' \<Longrightarrow> inv s'"
begin

lemma reachable_inv: "reachable init step s \<Longrightarrow> inv s"
  by (induction rule: reachable.induct) (auto intro: init_inv step_inv)

lemma reachable_preserves:
  "reachable init step s \<Longrightarrow> step\<^sup>*\<^sup>* s s' \<Longrightarrow> inv s'"
  by (rotate_tac 1, induction rule: rtranclp_induct)
     (auto intro: reachable_inv step_inv)

end

end
