(* ===== verification/IoUtil.thy ===== *)
theory IoUtil
  imports Prelude
begin

text \<open>
  Writing a frame that is kept in two buffers (\<open>src/src/io_util.rs\<close>).

  A writer is what the code can see of an \<open>AsyncWrite\<close>: whether it takes several buffers at
  once, and how many bytes a call of \<open>write_vectored\<close> on the buffers that remain takes, or
  its error. The buffers that remain are different at every call of one \<open>write_all_vectored\<close>,
  so the function stands for any behaviour of the writer. An operation returns the bytes
  that reached the writer, or the error; \<open>write_all\<close> of one buffer writes the buffer.
\<close>

record writer =
  w_is_write_vectored :: bool
  w_write_vectored :: "bytes list \<Rightarrow> nat result"

text \<open>\<open>IoSlice::advance_slices\<close>: drop the buffers that are consumed, then cut the first one.
  Advancing beyond the end panics.\<close>

fun advance_slices :: "bytes list \<Rightarrow> nat \<Rightarrow> bytes list result" where
  "advance_slices [] n = (if n = 0 then Inr [] else Inl Panic)"
| "advance_slices (b # bs) n =
     (if length b \<le> n then advance_slices bs (n - length b) else Inr (drop n b # bs))"

lemma advance_slices_Inr:
  "n \<le> length (concat bs) \<Longrightarrow>
     \<exists>bs'. advance_slices bs n = Inr bs' \<and> concat bs' = drop n (concat bs)
           \<and> (bs' = [] \<longleftrightarrow> length (concat bs) = n)"
proof (induction bs n rule: advance_slices.induct)
  case (2 b bs n)
  show ?case
  proof (cases "length b \<le> n")
    case True
    then have "n - length b \<le> length (concat bs)" using "2.prems" by auto
    moreover have "length (concat bs) = n - length b \<longleftrightarrow> length b + length (concat bs) = n"
      using True by auto
    ultimately show ?thesis using "2.IH" True by auto
  qed auto
qed simp

lemma advance_slices_eq_Inr:
  "advance_slices bs n = Inr bs' \<Longrightarrow>
     concat bs' = drop n (concat bs) \<and> n \<le> length (concat bs)
     \<and> (bs' = [] \<longleftrightarrow> length (concat bs) = n)"
proof (induction bs n rule: advance_slices.induct)
  case (2 b bs n)
  then show ?case by (cases "length b \<le> n") (auto simp: le_diff_conv2)
qed (simp split: if_splits)

function write_all_vectored :: "writer \<Rightarrow> bytes list \<Rightarrow> bytes result" where
  "write_all_vectored w bufs =
     (if bufs = [] then Inr []
      else case advance_slices bufs 0 of
        Inl e \<Rightarrow> Inl e
      | Inr remaining \<Rightarrow>
          (if remaining = [] then Inr []
           else case w_write_vectored w remaining of
             Inl e \<Rightarrow> Inl e
           | Inr written \<Rightarrow>
               (if written = 0 then Inl IoFailed
                else case advance_slices remaining written of
                  Inl e \<Rightarrow> Inl e
                | Inr remaining' \<Rightarrow>
                    and_then (write_all_vectored w remaining')
                      (\<lambda>rest. Inr (take written (concat remaining) @ rest)))))"
  by pat_completeness auto
termination
  by (relation "measure (\<lambda>(w, bufs). length (concat bufs))")
     (auto dest!: advance_slices_eq_Inr simp del: length_concat)

declare write_all_vectored.simps [simp del]

definition write_frame_parts :: "writer \<Rightarrow> bytes \<Rightarrow> bytes \<Rightarrow> bytes result" where
  "write_frame_parts w header payload =
     (if w_is_write_vectored w then write_all_vectored w [header, payload]
      else Inr (header @ payload))"

text \<open>What \<open>AsyncWrite::poll_write_vectored\<close> documents: it does not fail here, takes at most
  what it is given and at least one byte.\<close>

definition writer_progress :: "writer \<Rightarrow> bool" where
  "writer_progress w \<longleftrightarrow>
     (\<forall>bufs. concat bufs \<noteq> [] \<longrightarrow>
        (\<exists>n. w_write_vectored w bufs = Inr n \<and> 0 < n \<and> n \<le> length (concat bufs)))"

text \<open>With any pattern of partial writes, all buffers are written, once and in order.\<close>

lemma write_all_vectored_complete:
  "writer_progress w \<Longrightarrow> write_all_vectored w bufs = Inr (concat bufs)"
proof (induction w bufs rule: write_all_vectored.induct)
  case (1 w bufs)
  obtain rem where rem: "advance_slices bufs 0 = Inr rem" "concat rem = concat bufs"
    "rem = [] \<longleftrightarrow> concat bufs = []"
    using advance_slices_Inr [of 0 bufs] by (auto simp del: length_concat)
  show ?case
  proof (cases "rem = []")
    case True
    then show ?thesis using rem by (subst write_all_vectored.simps) simp
  next
    case False
    then have ne: "bufs \<noteq> []" "concat rem \<noteq> []" using rem by auto
    then obtain n where n: "w_write_vectored w rem = Inr n" "0 < n" "n \<le> length (concat rem)"
      using 1(2) by (auto simp: writer_progress_def simp del: length_concat concat_eq_Nil_conv)
    then obtain rem' where rem': "advance_slices rem n = Inr rem'" "concat rem' = drop n (concat rem)"
      using advance_slices_Inr by blast
    have "write_all_vectored w rem' = Inr (concat rem')"
      using 1(1) [OF ne(1) rem(1) False n(1) _ rem'(1)] n(2) 1(2) by simp
    then show ?thesis
      using rem rem' n False ne by (subst write_all_vectored.simps) simp
  qed
qed

lemma write_frame_parts_complete:
  "writer_progress w \<Longrightarrow> write_frame_parts w header payload = Inr (header @ payload)"
  by (simp add: write_frame_parts_def write_all_vectored_complete)

text \<open>A writer that takes a single byte per call meets the contract.\<close>

definition one_byte_writer :: writer where
  "one_byte_writer = \<lparr> w_is_write_vectored = True, w_write_vectored = (\<lambda>_. Inr 1) \<rparr>"

lemma writer_progress_one_byte: "writer_progress one_byte_writer"
proof -
  have "0 < length xs" if "xs \<noteq> []" for xs :: bytes using that by simp
  then show ?thesis
    unfolding writer_progress_def one_byte_writer_def by (auto simp: Suc_le_eq simp del: length_concat)
qed

end
