(* ===== verification/Protocol.thy ===== *)
theory Protocol
  imports NetAddr Codec IoUtil
begin

text \<open>
  The AnyTLS wire protocol (\<open>src/src/protocol.rs\<close>): frames, the authentication preface, the
  settings text and the encoding of a proxy target. The frame writer that shapes traffic
  with padding is in \<open>Padding\<close>.

  SHA-256 and the hexadecimal decoder come from other crates and are parameters: \<open>sha\<close> is the
  digest of a byte string, \<open>hex_decode\<close> the decoder that fills a buffer of a given length.
\<close>

section \<open>Data\<close>

abbreviation (input) "CMD_WASTE \<equiv> 0 :: u8"
abbreviation (input) "CMD_SYN \<equiv> 1 :: u8"
abbreviation (input) "CMD_PSH \<equiv> 2 :: u8"
abbreviation (input) "CMD_FIN \<equiv> 3 :: u8"
abbreviation (input) "CMD_SETTINGS \<equiv> 4 :: u8"
abbreviation (input) "CMD_ALERT \<equiv> 5 :: u8"
abbreviation (input) "CMD_UPDATE_PADDING_SCHEME \<equiv> 6 :: u8"
abbreviation (input) "CMD_SYNACK \<equiv> 7 :: u8"
abbreviation (input) "CMD_HEART_REQUEST \<equiv> 8 :: u8"
abbreviation (input) "CMD_HEART_RESPONSE \<equiv> 9 :: u8"
abbreviation (input) "CMD_SERVER_SETTINGS \<equiv> 10 :: u8"
abbreviation (input) "MAX_FRAME_PAYLOAD_LEN \<equiv> 65535 :: nat"
abbreviation (input) "FRAME_HEADER_LEN \<equiv> 7 :: nat"
abbreviation (input) "VECTORED_FRAME_MIN_PAYLOAD \<equiv> 32 * 1024 :: nat"
abbreviation (input) "CLIENT_NAME \<equiv> ''aerion/0.1.0''"

datatype proxy_target = Ip socket_addr | Domain string u16

record frame =
  frame_cmd :: u8
  frame_stream_id :: u32
  frame_payload :: bytes

definition mk_frame :: "u8 \<Rightarrow> u32 \<Rightarrow> bytes \<Rightarrow> frame" where
  "mk_frame c i p = \<lparr> frame_cmd = c, frame_stream_id = i, frame_payload = p \<rparr>"

lemma mk_frame_sel [simp]:
  "frame_cmd (mk_frame c i p) = c"
  "frame_stream_id (mk_frame c i p) = i"
  "frame_payload (mk_frame c i p) = p"
  by (simp_all add: mk_frame_def)

lemma mk_frame_collapse [simp]:
  "mk_frame (frame_cmd f) (frame_stream_id f) (frame_payload f) = f"
  by (simp add: mk_frame_def)

section \<open>Authentication\<close>

definition password_hash :: "(bytes \<Rightarrow> bytes) \<Rightarrow> string \<Rightarrow> bytes" where
  "password_hash sha password = sha (as_bytes password)"

text \<open>The comparison accumulates the differences of all bytes, whatever the first ones are.\<close>

definition constant_time_eq :: "bytes \<Rightarrow> bytes \<Rightarrow> bool" where
  "constant_time_eq left right =
     (if length left \<noteq> length right then False
      else foldl (\<lambda>diff (a, b). diff OR (a XOR b)) 0 (zip left right) = (0 :: u8))"

definition read_auth_preface_hash :: "bytes \<Rightarrow> (bytes \<times> bytes) result" where
  "read_auth_preface_hash reader =
     and_then (read_exact 32 reader) (\<lambda>(hash, reader).
     and_then (read_exact 2 reader) (\<lambda>(padding_len, reader).
     let padding_len = unat (from_be_bytes padding_len :: u16) in
     if padding_len > 0
     then and_then (read_exact padding_len reader) (\<lambda>(_, reader). Inr (hash, reader))
     else Inr (hash, reader)))"

definition read_auth_preface_user ::
  "(bytes \<Rightarrow> bytes) \<Rightarrow> bytes \<Rightarrow> string list \<Rightarrow> (string \<times> bytes) result" where
  "read_auth_preface_user sha reader expected_passwords =
     and_then (read_auth_preface_hash reader) (\<lambda>(hash, reader).
     let found = foldl (\<lambda>found password.
           if constant_time_eq hash (password_hash sha password) then Some password else found)
           None expected_passwords
     in and_then (ok_or found AuthFailed) (\<lambda>password. Inr (password, reader)))"

definition read_auth_preface_any ::
  "(bytes \<Rightarrow> bytes) \<Rightarrow> bytes \<Rightarrow> string list \<Rightarrow> bytes result" where
  "read_auth_preface_any sha reader expected_passwords =
     and_then (read_auth_preface_user sha reader expected_passwords) (\<lambda>(_, reader). Inr reader)"

definition read_auth_preface :: "(bytes \<Rightarrow> bytes) \<Rightarrow> bytes \<Rightarrow> string \<Rightarrow> bytes result" where
  "read_auth_preface sha reader expected_password =
     read_auth_preface_any sha reader [expected_password]"

section \<open>Frames\<close>

definition encode_frame :: "u8 \<Rightarrow> u32 \<Rightarrow> bytes \<Rightarrow> bytes" where
  "encode_frame cmd stream_id payload =
     [cmd] @ to_be_bytes 4 stream_id @ len_u16 (length payload) @ payload"

definition read_frame :: "bytes \<Rightarrow> (frame \<times> bytes) result" where
  "read_frame reader =
     and_then (read_exact FRAME_HEADER_LEN reader) (\<lambda>(header, reader).
     let len = unat (from_be_bytes [header ! 5, header ! 6] :: u16) in
     and_then (if len > 0 then read_exact len reader else Inr ([], reader)) (\<lambda>(payload, reader).
     Inr (mk_frame (header ! 0)
            (from_be_bytes [header ! 1, header ! 2, header ! 3, header ! 4]) payload, reader)))"

definition write_vectored_frame_bytes :: "writer \<Rightarrow> u8 \<Rightarrow> u32 \<Rightarrow> bytes \<Rightarrow> bytes result" where
  "write_vectored_frame_bytes w cmd stream_id payload =
     write_frame_parts w ([cmd] @ to_be_bytes 4 stream_id @ len_u16 (length payload)) payload"

definition write_frame :: "writer \<Rightarrow> u8 \<Rightarrow> u32 \<Rightarrow> bytes \<Rightarrow> bytes result" where
  "write_frame w cmd stream_id payload =
     (if \<not> length payload \<le> MAX_FRAME_PAYLOAD_LEN then Inl TooLong
      else if length payload \<ge> VECTORED_FRAME_MIN_PAYLOAD \<and> w_is_write_vectored w
      then write_vectored_frame_bytes w cmd stream_id payload
      else Inr (encode_frame cmd stream_id payload))"

definition write_payload_chunks :: "writer \<Rightarrow> u32 \<Rightarrow> bytes \<Rightarrow> bytes result" where
  "write_payload_chunks w stream_id payload =
     encode_all (write_frame w CMD_PSH stream_id) (chunks MAX_FRAME_PAYLOAD_LEN payload)"

definition write_client_settings :: "writer \<Rightarrow> bytes result" where
  "write_client_settings w =
     write_frame w CMD_SETTINGS 0 (as_bytes (''v=2'' @ [CHR 0x0A] @ ''client='' @ CLIENT_NAME))"

text \<open>Collecting pairs into a \<open>HashMap\<close> keeps the last value of a key.\<close>

definition parse_settings :: "bytes \<Rightarrow> string \<rightharpoonup> string" where
  "parse_settings bs =
     map_of (rev (List.map_filter (split_once (CHR ''='')) (lines (from_utf8_lossy bs))))"

section \<open>Targets\<close>

fun canonicalize_socket_addr :: "socket_addr \<Rightarrow> socket_addr" where
  "canonicalize_socket_addr (SocketV6 ip port flow scope) =
     (case to_ipv4_mapped ip of
        Some v4 \<Rightarrow> SocketV4 v4 port
      | None \<Rightarrow> SocketV6 ip port flow scope)"
| "canonicalize_socket_addr other = other"

fun encode_target :: "proxy_target \<Rightarrow> bytes result" where
  "encode_target (Ip addr) =
     (case sa_ip (canonicalize_socket_addr addr) of
        IpV4 ip \<Rightarrow> Inr ([0x01] @ v4_octets ip @ to_be_bytes 2 (sa_port addr))
      | IpV6 ip \<Rightarrow> Inr ([0x04] @ v6_octets ip @ to_be_bytes 2 (sa_port addr)))"
| "encode_target (Domain host port) =
     (if \<not> length host \<le> 255 then Inl TooLong
      else Inr ([0x03] @ [of_nat (length host)] @ as_bytes host @ to_be_bytes 2 port))"

definition decode_target :: "bytes \<Rightarrow> (proxy_target \<times> bytes) result" where
  "decode_target payload =
     (if payload = [] then Inl Empty
      else if payload ! 0 = 0x01 then
        (if \<not> length payload \<ge> 7 then Inl TooShort
         else Inr (Ip (SocketV4 (v4_of (payload ! 1) (payload ! 2) (payload ! 3) (payload ! 4))
                        (from_be_bytes [payload ! 5, payload ! 6])), drop 7 payload))
      else if payload ! 0 = 0x03 then
        (if \<not> length payload \<ge> 2 then Inl TooShort
         else let len = unat (payload ! 1); port_offset = 2 + len in
           if \<not> length payload \<ge> port_offset + 2 then Inl TooShort
           else and_then (from_utf8 (slice 2 port_offset payload)) (\<lambda>host.
             Inr (Domain host
                    (from_be_bytes [payload ! port_offset, payload ! (port_offset + 1)]),
                  drop (port_offset + 2) payload)))
      else if payload ! 0 = 0x04 then
        (if \<not> length payload \<ge> 19 then Inl TooShort
         else Inr (Ip (SocketV6 (from_be_bytes (slice 1 17 payload))
                        (from_be_bytes [payload ! 17, payload ! 18]) 0 0), drop 19 payload))
      else Inl BadAddressType)"

fun target_name :: "proxy_target \<Rightarrow> string" where
  "target_name (Ip addr) = show_socket_addr addr"
| "target_name (Domain host port) = host @ '':'' @ show_dec (unat port)"

text \<open>\<open>lookup\<close> is the system resolver: its addresses, or its error.\<close>

fun resolve_target_addr ::
  "(string \<Rightarrow> u16 \<Rightarrow> socket_addr list result) \<Rightarrow> proxy_target \<Rightarrow> socket_addr result" where
  "resolve_target_addr lookup (Ip addr) = Inr addr"
| "resolve_target_addr lookup (Domain host port) =
     and_then (lookup host port) (\<lambda>addrs. case addrs of [] \<Rightarrow> Inl NotFound | a # _ \<Rightarrow> Inr a)"

definition parse_uuid :: "(string \<Rightarrow> nat \<Rightarrow> bytes result) \<Rightarrow> string \<Rightarrow> bytes result" where
  "parse_uuid hex_decode value =
     (let normalized = filter (\<lambda>ch. ch \<noteq> CHR ''-'') value in
      if length normalized \<noteq> 32 then Inl TooShort
      else hex_decode normalized 16)"

section \<open>Lemmas: authentication\<close>

lemma foldl_or_xor_0:
  "foldl (\<lambda>diff (a, b). diff OR (a XOR b)) d ps = (0 :: u8) \<longleftrightarrow>
     d = 0 \<and> list_all (\<lambda>(a, b). a = b) ps"
proof (induction ps arbitrary: d)
  case (Cons p ps)
  obtain a b where [simp]: "p = (a, b)" by force
  have "d OR (a XOR b) = 0 \<longleftrightarrow> d = 0 \<and> a = b"
    by (auto simp: bit_eq_iff bit_simps)
  with Cons show ?case by auto
qed simp

lemma list_all_eq_zip: "length xs = length ys \<Longrightarrow> list_all (\<lambda>(a, b). a = b) (zip xs ys) \<longleftrightarrow> xs = ys"
  by (induction xs ys rule: list_induct2) auto

lemma constant_time_eq_iff [simp]: "constant_time_eq left right \<longleftrightarrow> left = right"
  by (auto simp: constant_time_eq_def foldl_or_xor_0 list_all_eq_zip)

lemma found_password:
  "foldl (\<lambda>found p. if h = f p then Some p else found) acc ps =
     (case find (\<lambda>p. h = f p) (rev ps) of None \<Rightarrow> acc | Some p \<Rightarrow> Some p)"
proof (induction ps rule: rev_induct)
  case Nil
  then show ?case by simp
next
  case (snoc p ps)
  then show ?case by simp
qed

text \<open>The preface: the digest, the length of the padding, the padding.\<close>

lemma read_auth_preface_hash_exact:
  assumes "length hash = 32" "length padding \<le> 65535"
  shows "read_auth_preface_hash (hash @ len_u16 (length padding) @ padding @ rest) = Inr (hash, rest)"
  using assms by (simp add: read_auth_preface_hash_def Let_def)

lemma read_auth_preface_hash_Inr:
  "read_auth_preface_hash reader = Inr (hash, rest) \<longleftrightarrow>
     (\<exists>padding. length hash = 32 \<and> length padding \<le> 65535 \<and>
        reader = hash @ len_u16 (length padding) @ padding @ rest)"
proof
  assume "read_auth_preface_hash reader = Inr (hash, rest)"
  then obtain n r padding where r: "reader = hash @ n @ r" "length hash = 32" "length n = 2"
    and p: "r = padding @ rest" "length padding = unat (from_be_bytes n :: u16)"
    by (auto simp: read_auth_preface_hash_def and_then_Inr_iff read_exact_Inr_iff Let_def
        split: if_splits)
  then have "n = len_u16 (length padding)"
    using to_from_be_bytes_u16 [of n] by simp
  moreover have "length padding \<le> 65535" using p(2) unat_u16_le by metis
  ultimately show "\<exists>padding. length hash = 32 \<and> length padding \<le> 65535 \<and>
        reader = hash @ len_u16 (length padding) @ padding @ rest"
    using r p by blast
qed (auto simp: read_auth_preface_hash_exact)

section \<open>Lemmas: frames\<close>

lemma length_encode_frame [simp]:
  "length (encode_frame cmd stream_id payload) = FRAME_HEADER_LEN + length payload"
  by (simp add: encode_frame_def)

lemma read_frame_encode [simp]:
  assumes "length payload \<le> MAX_FRAME_PAYLOAD_LEN"
  shows "read_frame (encode_frame cmd stream_id payload @ rest) =
           Inr (mk_frame cmd stream_id payload, rest)"
proof -
  let ?s = "to_be_bytes 4 stream_id" and ?n = "len_u16 (length payload)"
  obtain a b c d where s: "?s = [a, b, c, d]" "from_be_bytes [a, b, c, d] = stream_id"
    by (rule be_u32_cases)
  obtain e f where n: "?n = [e, f]" "from_be_bytes [e, f] = (of_nat (length payload) :: u16)"
    by (rule be_u16_cases)
  have "encode_frame cmd stream_id payload @ rest = [cmd, a, b, c, d, e, f] @ payload @ rest"
    by (simp add: encode_frame_def s n)
  then show ?thesis
    using assms s n by (simp add: read_frame_def Let_def)
qed

lemma read_frame_Inr:
  assumes "read_frame reader = Inr (f, rest)"
  shows "reader = encode_frame (frame_cmd f) (frame_stream_id f) (frame_payload f) @ rest
         \<and> length (frame_payload f) \<le> MAX_FRAME_PAYLOAD_LEN"
proof -
  from assms obtain h r p where h: "reader = h @ r" "length h = 7" "r = p @ rest"
    "length p = unat (from_be_bytes [h ! 5, h ! 6] :: u16)"
    and f: "f = mk_frame (h ! 0) (from_be_bytes [h ! 1, h ! 2, h ! 3, h ! 4]) p"
    by (auto simp: read_frame_def and_then_Inr_iff read_exact_Inr_iff Let_def split: if_splits)
  have hd: "h = h ! 0 # [h ! 1, h ! 2, h ! 3, h ! 4] @ [h ! 5, h ! 6]"
    using h(2) by (auto simp: length_Suc_conv numeral_eq_Suc)
  have "len_u16 (length p) = [h ! 5, h ! 6]"
    using to_from_be_bytes_u16 [of "[h ! 5, h ! 6]"] h(4) by simp
  moreover have "to_be_bytes 4 (from_be_bytes [h ! 1, h ! 2, h ! 3, h ! 4] :: u32) =
      [h ! 1, h ! 2, h ! 3, h ! 4]"
    by (rule to_from_be_bytes_u32) simp
  ultimately have "encode_frame (frame_cmd f) (frame_stream_id f) (frame_payload f) = h @ p"
    using arg_cong [OF hd, of "\<lambda>xs. xs @ p"] by (simp add: f encode_frame_def)
  moreover have "length (frame_payload f) \<le> 65535"
    using h(4) unat_u16_le by (simp add: f)
  ultimately show ?thesis using h by simp
qed

text \<open>Both write paths put the same bytes on the wire.\<close>

lemma write_frame_eq:
  "writer_progress w \<Longrightarrow>
     write_frame w cmd stream_id payload =
       (if length payload \<le> MAX_FRAME_PAYLOAD_LEN then Inr (encode_frame cmd stream_id payload)
        else Inl TooLong)"
  by (simp add: write_frame_def write_vectored_frame_bytes_def write_frame_parts_complete
      encode_frame_def)

definition put_frame :: "writer \<times> frame \<Rightarrow> bytes result" where
  "put_frame = (\<lambda>(w, f). write_frame w (frame_cmd f) (frame_stream_id f) (frame_payload f))"

interpretation frames: wire_codec put_frame read_frame "\<lambda>(w, f). writer_progress w" snd
  by unfold_locales (auto simp: put_frame_def write_frame_eq split: if_splits)

lemma write_payload_chunks_eq:
  assumes "writer_progress w"
  shows "write_payload_chunks w stream_id payload =
    encode_all put_frame
      (map (\<lambda>c. (w, mk_frame CMD_PSH stream_id c)) (chunks MAX_FRAME_PAYLOAD_LEN payload))"
proof -
  have "encode_all (write_frame w CMD_PSH stream_id) cs =
      encode_all put_frame (map (\<lambda>c. (w, mk_frame CMD_PSH stream_id c)) cs)" for cs
    by (induction cs) (simp_all add: put_frame_def)
  then show ?thesis by (simp add: write_payload_chunks_def)
qed

lemma write_payload_chunks_ok:
  assumes "writer_progress w"
  shows "\<exists>bs. write_payload_chunks w stream_id payload = Inr bs"
proof -
  have "\<exists>bs. encode_all (write_frame w CMD_PSH stream_id) cs = Inr bs"
    if "\<forall>c \<in> set cs. length c \<le> 65535" for cs
    using that assms by (induction cs) (auto simp: write_frame_eq)
  then show ?thesis using chunks_bounds [of _ 65535 payload] by (simp add: write_payload_chunks_def)
qed

section \<open>Lemmas: targets\<close>

text \<open>What a target looks like to the peer: a mapped IPv6 address is its IPv4 address, and
  flow information and scope are not transmitted.\<close>

fun wire_target :: "proxy_target \<Rightarrow> proxy_target" where
  "wire_target (Ip addr) =
     Ip (socket_addr_new (sa_ip (canonicalize_socket_addr addr)) (sa_port addr))"
| "wire_target (Domain host port) = Domain host port"

text \<open>A Rust \<open>String\<close> is valid UTF-8.\<close>

fun target_ok :: "proxy_target \<Rightarrow> bool" where
  "target_ok (Ip addr) = True"
| "target_ok (Domain host port) = valid_str host"

lemma v4_of_octets: "v4_octets ip = [a, b, c, d] \<Longrightarrow> v4_of a b c d = ip"
  by (metis from_octets(1) v4_of_def)

lemma v4_octets_of: "v4_octets (v4_of a b c d) = [a, b, c, d]"
  unfolding v4_octets_def v4_of_def by (rule to_from_be_bytes_u32) simp

lemma v4_octets_cases: obtains a b c d where "v4_octets ip = [a, b, c, d]"
  using length_4E [OF length_octets(1)] by metis

lemma decode_target_v4:
  "decode_target ([0x01] @ v4_octets ip @ to_be_bytes 2 port @ rest) = Inr (Ip (SocketV4 ip port), rest)"
proof -
  obtain a b c d where o: "v4_octets ip = [a, b, c, d]" by (rule v4_octets_cases)
  obtain e f where p: "to_be_bytes 2 port = [e, f]" "from_be_bytes [e, f] = port"
    by (rule be_u16_cases)
  show ?thesis by (simp add: decode_target_def o p v4_of_octets [OF o])
qed

lemma decode_target_v6:
  "decode_target ([0x04] @ v6_octets ip @ to_be_bytes 2 port @ rest) =
     Inr (Ip (SocketV6 ip port 0 0), rest)"
proof -
  obtain e f where p: "to_be_bytes 2 port = [e, f]" "from_be_bytes [e, f] = port"
    by (rule be_u16_cases)
  have "slice 1 17 (4 # v6_octets ip @ e # f # rest) = v6_octets ip"
    by (simp add: slice_def)
  then show ?thesis by (simp add: decode_target_def p nth_append)
qed

lemma decode_target_domain:
  assumes "length host \<le> 255" "valid_str host"
  shows "decode_target ([0x03] @ [of_nat (length host)] @ as_bytes host @ to_be_bytes 2 port @ rest) =
     Inr (Domain host port, rest)"
proof -
  obtain e f where p: "to_be_bytes 2 port = [e, f]" "from_be_bytes [e, f] = port"
    by (rule be_u16_cases)
  have "slice 2 (2 + length host) (3 # of_nat (length host) # as_bytes host @ e # f # rest) = as_bytes host"
    by (simp add: slice_def)
  then show ?thesis using assms by (simp add: decode_target_def p nth_append Let_def)
qed

lemma decode_encode_target:
  "target_ok t \<Longrightarrow> encode_target t = Inr bs \<Longrightarrow> decode_target (bs @ rest) = Inr (wire_target t, rest)"
proof (cases t)
  case (Ip addr)
  moreover assume "encode_target t = Inr bs"
  ultimately show ?thesis
    using decode_target_v4 [of _ "sa_port addr" rest] decode_target_v6 [of _ "sa_port addr" rest]
    by (auto split: ip_addr.splits)
next
  case (Domain host port)
  moreover assume "encode_target t = Inr bs" "target_ok t"
  ultimately show ?thesis
    using decode_target_domain [of host port rest] by (auto split: if_splits)
qed

interpretation targets: wire_codec encode_target decode_target target_ok wire_target
  by unfold_locales (rule decode_encode_target)

section \<open>Properties\<close>

text \<open>C11: whatever sequence of frames is written, each through the scalar or the vectored path
  of any writer that makes progress, a reader at the other end obtains exactly these frames,
  and is left at the byte after the last one.\<close>

theorem frame_stream_roundtrip:
  assumes "\<forall>(w, f) \<in> set wfs. writer_progress w \<and> length (frame_payload f) \<le> MAX_FRAME_PAYLOAD_LEN"
  shows "\<exists>bs. encode_all put_frame wfs = Inr bs \<and>
           decode_n read_frame (length wfs) (bs @ rest) = Inr (map snd wfs, rest)"
proof -
  have "\<exists>bs. encode_all put_frame wfs = Inr bs"
    using assms by (induction wfs) (auto simp: put_frame_def write_frame_eq)
  moreover have "list_all (\<lambda>(w, f). writer_progress w) wfs"
    using assms by (auto simp: list_all_iff)
  ultimately show ?thesis using frames.decode_encode_all by blast
qed

theorem frame_stream_roundtrip_witness:
  "decode_n read_frame 2 ([2, 0, 0, 0, 1, 0, 1, 7, 3, 0, 0, 0, 1, 0, 0] @ [9]) =
     Inr ([mk_frame CMD_PSH 1 [7], mk_frame CMD_FIN 1 []], [9])"
proof -
  let ?wfs = "[(one_byte_writer, mk_frame CMD_PSH 1 [7]), (one_byte_writer, mk_frame CMD_FIN 1 [])]"
  have be: "to_be_bytes 4 (1 :: u32) = [0, 0, 0, 1]" "to_be_bytes 2 (1 :: u16) = [0, 1]"
    "to_be_bytes 2 (0 :: u16) = [0, 0]" by code_simp+
  have "encode_all put_frame ?wfs = Inr [2, 0, 0, 0, 1, 0, 1, 7, 3, 0, 0, 0, 1, 0, 0]"
    by (simp add: put_frame_def write_frame_eq writer_progress_one_byte encode_frame_def be)
  then show ?thesis
    using frame_stream_roundtrip [of ?wfs "[9]"] writer_progress_one_byte
    by (simp del: encode_all.simps decode_n.simps add: numeral_2_eq_2)
qed

text \<open>C12: a payload of any length is written as a sequence of PSH frames of the stream, none of
  them empty or longer than a frame can be, and the reader gets back the payload by
  concatenating theirs.\<close>

theorem payload_chunks_reassemble:
  assumes "writer_progress w"
  shows "\<exists>bs fs. write_payload_chunks w stream_id payload = Inr bs \<and>
           decode_n read_frame (length fs) (bs @ rest) = Inr (fs, rest) \<and>
           list_all (\<lambda>f. frame_cmd f = CMD_PSH \<and> frame_stream_id f = stream_id \<and>
             0 < length (frame_payload f) \<and> length (frame_payload f) \<le> MAX_FRAME_PAYLOAD_LEN) fs \<and>
           concat (map frame_payload fs) = payload"
proof -
  let ?cs = "chunks MAX_FRAME_PAYLOAD_LEN payload"
  let ?wfs = "map (\<lambda>c. (w, mk_frame CMD_PSH stream_id c)) ?cs"
  obtain bs where bs: "write_payload_chunks w stream_id payload = Inr bs"
    using write_payload_chunks_ok [OF assms] by blast
  then have "decode_n read_frame (length ?wfs) (bs @ rest) = Inr (map snd ?wfs, rest)"
    using assms by (intro frames.decode_encode_all) (simp_all add: write_payload_chunks_eq list_all_iff)
  with bs show ?thesis
    by (intro exI [of _ bs] exI [of _ "map snd ?wfs"])
       (auto simp: list_all_iff comp_def concat_chunks dest!: chunks_bounds)
qed

theorem payload_chunks_reassemble_witness:
  "\<exists>bs fs. write_payload_chunks one_byte_writer 5 (replicate 70000 1) = Inr bs \<and>
           decode_n read_frame (length fs) (bs @ []) = Inr (fs, []) \<and>
           list_all (\<lambda>f. frame_cmd f = CMD_PSH \<and> frame_stream_id f = 5 \<and>
             0 < length (frame_payload f) \<and> length (frame_payload f) \<le> MAX_FRAME_PAYLOAD_LEN) fs \<and>
           concat (map frame_payload fs) = replicate 70000 1"
  using payload_chunks_reassemble [OF writer_progress_one_byte] by blast

text \<open>C13: a target is encoded whenever its domain name fits the length byte, and the peer
  decodes the target it stands for (IPv4-mapped addresses become IPv4), consuming exactly
  the encoding; a longer name is rejected with an error.\<close>

theorem target_roundtrip:
  assumes "target_ok t"
  shows "if (case t of Ip _ \<Rightarrow> True | Domain host _ \<Rightarrow> length host \<le> 255)
         then (\<exists>bs. encode_target t = Inr bs \<and> decode_target (bs @ rest) = Inr (wire_target t, rest))
         else encode_target t = Inl TooLong"
proof -
  let ?fits = "case t of Ip _ \<Rightarrow> True | Domain host _ \<Rightarrow> length host \<le> 255"
  have "?fits \<Longrightarrow> \<exists>bs. encode_target t = Inr bs" "\<not> ?fits \<Longrightarrow> encode_target t = Inl TooLong"
    by (cases t; auto split: ip_addr.splits)+
  with decode_encode_target [OF assms] show ?thesis by auto
qed

theorem target_roundtrip_witness:
  "(\<exists>bs. encode_target (Ip (SocketV6 0xFFFF7F000001 443 0 7)) = Inr bs \<and>
     decode_target (bs @ [1]) = Inr (Ip (SocketV4 0x7F000001 443), [1])) \<and>
   encode_target (Domain (replicate 256 (CHR ''a'')) 443) = Inl TooLong"
proof -
  have "target_ok (Domain (replicate 256 (CHR ''a'')) 443)" by code_simp
  from target_roundtrip [OF this, of "[]"] have "encode_target (Domain (replicate 256 (CHR ''a'')) 443) = Inl TooLong"
    by (simp split: if_splits)
  then show ?thesis
    using target_roundtrip [of "Ip (SocketV6 0xFFFF7F000001 443 0 7)" "[1]"]
    by (simp add: to_ipv4_mapped_def drop_bit_eq_div del: encode_target.simps(2))
qed

text \<open>C14: authentication accepts exactly the streams that open with the digest of an expected
  password, a length and that much padding; the user found is the last expected password
  with that digest, and the reader stands behind the padding.\<close>

theorem auth_preface_decision:
  "read_auth_preface_user sha reader passwords = Inr (p, rest) \<longleftrightarrow>
     (\<exists>padding earlier later.
        passwords = earlier @ p # later \<and>
        (\<forall>q \<in> set later. password_hash sha p \<noteq> password_hash sha q) \<and>
        length (password_hash sha p) = 32 \<and> length padding \<le> 65535 \<and>
        reader = password_hash sha p @ len_u16 (length padding) @ padding @ rest)"
proof -
  have "read_auth_preface_user sha reader passwords = Inr (p, rest) \<longleftrightarrow>
      (\<exists>h. read_auth_preface_hash reader = Inr (h, rest) \<and>
           find (\<lambda>p. h = password_hash sha p) (rev passwords) = Some p)"
    by (auto simp: read_auth_preface_user_def and_then_Inr_iff Let_def found_password ok_or_Inr_iff
        split: option.splits)
  then show ?thesis
    unfolding find_rev_Some read_auth_preface_hash_Inr by blast
qed

theorem auth_preface_decision_witness:
  "read_auth_preface_user (\<lambda>bs. take 32 (bs @ replicate 32 0))
     ([0x61] @ replicate 31 0 @ [0, 1] @ [5] @ [9]) [''b'', ''a''] = Inr (''a'', [9])"
proof -
  let ?sha = "\<lambda>bs. take 32 (bs @ replicate 32 (0 :: u8))"
  have "password_hash ?sha ''a'' = [0x61] @ replicate 31 0" "len_u16 (length [5 :: u8]) = [0, 1]"
    by code_simp+
  then show ?thesis
    by (intro auth_preface_decision [THEN iffD2] exI [of _ "[5]"] exI [of _ "[''b'']"] exI [of _ "[]"])
       simp
qed

end
