(* ===== verification/Routing.thy ===== *)
theory Routing
  imports Protocol
begin

text \<open>
  The routing table (\<open>src/src/routing.rs\<close>): rules over network, port, domain and address, tried
  in order, and the parsers of their parts.

  \<^item> The \<open>regex\<close> crate is a parameter: whether a pattern compiles, whether a compiled pattern
    matches, and escaping. A compiled expression is represented by its pattern.
  \<^item> A \<open>BTreeMap\<close> of named sets is a map; only look-ups and inserts are used.
  \<^item> Reading a rule-set file is a parameter of \<open>load_geoip_set_file\<close> and \<open>load_geosite_set_file\<close>.
\<close>

section \<open>Data\<close>

record regex_lib =
  rx_compiles :: "string \<Rightarrow> bool"
  rx_is_match :: "string \<Rightarrow> string \<Rightarrow> bool"
  rx_escape :: "string \<Rightarrow> string"

datatype route_decision = RouteProxy string | RouteDirect | RouteBlock

datatype route_network = NetTcp | NetUdp | NetDns

datatype domain_matcher =
    MExact string
  | MSuffix string
  | MKeyword string
  | MDotless string
  | MRegex string

record ip_cidr =
  cidr_network :: ip_addr
  cidr_prefix :: u8

record port_range =
  pr_start :: u16
  pr_end :: u16

record route_rule =
  rr_action :: route_decision
  rr_networks :: "route_network list"
  rr_domains :: "domain_matcher list"
  rr_ip_cidrs :: "ip_cidr list"
  rr_geoip_sets :: "string list"
  rr_geosite_sets :: "string list"
  rr_ip_is_private :: bool
  rr_ports :: "port_range list"

record route_table =
  rt_rules :: "route_rule list"
  rt_default :: route_decision
  rt_geoip_sets :: "string \<rightharpoonup> ip_cidr list"
  rt_geosite_sets :: "string \<rightharpoonup> domain_matcher list"

definition route_table_default :: route_table where
  "route_table_default =
     \<lparr> rt_rules = [], rt_default = RouteDirect, rt_geoip_sets = Map.empty, rt_geosite_sets = Map.empty \<rparr>"

definition route_rule_new :: "route_decision \<Rightarrow> route_rule" where
  "route_rule_new action =
     \<lparr> rr_action = action, rr_networks = [], rr_domains = [], rr_ip_cidrs = [], rr_geoip_sets = [],
       rr_geosite_sets = [], rr_ip_is_private = False, rr_ports = [] \<rparr>"

section \<open>Names, addresses and ports\<close>

definition trim_end_dots :: "string \<Rightarrow> string" where
  "trim_end_dots s = rev (dropWhile (\<lambda>c. c = CHR ''.'') (rev s))"

definition normalize_domain :: "string \<Rightarrow> string" where
  "normalize_domain domain = to_ascii_lowercase (trim_end_dots (trim domain))"

definition route_set_name :: "string \<Rightarrow> string" where
  "route_set_name name = to_ascii_lowercase (trim name)"

definition route_set_line :: "string \<Rightarrow> string option" where
  "route_set_line line =
     (let line = trim (hd (split (CHR ''#'') line)) in if line \<noteq> [] then Some line else None)"

text \<open>\<open>Ipv4Addr::is_private\<close>, \<open>is_loopback\<close>, \<open>is_link_local\<close> and their IPv6 counterparts.\<close>

fun is_private_ip :: "ip_addr \<Rightarrow> bool" where
  "is_private_ip (IpV4 ip) \<longleftrightarrow>
     (drop_bit 24 ip = 10 \<or> drop_bit 20 ip = 0xAC1 \<or> drop_bit 16 ip = 0xC0A8) \<or>
     drop_bit 24 ip = 127 \<or> drop_bit 16 ip = 0xA9FE"
| "is_private_ip (IpV6 ip) \<longleftrightarrow>
     drop_bit 121 ip = 0x7E \<or> ip = 1 \<or> drop_bit 118 ip = 0x3FA"

fun target_port :: "proxy_target \<Rightarrow> u16" where
  "target_port (Ip addr) = sa_port addr"
| "target_port (Domain _ port) = port"

definition prefix_to_mask_v4 :: "u8 \<Rightarrow> u32" where
  "prefix_to_mask_v4 pfx = (if pfx = 0 then 0 else push_bit (32 - unat pfx) (- 1))"

definition prefix_to_mask_v6 :: "u8 \<Rightarrow> u128" where
  "prefix_to_mask_v6 pfx = (if pfx = 0 then 0 else push_bit (128 - unat pfx) (- 1))"

definition matches_ignore_ascii_case :: "string \<Rightarrow> string list \<Rightarrow> bool" where
  "matches_ignore_ascii_case value candidates = list_ex (eq_ignore_ascii_case value) candidates"

definition cidr_contains :: "ip_cidr \<Rightarrow> ip_addr \<Rightarrow> bool" where
  "cidr_contains c ip =
     (case (cidr_network c, ip) of
        (IpV4 network, IpV4 ip) \<Rightarrow>
          (let mask = prefix_to_mask_v4 (cidr_prefix c) in and network mask = and ip mask)
      | (IpV6 network, IpV6 ip) \<Rightarrow>
          (let mask = prefix_to_mask_v6 (cidr_prefix c) in and network mask = and ip mask)
      | _ \<Rightarrow> False)"

definition geoip_name :: "string \<Rightarrow> string option" where
  "geoip_name value =
     (let value = trim value in
      case str_get_to 6 value of
        None \<Rightarrow> None
      | Some pfx \<Rightarrow>
          (if eq_ignore_ascii_case pfx ''geoip:'' then Some (route_set_name (drop 6 value)) else None))"

definition cidr_parse :: "string \<Rightarrow> ip_cidr result" where
  "cidr_parse value =
     (let value = trim value in
      if value = [] then Inl Empty
      else if eq_ignore_ascii_case value ''geoip:private'' then Inl Unsupported
      else if geoip_name value \<noteq> None then Inl Unsupported
      else
        and_then
          (case split_once (CHR ''/'') value of
             Some (network, pfx) \<Rightarrow>
               and_then (parse_ip_addr network) (\<lambda>network.
               and_then (parse_uint 255 pfx) (\<lambda>pfx. Inr (network, of_nat pfx)))
           | None \<Rightarrow>
               and_then (parse_ip_addr value) (\<lambda>network.
               Inr (network, case network of IpV4 _ \<Rightarrow> 32 | IpV6 _ \<Rightarrow> 128)))
          (\<lambda>(network, pfx).
             if (case network of IpV4 _ \<Rightarrow> pfx \<le> 32 | IpV6 _ \<Rightarrow> pfx \<le> 128)
             then Inr \<lparr> cidr_network = network, cidr_prefix = pfx \<rparr> else Inl OutOfRange))"

definition port_range_parse :: "string \<Rightarrow> port_range result" where
  "port_range_parse value =
     (let value = trim value in
      if value = [] then Inl Empty
      else case parse_uint 65535 value of
        Inr port \<Rightarrow> Inr \<lparr> pr_start = of_nat port, pr_end = of_nat port \<rparr>
      | Inl _ \<Rightarrow>
          and_then
            (ok_or (case split_once (CHR '':'') value of
                      Some p \<Rightarrow> Some p | None \<Rightarrow> split_once (CHR ''-'') value) ParseFailed)
            (\<lambda>(start, end).
               and_then (parse_uint 65535 start) (\<lambda>start.
               and_then (parse_uint 65535 end) (\<lambda>end.
               if start \<le> end then Inr \<lparr> pr_start = of_nat start, pr_end = of_nat end \<rparr>
               else Inl OutOfRange))))"

definition port_contains :: "port_range \<Rightarrow> u16 \<Rightarrow> bool" where
  "port_contains r port \<longleftrightarrow> pr_start r \<le> port \<and> port \<le> pr_end r"

section \<open>Domain matchers\<close>

definition matcher_exact :: "string \<Rightarrow> domain_matcher" where
  "matcher_exact domain = MExact (normalize_domain domain)"

definition matcher_suffix :: "string \<Rightarrow> domain_matcher" where
  "matcher_suffix domain = MSuffix (normalize_domain domain)"

definition matcher_keyword :: "string \<Rightarrow> domain_matcher" where
  "matcher_keyword keyword = MKeyword (to_ascii_lowercase (trim keyword))"

definition matcher_dotless :: "string \<Rightarrow> domain_matcher" where
  "matcher_dotless keyword = MDotless (to_ascii_lowercase (trim keyword))"

definition matcher_regex :: "regex_lib \<Rightarrow> string \<Rightarrow> domain_matcher result" where
  "matcher_regex rx pattern = (if rx_compiles rx pattern then Inr (MRegex pattern) else Inl ParseFailed)"

lemma snd_utf8_seq_pos: "0 < snd (utf8_seq bs)"
  by (cases "utf8_seq bs") (auto dest: utf8_seq_pos)

text \<open>\<open>str::chars\<close>, each character as its UTF-8 bytes.\<close>

function str_chars :: "string \<Rightarrow> string list" where
  "str_chars s =
     (if s = [] then []
      else let n = snd (utf8_seq (as_bytes s)) in take n s # str_chars (drop n s))"
  by pat_completeness auto
termination
  by (relation "measure length") (auto simp: snd_utf8_seq_pos)

declare str_chars.simps [simp del]

definition matcher_wildcard :: "regex_lib \<Rightarrow> string \<Rightarrow> domain_matcher result" where
  "matcher_wildcard rx pattern =
     (let pattern = normalize_domain pattern in
      if pattern = [] then Inl Empty
      else matcher_regex rx
        (''^'' @ concat (map (\<lambda>ch. if ch = ''*'' then ''.*'' else if ch = ''?'' then ''.''
                                  else rx_escape rx ch) (str_chars pattern)) @ ''$''))"

definition clash_wildcard :: "regex_lib \<Rightarrow> string \<Rightarrow> domain_matcher result" where
  "clash_wildcard rx pattern =
     (let pattern = normalize_domain pattern in
      if pattern = [] then Inl Empty
      else case strip_prefix ''+.'' pattern of
        Some domain \<Rightarrow> (if domain = [] then Inl Empty else Inr (matcher_suffix domain))
      | None \<Rightarrow>
        (case strip_prefix ''.'' pattern of
           Some domain \<Rightarrow>
             (if domain = [] then Inl Empty
              else matcher_regex rx (''^.+'' @ [CHR 0x5C] @ ''.'' @ rx_escape rx domain @ ''$''))
         | None \<Rightarrow>
             (if CHR ''*'' \<in> set pattern
              then matcher_regex rx
                (''^'' @ concat (map (\<lambda>ch. if ch = ''*'' then ''[^.]+'' else rx_escape rx ch)
                                    (str_chars pattern)) @ ''$'')
              else Inr (matcher_exact pattern))))"

definition strip_either :: "string \<Rightarrow> string \<Rightarrow> string \<Rightarrow> string option" where
  "strip_either p q s = (case strip_prefix p s of Some t \<Rightarrow> Some t | None \<Rightarrow> strip_prefix q s)"

definition geosite_name :: "string \<Rightarrow> string option" where
  "geosite_name value =
     (let value = trim value in
      case str_get_to 8 value of
        None \<Rightarrow> None
      | Some pfx \<Rightarrow>
          (if eq_ignore_ascii_case pfx ''geosite:'' then Some (route_set_name (drop 8 value)) else None))"

definition from_prefixed :: "regex_lib \<Rightarrow> string \<Rightarrow> domain_matcher option result" where
  "from_prefixed rx value =
     (let value = trim value in
      if value = [] then Inr None
      else case strip_either ''regexp:'' ''regex:'' value of
        Some pattern \<Rightarrow> and_then (matcher_regex rx pattern) (\<lambda>m. Inr (Some m))
      | None \<Rightarrow>
      (case strip_either ''full:'' ''domain_full:'' value of
        Some domain \<Rightarrow> Inr (Some (matcher_exact domain))
      | None \<Rightarrow>
      (case strip_either ''domain:'' ''suffix:'' value of
        Some domain \<Rightarrow> Inr (Some (matcher_suffix domain))
      | None \<Rightarrow>
      (case strip_prefix ''keyword:'' value of
        Some keyword \<Rightarrow> Inr (Some (matcher_keyword keyword))
      | None \<Rightarrow>
      (case strip_prefix ''dotless:'' value of
        Some keyword \<Rightarrow> Inr (Some (matcher_dotless keyword))
      | None \<Rightarrow>
      (case strip_prefix ''*.'' value of
        Some domain \<Rightarrow> Inr (Some (matcher_suffix domain))
      | None \<Rightarrow>
      (if geosite_name value \<noteq> None then Inl Unsupported
       else if (case str_get_to 4 value of Some p \<Rightarrow> eq_ignore_ascii_case p ''ext:'' | None \<Rightarrow> False)
       then Inl Unsupported
       else Inr (Some (matcher_exact value)))))))))"

definition xray_matcher :: "regex_lib \<Rightarrow> string \<Rightarrow> domain_matcher option result" where
  "xray_matcher rx value =
     (let value = trim value in
      if value = [] then Inr None
      else if geosite_name value \<noteq> None then Inl Unsupported
      else and_then (from_prefixed rx value) (\<lambda>m.
        let prefixed =
              (case split_once (CHR '':'') value of
                 None \<Rightarrow> False
               | Some (p, _) \<Rightarrow>
                   to_ascii_lowercase p \<in> {''regexp'', ''regex'', ''full'', ''domain_full'', ''domain'',
                                           ''suffix'', ''keyword'', ''dotless''}) in
        if m \<noteq> None \<and> (prefixed \<or> strip_prefix ''*.'' value \<noteq> None) then Inr m
        else Inr (Some (matcher_keyword value))))"

fun matcher_matches :: "regex_lib \<Rightarrow> domain_matcher \<Rightarrow> string \<Rightarrow> bool" where
  "matcher_matches rx (MExact expected) domain \<longleftrightarrow> domain = expected"
| "matcher_matches rx (MSuffix s) domain \<longleftrightarrow> domain = s \<or> suffix (''.'' @ s) domain"
| "matcher_matches rx (MKeyword keyword) domain \<longleftrightarrow> contains domain keyword"
| "matcher_matches rx (MDotless keyword) domain \<longleftrightarrow> CHR ''.'' \<notin> set domain \<and> contains domain keyword"
| "matcher_matches rx (MRegex pattern) domain \<longleftrightarrow> rx_is_match rx pattern domain"

section \<open>Decisions\<close>

definition from_outbound :: "string \<Rightarrow> route_decision result" where
  "from_outbound value =
     (let value = trim value in
      if value = [] then Inl Empty
      else if eq_ignore_ascii_case value ''direct'' then Inr RouteDirect
      else if matches_ignore_ascii_case value [''reject'', ''block''] then Inr RouteBlock
      else Inr (RouteProxy value))"

definition route_network_parse :: "string \<Rightarrow> route_network result" where
  "route_network_parse value =
     (let v = to_ascii_lowercase (trim value) in
      if v = ''tcp'' then Inr NetTcp
      else if v = ''udp'' then Inr NetUdp
      else if v = ''dns'' then Inr NetDns
      else Inl BadNetwork)"

text \<open>The loops over the named sets of a rule; \<open>matched\<close> is their accumulator.\<close>

fun any_geosite ::
  "regex_lib \<Rightarrow> route_table \<Rightarrow> string \<Rightarrow> bool \<Rightarrow> string list \<Rightarrow> bool result" where
  "any_geosite rx table host matched [] = Inr matched"
| "any_geosite rx table host matched (name # names) =
     and_then (ok_or (rt_geosite_sets table name) Missing) (\<lambda>domains.
     any_geosite rx table host (matched \<or> list_ex (\<lambda>m. matcher_matches rx m host) domains) names)"

fun any_geoip :: "route_table \<Rightarrow> ip_addr \<Rightarrow> bool \<Rightarrow> string list \<Rightarrow> bool result" where
  "any_geoip table ip matched [] = Inr matched"
| "any_geoip table ip matched (name # names) =
     and_then (ok_or (rt_geoip_sets table name) Missing) (\<lambda>cidrs.
     any_geoip table ip (matched \<or> list_ex (\<lambda>c. cidr_contains c ip) cidrs) names)"

definition try_matches ::
  "regex_lib \<Rightarrow> route_table \<Rightarrow> route_rule \<Rightarrow> proxy_target \<Rightarrow> route_network \<Rightarrow> bool result" where
  "try_matches rx table rule target network =
     (if rr_networks rule \<noteq> [] \<and> network \<notin> set (rr_networks rule) then Inr False
      else if rr_ports rule \<noteq> [] \<and>
              \<not> list_ex (\<lambda>range. port_contains range (target_port target)) (rr_ports rule) then Inr False
      else
        and_then
          (if rr_domains rule \<noteq> [] \<or> rr_geosite_sets rule \<noteq> []
           then (case target of
                   Ip _ \<Rightarrow> Inr False
                 | Domain host _ \<Rightarrow>
                     (let host = normalize_domain host in
                      any_geosite rx table host (list_ex (\<lambda>m. matcher_matches rx m host) (rr_domains rule))
                        (rr_geosite_sets rule)))
           else Inr True)
          (\<lambda>matched.
             if \<not> matched then Inr False
             else if rr_ip_is_private rule \<or> rr_ip_cidrs rule \<noteq> [] \<or> rr_geoip_sets rule \<noteq> []
             then (case target of
                     Domain _ _ \<Rightarrow> Inr False
                   | Ip addr \<Rightarrow>
                       (let ip = sa_ip addr in
                        if rr_ip_is_private rule \<and> \<not> is_private_ip ip then Inr False
                        else if rr_ip_cidrs rule \<noteq> [] \<and> \<not> list_ex (\<lambda>c. cidr_contains c ip) (rr_ip_cidrs rule)
                        then Inr False
                        else if rr_geoip_sets rule \<noteq> [] then any_geoip table ip False (rr_geoip_sets rule)
                        else Inr True))
             else Inr True))"

fun decide_rules ::
  "regex_lib \<Rightarrow> route_table \<Rightarrow> proxy_target \<Rightarrow> route_network \<Rightarrow> route_rule list \<Rightarrow>
     route_decision option result" where
  "decide_rules rx table target network [] = Inr None"
| "decide_rules rx table target network (rule # rules) =
     (case try_matches rx table rule target network of
        Inr True \<Rightarrow> Inr (Some (rr_action rule))
      | Inr False \<Rightarrow> decide_rules rx table target network rules
      | Inl e \<Rightarrow> Inl e)"

definition try_decide ::
  "regex_lib \<Rightarrow> route_table \<Rightarrow> proxy_target \<Rightarrow> route_network \<Rightarrow> route_decision result" where
  "try_decide rx table target network =
     and_then (decide_rules rx table target network (rt_rules table)) (\<lambda>d.
     case d of Some action \<Rightarrow> Inr action | None \<Rightarrow> Inr (rt_default table))"

text \<open>\<open>decide\<close> and \<open>matches\<close> panic on an error.\<close>

definition panic_on_error :: "'a result \<Rightarrow> 'a result" where
  "panic_on_error r = (case r of Inl _ \<Rightarrow> Inl Panic | Inr x \<Rightarrow> Inr x)"

definition decide ::
  "regex_lib \<Rightarrow> route_table \<Rightarrow> proxy_target \<Rightarrow> route_network \<Rightarrow> route_decision result" where
  "decide rx table target network = panic_on_error (try_decide rx table target network)"

definition rule_matches ::
  "regex_lib \<Rightarrow> route_rule \<Rightarrow> proxy_target \<Rightarrow> route_network \<Rightarrow> bool result" where
  "rule_matches rx rule target network =
     panic_on_error (try_matches rx route_table_default rule target network)"

section \<open>Rule sets\<close>

definition add_geoip_set :: "string \<Rightarrow> ip_cidr list \<Rightarrow> route_table \<Rightarrow> route_table" where
  "add_geoip_set name cidrs table =
     table\<lparr> rt_geoip_sets := (rt_geoip_sets table)(route_set_name name \<mapsto> cidrs) \<rparr>"

definition add_geosite_set :: "string \<Rightarrow> domain_matcher list \<Rightarrow> route_table \<Rightarrow> route_table" where
  "add_geosite_set name domains table =
     table\<lparr> rt_geosite_sets := (rt_geosite_sets table)(route_set_name name \<mapsto> domains) \<rparr>"

fun geoip_lines :: "string list \<Rightarrow> ip_cidr list result" where
  "geoip_lines [] = Inr []"
| "geoip_lines (line # ls) =
     (case route_set_line line of
        None \<Rightarrow> geoip_lines ls
      | Some l \<Rightarrow> and_then (cidr_parse l) (\<lambda>c. and_then (geoip_lines ls) (\<lambda>cs. Inr (c # cs))))"

definition add_geoip_lines :: "string \<Rightarrow> string list \<Rightarrow> route_table \<Rightarrow> route_table result" where
  "add_geoip_lines name ls table =
     and_then (geoip_lines ls) (\<lambda>cidrs. Inr (add_geoip_set name cidrs table))"

fun geosite_lines :: "regex_lib \<Rightarrow> string list \<Rightarrow> domain_matcher list result" where
  "geosite_lines rx [] = Inr []"
| "geosite_lines rx (line # ls) =
     (case route_set_line line of
        None \<Rightarrow> geosite_lines rx ls
      | Some l \<Rightarrow>
          and_then (from_prefixed rx l) (\<lambda>m.
          and_then (geosite_lines rx ls) (\<lambda>ms.
          Inr (case m of None \<Rightarrow> ms | Some m \<Rightarrow> m # ms))))"

definition add_geosite_lines ::
  "regex_lib \<Rightarrow> string \<Rightarrow> string list \<Rightarrow> route_table \<Rightarrow> route_table result" where
  "add_geosite_lines rx name ls table =
     and_then (geosite_lines rx ls) (\<lambda>domains. Inr (add_geosite_set name domains table))"

definition load_geoip_set_file ::
  "(string \<Rightarrow> string result) \<Rightarrow> string \<Rightarrow> string \<Rightarrow> route_table \<Rightarrow> route_table result" where
  "load_geoip_set_file read_to_string name path table =
     and_then (read_to_string path) (\<lambda>text. add_geoip_lines name (lines text) table)"

definition load_geosite_set_file ::
  "(string \<Rightarrow> string result) \<Rightarrow> regex_lib \<Rightarrow> string \<Rightarrow> string \<Rightarrow> route_table \<Rightarrow> route_table result" where
  "load_geosite_set_file read_to_string rx name path table =
     and_then (read_to_string path) (\<lambda>text. add_geosite_lines rx name (lines text) table)"

definition rule_add_geoip_set :: "string \<Rightarrow> route_rule \<Rightarrow> route_rule" where
  "rule_add_geoip_set name rule = rule\<lparr> rr_geoip_sets := rr_geoip_sets rule @ [route_set_name name] \<rparr>"

definition rule_add_geosite_set :: "string \<Rightarrow> route_rule \<Rightarrow> route_rule" where
  "rule_add_geosite_set name rule = rule\<lparr> rr_geosite_sets := rr_geosite_sets rule @ [route_set_name name] \<rparr>"

section \<open>Address prefixes\<close>

lemma mask_eq_iff:
  fixes x y :: "'a::len word"
  shows "and x (push_bit k (- 1)) = and y (push_bit k (- 1)) \<longleftrightarrow> drop_bit k x = drop_bit k y"
proof
  assume eq: "and x (push_bit k (- 1)) = and y (push_bit k (- 1))"
  show "drop_bit k x = drop_bit k y"
  proof (rule bit_word_eqI)
    fix n assume "n < LENGTH('a)"
    show "bit (drop_bit k x) n = bit (drop_bit k y) n"
    proof (cases "k + n < LENGTH('a)")
      case True
      then show ?thesis
        using arg_cong [OF eq, of "\<lambda>w. bit w (k + n)"]
        by (simp add: bit_simps)
    next
      case False
      then have "\<not> bit x (k + n)" "\<not> bit y (k + n)" using bit_imp_le_length by (metis)+
      then show ?thesis by (simp add: bit_simps)
    qed
  qed
next
  assume eq: "drop_bit k x = drop_bit k y"
  show "and x (push_bit k (- 1)) = and y (push_bit k (- 1))"
  proof (rule bit_word_eqI)
    fix n assume "n < LENGTH('a)"
    then show "bit (and x (push_bit k (- 1))) n = bit (and y (push_bit k (- 1))) n"
      using arg_cong [OF eq, of "\<lambda>w. bit w (n - k)"] by (auto simp: bit_simps)
  qed
qed

lemma drop_bit_unat: "drop_bit k (x :: 'a::len word) = drop_bit k y \<longleftrightarrow> unat x div 2 ^ k = unat y div 2 ^ k"
  by (metis drop_bit_eq_div unat_drop_bit_eq word_unat_eq_iff)

lemma div_eq_block: "(x :: nat) div b = n div b \<longleftrightarrow> n div b * b \<le> x \<and> x < (n div b + 1) * b" if "0 < b"
  using that by (metis Suc_eq_plus1 div_nat_eqI dividend_less_div_times less_eq_div_iff_mult_less_eq
      add.commute div_mult_self1_is_m mult.commute mult_Suc order_refl times_div_less_eq_dividend)

section \<open>What a rule means\<close>

text \<open>The conditions of a rule, each over all the alternatives it lists.\<close>

definition domain_alternatives :: "route_table \<Rightarrow> route_rule \<Rightarrow> domain_matcher set" where
  "domain_alternatives table rule =
     set (rr_domains rule) \<union> (\<Union>name \<in> set (rr_geosite_sets rule). set (the (rt_geosite_sets table name)))"

definition geoip_alternatives :: "route_table \<Rightarrow> route_rule \<Rightarrow> ip_cidr set" where
  "geoip_alternatives table rule =
     (\<Union>name \<in> set (rr_geoip_sets rule). set (the (rt_geoip_sets table name)))"

definition rule_applies ::
  "regex_lib \<Rightarrow> route_table \<Rightarrow> proxy_target \<Rightarrow> route_network \<Rightarrow> route_rule \<Rightarrow> bool" where
  "rule_applies rx table target network rule \<longleftrightarrow>
     (rr_networks rule = [] \<or> network \<in> set (rr_networks rule)) \<and>
     (rr_ports rule = [] \<or> (\<exists>r \<in> set (rr_ports rule). port_contains r (target_port target))) \<and>
     (rr_domains rule = [] \<and> rr_geosite_sets rule = [] \<or>
      (\<exists>host port. target = Domain host port \<and>
         (\<exists>m \<in> domain_alternatives table rule. matcher_matches rx m (normalize_domain host)))) \<and>
     (\<not> rr_ip_is_private rule \<and> rr_ip_cidrs rule = [] \<and> rr_geoip_sets rule = [] \<or>
      (\<exists>addr. target = Ip addr \<and>
         (rr_ip_is_private rule \<longrightarrow> is_private_ip (sa_ip addr)) \<and>
         (rr_ip_cidrs rule = [] \<or> (\<exists>c \<in> set (rr_ip_cidrs rule). cidr_contains c (sa_ip addr))) \<and>
         (rr_geoip_sets rule = [] \<or> (\<exists>c \<in> geoip_alternatives table rule. cidr_contains c (sa_ip addr)))))"

definition sets_present :: "route_table \<Rightarrow> route_rule \<Rightarrow> bool" where
  "sets_present table rule \<longleftrightarrow>
     (\<forall>name \<in> set (rr_geosite_sets rule). rt_geosite_sets table name \<noteq> None) \<and>
     (\<forall>name \<in> set (rr_geoip_sets rule). rt_geoip_sets table name \<noteq> None)"

lemma any_geosite_eq:
  "\<forall>name \<in> set names. rt_geosite_sets table name \<noteq> None \<Longrightarrow>
   any_geosite rx table host matched names =
     Inr (matched \<or> (\<exists>name \<in> set names. \<exists>m \<in> set (the (rt_geosite_sets table name)). matcher_matches rx m host))"
  by (induction names arbitrary: matched) (auto simp: list_ex_iff)

lemma any_geoip_eq:
  "\<forall>name \<in> set names. rt_geoip_sets table name \<noteq> None \<Longrightarrow>
   any_geoip table ip matched names =
     Inr (matched \<or> (\<exists>name \<in> set names. \<exists>c \<in> set (the (rt_geoip_sets table name)). cidr_contains c ip))"
  by (induction names arbitrary: matched) (auto simp: list_ex_iff)

lemma try_matches_eq:
  assumes "sets_present table rule"
  shows "try_matches rx table rule target network = Inr (rule_applies rx table target network rule)"
proof -
  have site: "any_geosite rx table host matched (rr_geosite_sets rule) =
      Inr (matched \<or> (\<exists>name \<in> set (rr_geosite_sets rule).
        \<exists>m \<in> set (the (rt_geosite_sets table name)). matcher_matches rx m host))" for host matched
    using assms by (intro any_geosite_eq) (simp add: sets_present_def)
  have ip: "any_geoip table ip matched (rr_geoip_sets rule) =
      Inr (matched \<or> (\<exists>name \<in> set (rr_geoip_sets rule).
        \<exists>c \<in> set (the (rt_geoip_sets table name)). cidr_contains c ip))" for ip matched
    using assms by (intro any_geoip_eq) (simp add: sets_present_def)
  show ?thesis
    by (cases target)
       (auto simp: try_matches_def rule_applies_def domain_alternatives_def geoip_alternatives_def
         site ip Let_def list_ex_iff)
qed

lemma decide_rules_eq:
  "\<forall>rule \<in> set rules. sets_present table rule \<Longrightarrow>
   decide_rules rx table target network rules =
     Inr (map_option rr_action (find (rule_applies rx table target network) rules))"
  by (induction rules) (simp_all add: try_matches_eq split: bool.split)

lemma split_append_sep: "split x (a @ x # b) = split x a @ split x b"
  by (induction a) (auto simp: split_not_Nil split: list.split)

lemma join_char_Cons: "ps \<noteq> [] \<Longrightarrow> join_char x (p # ps) = p @ x # join_char x ps"
  by (cases ps) simp_all

lemma join_split: "join_char x (split x s) = s"
proof (induction s)
  case (Cons c s)
  obtain p ps where ps: "split x s = p # ps" using split_not_Nil by (cases "split x s") auto
  then show ?case using Cons by (cases ps) (auto simp: join_char_Cons)
qed simp

lemma join_char_append:
  "ps \<noteq> [] \<Longrightarrow> qs \<noteq> [] \<Longrightarrow> join_char x (ps @ qs) = join_char x ps @ x # join_char x qs"
proof (induction ps)
  case (Cons p ps)
  then show ?case by (cases "ps = []") (simp_all add: join_char_Cons)
qed simp

lemma split_suffix_iff:
  "(\<exists>ps. split x s = ps @ split x t) \<longleftrightarrow> s = t \<or> suffix (x # t) s"
proof
  assume "\<exists>ps. split x s = ps @ split x t"
  then obtain ps where ps: "split x s = ps @ split x t" ..
  have "s = join_char x (ps @ split x t)" using join_split [of x s] ps by simp
  then show "s = t \<or> suffix (x # t) s"
    by (cases "ps = []") (auto simp: join_split join_char_append split_not_Nil suffix_def)
next
  assume "s = t \<or> suffix (x # t) s"
  then show "\<exists>ps. split x s = ps @ split x t"
    by (auto simp: suffix_def split_append_sep)
qed

section \<open>Properties\<close>

text \<open>C26: the table decides by the first rule that applies. When the rule sets that the rules
  name exist, a decision never fails: it is the action of the first rule all of whose stated
  conditions hold (network, port, some listed domain pattern or some entry of a listed geosite
  set, and private, listed prefix and geoip conditions on the address), and the default of the
  table when there is none.\<close>

theorem routing_first_match:
  assumes "\<forall>rule \<in> set (rt_rules table). sets_present table rule"
  shows "decide rx table target network =
    Inr (case find (rule_applies rx table target network) (rt_rules table) of
           Some rule \<Rightarrow> rr_action rule | None \<Rightarrow> rt_default table)"
  using decide_rules_eq [OF assms]
  by (simp add: decide_def try_decide_def panic_on_error_def split: option.split)

theorem routing_first_match_witness:
  "decide \<lparr> rx_compiles = \<lambda>_. True, rx_is_match = \<lambda>_ _. False, rx_escape = \<lambda>s. s \<rparr>
     (route_table_default\<lparr> rt_rules :=
        [(route_rule_new RouteBlock)\<lparr> rr_domains := [matcher_suffix ''ads.example''] \<rparr>,
         (route_rule_new (RouteProxy ''p''))\<lparr> rr_ports := [\<lparr> pr_start = 1, pr_end = 1023 \<rparr>] \<rparr>] \<rparr>)
     (Domain ''X.Ads.Example.'' 443) NetTcp = Inr RouteBlock"
  (is "decide ?rx ?table _ _ = _")
proof -
  have "find (rule_applies ?rx ?table (Domain ''X.Ads.Example.'' 443) NetTcp) (rt_rules ?table) =
      Some ((route_rule_new RouteBlock)\<lparr> rr_domains := [matcher_suffix ''ads.example''] \<rparr>)"
  proof -
    have n: "normalize_domain ''X.Ads.Example.'' = ''x.ads.example''"
      "matcher_suffix ''ads.example'' = MSuffix ''ads.example''" by code_simp+
    have "suffix (''.ads.example'') ''x.ads.example''" by (simp add: suffix_def)
    then show ?thesis
      by (simp add: rule_applies_def domain_alternatives_def route_rule_new_def n)
  qed
  then show ?thesis
    using routing_first_match [of ?table ?rx "Domain ''X.Ads.Example.'' 443" NetTcp]
    by (simp add: sets_present_def route_rule_new_def)
qed

text \<open>C27: an address prefix that parses contains exactly the addresses of its block. The prefix
  length is in the range of the address family, so that the mask is computed without an
  out-of-range shift, and an address is in the prefix just when it agrees with the network on
  that many leading bits; addresses of the other family are never in it.\<close>

theorem cidr_contains_block:
  assumes "cidr_parse value = Inr c"
  shows "(\<forall>net. cidr_network c = IpV4 net \<longrightarrow> unat (cidr_prefix c) \<le> 32 \<and>
       (\<forall>ip. cidr_contains c (IpV4 ip) \<longleftrightarrow>
          unat ip div 2 ^ (32 - unat (cidr_prefix c)) = unat net div 2 ^ (32 - unat (cidr_prefix c))) \<and>
       (\<forall>ip. \<not> cidr_contains c (IpV6 ip))) \<and>
    (\<forall>net. cidr_network c = IpV6 net \<longrightarrow> unat (cidr_prefix c) \<le> 128 \<and>
       (\<forall>ip. cidr_contains c (IpV6 ip) \<longleftrightarrow>
          unat ip div 2 ^ (128 - unat (cidr_prefix c)) = unat net div 2 ^ (128 - unat (cidr_prefix c))) \<and>
       (\<forall>ip. \<not> cidr_contains c (IpV4 ip)))"
proof -
  have range: "case cidr_network c of IpV4 _ \<Rightarrow> unat (cidr_prefix c) \<le> 32 | IpV6 _ \<Rightarrow> unat (cidr_prefix c) \<le> 128"
    using assms
    by (auto simp: cidr_parse_def Let_def and_then_Inr_iff word_le_nat_alt split: if_splits ip_addr.splits)
  have v4: "and (x :: u32) (prefix_to_mask_v4 p) = and y (prefix_to_mask_v4 p) \<longleftrightarrow>
      unat x div 2 ^ (32 - unat p) = unat y div 2 ^ (32 - unat p)" for x y p
  proof (cases "p = 0")
    case True
    then show ?thesis using unsigned_less [of x, where 'a = nat] unsigned_less [of y, where 'a = nat]
      by (simp add: prefix_to_mask_v4_def)
  next
    case False
    then show ?thesis by (simp only: prefix_to_mask_v4_def if_False mask_eq_iff drop_bit_unat)
  qed
  have v6: "and (x :: u128) (prefix_to_mask_v6 p) = and y (prefix_to_mask_v6 p) \<longleftrightarrow>
      unat x div 2 ^ (128 - unat p) = unat y div 2 ^ (128 - unat p)" for x y p
  proof (cases "p = 0")
    case True
    then show ?thesis using unsigned_less [of x, where 'a = nat] unsigned_less [of y, where 'a = nat]
      by (simp add: prefix_to_mask_v6_def)
  next
    case False
    then show ?thesis by (simp only: prefix_to_mask_v6_def if_False mask_eq_iff drop_bit_unat)
  qed
  show ?thesis using range by (auto simp: cidr_contains_def Let_def v4 v6)
qed

theorem cidr_contains_block_witness:
  "(\<exists>c. cidr_parse '' 10.1.0.0/16'' = Inr c \<and> cidr_contains c (IpV4 0x0A01FFFF) \<and> \<not> cidr_contains c (IpV4 0x0A020000))"
proof -
  have p: "cidr_parse '' 10.1.0.0/16'' = Inr \<lparr> cidr_network = IpV4 0x0A010000, cidr_prefix = 16 \<rparr>"
    by code_simp
  show ?thesis using cidr_contains_block [OF p] p by simp
qed

text \<open>C28: a domain rule matches a name exactly when the labels of the rule are the last labels
  of the name, after both are trimmed, lower-cased and stripped of trailing dots; it never
  matches inside a label.\<close>

theorem suffix_rule_matches_labels:
  "matcher_matches rx (matcher_suffix domain) (normalize_domain host) \<longleftrightarrow>
     (\<exists>labels. split (CHR ''.'') (normalize_domain host) = labels @ split (CHR ''.'') (normalize_domain domain))"
  by (simp add: matcher_suffix_def split_suffix_iff)

end
