(* ===== verification/Uot.thy ===== *)
theory Uot
  imports Protocol
begin

text \<open>
  UDP over TCP (\<open>src/src/uot.rs\<close>): the request that opens an association, datagrams inside the
  stream, and the datagram format of SOCKS5. A function that drains a \<open>Vec\<close> returns the rest.
\<close>

section \<open>Data\<close>

abbreviation (input) "MAGIC_ADDRESS \<equiv> ''sp.v2.udp-over-tcp.arpa''"
abbreviation (input) "LEGACY_MAGIC_ADDRESS \<equiv> ''sp.udp-over-tcp.arpa''"
abbreviation (input) "AF_IPV4 \<equiv> 0 :: u8"
abbreviation (input) "AF_IPV6 \<equiv> 1 :: u8"
abbreviation (input) "AF_FQDN \<equiv> 2 :: u8"

record uot_request =
  ur_is_connect :: bool
  ur_destination :: proxy_target

section \<open>Addresses\<close>

definition write_socks_address :: "bytes \<Rightarrow> proxy_target \<Rightarrow> bytes result" where
  "write_socks_address bs target = and_then (encode_target target) (\<lambda>t. Inr (bs @ t))"

definition read_socks_address :: "bytes \<Rightarrow> (proxy_target \<times> bytes) result" where
  "read_socks_address packet = decode_target packet"

fun write_uot_address :: "bytes \<Rightarrow> proxy_target \<Rightarrow> bytes result" where
  "write_uot_address bs (Ip addr) =
     (case sa_ip addr of
        IpV4 ip \<Rightarrow> Inr (bs @ [AF_IPV4] @ v4_octets ip @ to_be_bytes 2 (sa_port addr))
      | IpV6 ip \<Rightarrow> Inr (bs @ [AF_IPV6] @ v6_octets ip @ to_be_bytes 2 (sa_port addr)))"
| "write_uot_address bs (Domain host port) =
     (if \<not> length host \<le> 255 then Inl TooLong
      else Inr (bs @ [AF_FQDN] @ [of_nat (length host)] @ as_bytes host @ to_be_bytes 2 port))"

definition read_uot_address :: "bytes \<Rightarrow> (proxy_target \<times> bytes) result" where
  "read_uot_address packet =
     (if packet = [] then Inl Empty
      else if packet ! 0 = AF_IPV4 then
        (if \<not> length packet \<ge> 7 then Inl TooShort
         else Inr (Ip (SocketV4 (v4_of (packet ! 1) (packet ! 2) (packet ! 3) (packet ! 4))
                        (from_be_bytes [packet ! 5, packet ! 6])), drop 7 packet))
      else if packet ! 0 = AF_IPV6 then
        (if \<not> length packet \<ge> 19 then Inl TooShort
         else Inr (Ip (SocketV6 (from_be_bytes (slice 1 17 packet))
                        (from_be_bytes [packet ! 17, packet ! 18]) 0 0), drop 19 packet))
      else if packet ! 0 = AF_FQDN then
        (if \<not> length packet \<ge> 2 then Inl TooShort
         else let len = unat (packet ! 1); port_offset = 2 + len in
           if \<not> length packet \<ge> port_offset + 2 then Inl TooShort
           else and_then (from_utf8 (slice 2 port_offset packet)) (\<lambda>host.
             Inr (Domain host (from_be_bytes [packet ! port_offset, packet ! (port_offset + 1)]),
                  drop (port_offset + 2) packet)))
      else Inl BadAddressType)"

section \<open>Requests\<close>

fun is_magic_target :: "proxy_target \<Rightarrow> bool" where
  "is_magic_target (Domain host _) \<longleftrightarrow>
     eq_ignore_ascii_case host MAGIC_ADDRESS \<or> eq_ignore_ascii_case host LEGACY_MAGIC_ADDRESS"
| "is_magic_target (Ip _) \<longleftrightarrow> False"

fun is_legacy_magic_target :: "proxy_target \<Rightarrow> bool" where
  "is_legacy_magic_target (Domain host _) \<longleftrightarrow> eq_ignore_ascii_case host LEGACY_MAGIC_ADDRESS"
| "is_legacy_magic_target (Ip _) \<longleftrightarrow> False"

definition magic_target :: proxy_target where
  "magic_target = Domain MAGIC_ADDRESS 0"

definition legacy_associate_request :: uot_request where
  "legacy_associate_request = \<lparr> ur_is_connect = False, ur_destination = Ip (SocketV4 0 0) \<rparr>"

definition encode_v2_associate_request :: "bytes result" where
  "encode_v2_associate_request = write_socks_address [0] (Ip (SocketV4 0 0))"

definition decode_v2_request :: "bytes \<Rightarrow> uot_request result" where
  "decode_v2_request payload =
     (if payload = [] then Inl Empty
      else and_then (read_socks_address (drop 1 payload)) (\<lambda>(destination, tail).
        if tail \<noteq> [] then Inl Trailing
        else Inr \<lparr> ur_is_connect = payload ! 0 \<noteq> 0, ur_destination = destination \<rparr>))"

definition v2_request_len :: "bytes \<Rightarrow> nat option result" where
  "v2_request_len packet =
     (if length packet < 2 then Inr None
      else if packet ! 1 = 0x01 then Inr (Some (1 + 7))
      else if packet ! 1 = 0x04 then Inr (Some (1 + 19))
      else if packet ! 1 = 0x03 then
        (if length packet < 1 + 2 then Inr None
         else Inr (Some (1 + 2 + unat (packet ! 2) + 2)))
      else Inl BadAddressType)"

definition decode_request_for_target :: "proxy_target \<Rightarrow> bytes \<Rightarrow> (uot_request \<times> bytes) result" where
  "decode_request_for_target target payload =
     (if is_legacy_magic_target target then Inr (legacy_associate_request, payload)
      else and_then (v2_request_len payload) (\<lambda>len.
           and_then (ok_or len TooShort) (\<lambda>len.
           if \<not> length payload \<ge> len then Inl TooShort
           else and_then (decode_v2_request (take len payload)) (\<lambda>r. Inr (r, drop len payload)))))"

definition v2_request_complete :: "bytes \<Rightarrow> bool result" where
  "v2_request_complete payload =
     and_then (v2_request_len payload) (\<lambda>len.
     Inr (case len of None \<Rightarrow> False | Some len \<Rightarrow> length payload \<ge> len))"

definition take_v2_request :: "bytes \<Rightarrow> (uot_request \<times> bytes) option result" where
  "take_v2_request pending =
     and_then (v2_request_len pending) (\<lambda>len.
     case len of
       None \<Rightarrow> Inr None
     | Some len \<Rightarrow>
         (if length pending < len then Inr None
          else and_then (decode_v2_request (take len pending)) (\<lambda>r. Inr (Some (r, drop len pending)))))"

section \<open>Datagrams in the stream\<close>

definition encode_associate_packet :: "proxy_target \<Rightarrow> bytes \<Rightarrow> bytes result" where
  "encode_associate_packet destination payload =
     (if \<not> length payload \<le> 65535 then Inl TooLong
      else and_then (write_uot_address [] destination) (\<lambda>bs.
        Inr (bs @ len_u16 (length payload) @ payload)))"

definition decode_associate_packet :: "bytes \<Rightarrow> (proxy_target \<times> bytes) result" where
  "decode_associate_packet packet =
     and_then (read_uot_address packet) (\<lambda>(destination, tail).
     if \<not> length tail \<ge> 2 then Inl TooShort
     else let len = unat (from_be_bytes [tail ! 0, tail ! 1] :: u16) in
       if \<not> length tail \<ge> 2 + len then Inl TooShort
       else if length tail \<noteq> 2 + len then Inl Trailing
       else Inr (destination, drop 2 tail))"

definition encode_connect_packet :: "bytes \<Rightarrow> bytes result" where
  "encode_connect_packet payload =
     (if \<not> length payload \<le> 65535 then Inl TooLong else Inr (len_u16 (length payload) @ payload))"

definition decode_connect_packet :: "bytes \<Rightarrow> bytes result" where
  "decode_connect_packet packet =
     (if \<not> length packet \<ge> 2 then Inl TooShort
      else let len = unat (from_be_bytes [packet ! 0, packet ! 1] :: u16) in
        if \<not> length packet \<ge> 2 + len then Inl TooShort
        else if length packet \<noteq> 2 + len then Inl Trailing
        else Inr (drop 2 packet))"

definition connect_packet_len :: "bytes \<Rightarrow> nat option result" where
  "connect_packet_len packet =
     (if length packet < 2 then Inr None
      else Inr (Some (2 + unat (from_be_bytes [packet ! 0, packet ! 1] :: u16))))"

text \<open>The offset of the length field, and from it the length of the packet.\<close>

definition payload_len_offset :: "bytes \<Rightarrow> nat option result" where
  "payload_len_offset packet =
     (if packet ! 0 = AF_IPV4 then (if length packet < 7 then Inr None else Inr (Some 7))
      else if packet ! 0 = AF_IPV6 then (if length packet < 19 then Inr None else Inr (Some 19))
      else if packet ! 0 = AF_FQDN then
        (if length packet < 2 then Inr None
         else let address_len = unat (packet ! 1) in
           if length packet < 2 + address_len + 2 then Inr None else Inr (Some (2 + address_len + 2)))
      else Inl BadAddressType)"

definition associate_packet_len :: "bytes \<Rightarrow> nat option result" where
  "associate_packet_len packet =
     (if packet = [] then Inr None
      else and_then (payload_len_offset packet) (\<lambda>off.
        case off of
          None \<Rightarrow> Inr None
        | Some off \<Rightarrow>
            (if length packet < off + 2 then Inr None
             else Inr (Some (off + 2 + unat (from_be_bytes [packet ! off, packet ! (off + 1)] :: u16))))))"

definition take_stream_packet ::
  "uot_request \<Rightarrow> bytes \<Rightarrow> ((proxy_target \<times> bytes \<times> bool) \<times> bytes) option result" where
  "take_stream_packet request pending =
     (if ur_is_connect request
      then and_then (connect_packet_len pending) (\<lambda>len.
        case len of
          None \<Rightarrow> Inr None
        | Some len \<Rightarrow>
            (if length pending < len then Inr None
             else and_then (decode_connect_packet (take len pending)) (\<lambda>payload.
               Inr (Some ((ur_destination request, payload, True), drop len pending)))))
      else and_then (associate_packet_len pending) (\<lambda>len.
        case len of
          None \<Rightarrow> Inr None
        | Some len \<Rightarrow>
            (if length pending < len then Inr None
             else and_then (decode_associate_packet (take len pending)) (\<lambda>(destination, payload).
               Inr (Some ((destination, payload, False), drop len pending))))))"

section \<open>SOCKS5 datagrams\<close>

definition parse_socks_udp_packet :: "bytes \<Rightarrow> (proxy_target \<times> bytes) result" where
  "parse_socks_udp_packet packet =
     (if \<not> length packet \<ge> 4 then Inl TooShort
      else if \<not> (packet ! 0 = 0 \<and> packet ! 1 = 0) then Inl BadReserved
      else if packet ! 2 \<noteq> 0 then Inl Unsupported
      else read_socks_address (drop 3 packet))"

definition encode_socks_udp_packet :: "proxy_target \<Rightarrow> bytes \<Rightarrow> bytes result" where
  "encode_socks_udp_packet source payload =
     and_then (write_socks_address [0, 0, 0] source) (\<lambda>bs. Inr (bs @ payload))"

section \<open>Lemmas: addresses\<close>

text \<open>Unlike \<^const>\<open>encode_target\<close>, this encoding keeps an IPv4-mapped IPv6 address.\<close>

fun wire_uot :: "proxy_target \<Rightarrow> proxy_target" where
  "wire_uot (Ip addr) = Ip (socket_addr_new (sa_ip addr) (sa_port addr))"
| "wire_uot (Domain host port) = Domain host port"

text \<open>The three encodings of an address, and what the two readers make of them.\<close>

lemma uot_v4:
  fixes ip port rest defines "bs \<equiv> [AF_IPV4] @ v4_octets ip @ to_be_bytes 2 port @ rest"
  shows "read_uot_address bs = Inr (Ip (SocketV4 ip port), rest)" "payload_len_offset bs = Inr (Some 7)"
proof -
  obtain a b c d where o: "v4_octets ip = [a, b, c, d]" by (rule v4_octets_cases)
  obtain e f where p: "to_be_bytes 2 port = [e, f]" "from_be_bytes [e, f] = port"
    by (rule be_u16_cases)
  show "read_uot_address bs = Inr (Ip (SocketV4 ip port), rest)" "payload_len_offset bs = Inr (Some 7)"
    by (simp_all add: bs_def read_uot_address_def payload_len_offset_def o p v4_of_octets [OF o])
qed

lemma uot_v6:
  fixes ip port rest defines "bs \<equiv> [AF_IPV6] @ v6_octets ip @ to_be_bytes 2 port @ rest"
  shows "read_uot_address bs = Inr (Ip (SocketV6 ip port 0 0), rest)" "payload_len_offset bs = Inr (Some 19)"
proof -
  obtain e f where p: "to_be_bytes 2 port = [e, f]" "from_be_bytes [e, f] = port"
    by (rule be_u16_cases)
  have "slice 1 17 (1 # v6_octets ip @ e # f # rest) = v6_octets ip" by (simp add: slice_def)
  then show "read_uot_address bs = Inr (Ip (SocketV6 ip port 0 0), rest)" "payload_len_offset bs = Inr (Some 19)"
    by (simp_all add: bs_def read_uot_address_def payload_len_offset_def p nth_append)
qed

lemma uot_domain:
  fixes host port rest defines "bs \<equiv> [AF_FQDN] @ [of_nat (length host)] @ as_bytes host @ to_be_bytes 2 port @ rest"
  assumes "length host \<le> 255" "valid_str host"
  shows "read_uot_address bs = Inr (Domain host port, rest)"
    "payload_len_offset bs = Inr (Some (2 + length host + 2))"
proof -
  obtain e f where p: "to_be_bytes 2 port = [e, f]" "from_be_bytes [e, f] = port"
    by (rule be_u16_cases)
  have "slice 2 (2 + length host) (2 # of_nat (length host) # as_bytes host @ e # f # rest) = as_bytes host"
    by (simp add: slice_def)
  then show "read_uot_address bs = Inr (Domain host port, rest)"
    "payload_len_offset bs = Inr (Some (2 + length host + 2))"
    using assms(2,3) by (simp_all add: bs_def read_uot_address_def payload_len_offset_def p nth_append Let_def)
qed

lemma uot_address:
  assumes "target_ok t" "write_uot_address [] t = Inr bs"
  shows "read_uot_address (bs @ rest) = Inr (wire_uot t, rest)"
    "payload_len_offset (bs @ rest) = Inr (Some (length bs))" "bs \<noteq> []"
proof -
  have "read_uot_address (bs @ rest) = Inr (wire_uot t, rest) \<and>
    payload_len_offset (bs @ rest) = Inr (Some (length bs)) \<and> bs \<noteq> []"
  proof (cases t)
    case (Ip addr)
    then show ?thesis
      using assms(2) uot_v4 [of _ "sa_port addr" rest] uot_v6 [of _ "sa_port addr" rest]
      by (auto split: ip_addr.splits)
  next
    case (Domain host port)
    then show ?thesis
      using assms uot_domain [of host port rest] by (auto split: if_splits)
  qed
  then show "read_uot_address (bs @ rest) = Inr (wire_uot t, rest)"
    "payload_len_offset (bs @ rest) = Inr (Some (length bs))" "bs \<noteq> []" by satx+
qed

interpretation uot_targets: wire_codec "write_uot_address []" read_uot_address target_ok wire_uot
  by unfold_locales (rule uot_address(1))

section \<open>Lemmas: packets\<close>

lemma be_u16_len: "to_be_bytes 2 (of_nat n :: u16) = [a, b] \<Longrightarrow> n \<le> 65535 \<Longrightarrow> unat (from_be_bytes [a, b] :: u16) = n"
  by (metis from_to_be_bytes_widths(1) unat_of_nat_u16)

lemma associate_packet:
  assumes "target_ok d" "encode_associate_packet d payload = Inr bs"
  shows "associate_packet_len (bs @ rest) = Inr (Some (length bs))"
    "decode_associate_packet bs = Inr (wire_uot d, payload)"
proof -
  obtain as where as: "write_uot_address [] d = Inr as" and len: "length payload \<le> 65535"
    and bs: "bs = as @ len_u16 (length payload) @ payload"
    using assms(2) by (auto simp: encode_associate_packet_def and_then_Inr_iff split: if_splits)
  obtain a b where ab: "len_u16 (length payload) = [a, b]" by (rule be_u16_cases)
  have n: "unat (from_be_bytes [a, b] :: u16) = length payload" by (rule be_u16_len [OF ab len])
  note A = uot_address [OF assms(1) as]
  show "associate_packet_len (bs @ rest) = Inr (Some (length bs))"
    using A(2) [of "len_u16 (length payload) @ payload @ rest"] A(3) n
    by (simp add: bs ab associate_packet_len_def nth_append)
  show "decode_associate_packet bs = Inr (wire_uot d, payload)"
    using A(1) [of "len_u16 (length payload) @ payload"] n
    by (simp add: bs ab decode_associate_packet_def)
qed

lemma connect_packet:
  assumes "encode_connect_packet payload = Inr bs"
  shows "connect_packet_len (bs @ rest) = Inr (Some (length bs))" "decode_connect_packet bs = Inr payload"
proof -
  have len: "length payload \<le> 65535" and bs: "bs = len_u16 (length payload) @ payload"
    using assms by (auto simp: encode_connect_packet_def split: if_splits)
  obtain a b where ab: "len_u16 (length payload) = [a, b]" by (rule be_u16_cases)
  have n: "unat (from_be_bytes [a, b] :: u16) = length payload" by (rule be_u16_len [OF ab len])
  show "connect_packet_len (bs @ rest) = Inr (Some (length bs))" "decode_connect_packet bs = Inr payload"
    using n by (simp_all add: bs ab connect_packet_len_def decode_connect_packet_def)
qed

text \<open>The length functions look only at bytes that have arrived.\<close>

lemma payload_len_offset_take:
  "0 < k \<Longrightarrow> bs \<noteq> [] \<Longrightarrow> payload_len_offset bs = Inr (Some off) \<Longrightarrow>
     payload_len_offset (take k bs) = Inr None \<or> payload_len_offset (take k bs) = Inr (Some off) \<and> off \<le> k"
  by (auto simp: payload_len_offset_def Let_def min_def split: if_splits)

lemma associate_packet_len_take:
  assumes "associate_packet_len bs = Inr (Some n)"
  shows "associate_packet_len (take k bs) = Inr None \<or> associate_packet_len (take k bs) = Inr (Some n)"
proof (cases "k = 0 \<or> bs = []")
  case True
  then show ?thesis by (auto simp: associate_packet_len_def)
next
  case False
  obtain off where off: "payload_len_offset bs = Inr (Some off)"
    and n: "n = off + 2 + unat (from_be_bytes [bs ! off, bs ! (off + 1)] :: u16)"
    using assms False
    by (auto simp: associate_packet_len_def and_then_Inr_iff split: option.splits if_splits)
  show ?thesis
    using payload_len_offset_take [OF _ _ off, of k] False n
    by (cases "min (length bs) k < off + 2") (auto simp: associate_packet_len_def)
qed

lemma connect_packet_len_take:
  "connect_packet_len bs = Inr (Some n) \<Longrightarrow>
     connect_packet_len (take k bs) = Inr None \<or> connect_packet_len (take k bs) = Inr (Some n)"
  by (auto simp: connect_packet_len_def split: if_splits)

lemma v2_request_len_take:
  "v2_request_len bs = Inr (Some n) \<Longrightarrow>
     v2_request_len (take k bs) = Inr None \<or> v2_request_len (take k bs) = Inr (Some n)"
  by (auto simp: v2_request_len_def split: if_splits)

lemma strict_prefix_take:
  assumes "strict_prefix p bs"
  obtains k where "p = take k bs" "k < length bs"
  using assms prefix_length_less by (metis prefix_order.less_imp_le prefix_def append_eq_conv_conj)

text \<open>Datagrams to any destination, on a stream whose request is not \<open>connect\<close>.\<close>

interpretation associate_stream: incremental_codec
  "\<lambda>(d, payload). encode_associate_packet d payload"
  "take_stream_packet \<lparr> ur_is_connect = False, ur_destination = dest \<rparr>"
  "\<lambda>(d, payload). target_ok d" "\<lambda>(d, payload). (wire_uot d, payload, False)"
  for dest
proof
  fix x bs rest
  assume "case x of (d, payload) \<Rightarrow> target_ok d"
    and "(case x of (d, payload) \<Rightarrow> encode_associate_packet d payload) = Inr bs"
  then obtain d payload where x: "x = (d, payload)" "target_ok d" "encode_associate_packet d payload = Inr bs"
    by (cases x) auto
  note P = associate_packet [OF x(2,3)]
  show "take_stream_packet \<lparr> ur_is_connect = False, ur_destination = dest \<rparr> (bs @ rest) =
      Inr (Some (case x of (d, payload) \<Rightarrow> (wire_uot d, payload, False), rest))"
    using P by (simp add: take_stream_packet_def x)
  fix p assume "strict_prefix p bs"
  then obtain k where "p = take k bs" "k < length bs" by (rule strict_prefix_take)
  then show "take_stream_packet \<lparr> ur_is_connect = False, ur_destination = dest \<rparr> p = Inr None"
    using associate_packet_len_take [OF P(1) [of "[]", simplified], of k] by (auto simp: take_stream_packet_def)
qed (simp add: take_stream_packet_def associate_packet_len_def)

text \<open>Datagrams on a stream that is connected to one destination.\<close>

interpretation connect_stream: incremental_codec
  encode_connect_packet "take_stream_packet \<lparr> ur_is_connect = True, ur_destination = dest \<rparr>"
  "\<lambda>_. True" "\<lambda>payload. (dest, payload, True)"
  for dest
proof
  fix payload bs rest assume e: "encode_connect_packet payload = Inr bs"
  note P = connect_packet [OF e]
  show "take_stream_packet \<lparr> ur_is_connect = True, ur_destination = dest \<rparr> (bs @ rest) =
      Inr (Some ((dest, payload, True), rest))"
    using P by (simp add: take_stream_packet_def)
  fix p assume "strict_prefix p bs"
  then obtain k where "p = take k bs" "k < length bs" by (rule strict_prefix_take)
  then show "take_stream_packet \<lparr> ur_is_connect = True, ur_destination = dest \<rparr> p = Inr None"
    using connect_packet_len_take [OF P(1) [of "[]", simplified], of k] by (auto simp: take_stream_packet_def)
qed (simp add: take_stream_packet_def connect_packet_len_def)

section \<open>Properties\<close>

text \<open>C30: the request of an association is recognised as soon as it is complete and not before.
  When the whole-buffer decoder accepts a request followed by a tail, the incremental one takes
  the same request and leaves the same tail, and on every shorter piece of the request it asks
  for more bytes without an error.\<close>

theorem uot_request_incremental:
  assumes "\<not> is_legacy_magic_target target" "decode_request_for_target target payload = Inr (request, tail)"
  shows "take_v2_request payload = Inr (Some (request, tail)) \<and>
    v2_request_complete payload = Inr True \<and>
    (\<forall>k < length payload - length tail.
       take_v2_request (take k payload) = Inr None \<and> v2_request_complete (take k payload) = Inr False)"
proof -
  obtain n where n: "v2_request_len payload = Inr (Some n)" "n \<le> length payload"
    "decode_v2_request (take n payload) = Inr request" "tail = drop n payload"
    using assms by (auto simp: decode_request_for_target_def and_then_Inr_iff ok_or_Inr_iff split: if_splits)
  have "take_v2_request (take k payload) = Inr None \<and> v2_request_complete (take k payload) = Inr False"
    if "k < n" for k
    using v2_request_len_take [OF n(1), of k] that n(2)
    by (auto simp: take_v2_request_def v2_request_complete_def)
  then show ?thesis using n by (simp add: take_v2_request_def v2_request_complete_def)
qed

theorem uot_request_incremental_witness:
  "take_v2_request [0, 1, 10, 0, 0] = Inr None \<and>
   take_v2_request [0, 1, 10, 0, 0, 1, 0, 53, 99] =
     Inr (Some (\<lparr> ur_is_connect = False, ur_destination = Ip (SocketV4 0x0A000001 53) \<rparr>, [99]))"
proof -
  have m: "\<not> is_legacy_magic_target magic_target" by code_simp
  have d: "decode_request_for_target magic_target [0, 1, 10, 0, 0, 1, 0, 53, 99] =
      Inr (\<lparr> ur_is_connect = False, ur_destination = Ip (SocketV4 0x0A000001 53) \<rparr>, [99])"
    by code_simp
  have "take 5 [0, 1, 10, 0, 0, 1, 0, 53, 99 :: u8] = [0, 1, 10, 0, 0]" by simp
  moreover have "take_v2_request (take 5 [0, 1, 10, 0, 0, 1, 0, 53, 99]) = Inr None"
    using uot_request_incremental [OF m d, THEN conjunct2, THEN conjunct2, rule_format, of 5] by simp
  ultimately show ?thesis using uot_request_incremental [OF m d] by simp
qed

end
