(* ===== verification/Dialog.thy ===== *)
theory Dialog
  imports Prelude
begin

text \<open>
  Conversations over a stream. The connection of one side is the bytes that are still to be
  read and the bytes written so far; an \<open>async fn\<close> that reads and writes is a function on it
  that returns its result together with the new connection, also when it fails.
\<close>

record conn =
  conn_in :: bytes
  conn_out :: bytes

type_synonym 'a dialog = "conn \<Rightarrow> 'a result \<times> conn"

definition start :: "bytes \<Rightarrow> conn" where
  "start bs = \<lparr> conn_in = bs, conn_out = [] \<rparr>"

definition finish :: "'a \<Rightarrow> 'a dialog" where
  "finish x c = (Inr x, c)"

definition fail :: "rust_error \<Rightarrow> 'a dialog" where
  "fail e c = (Inl e, c)"

definition dlg_bind :: "'a dialog \<Rightarrow> ('a \<Rightarrow> 'b dialog) \<Rightarrow> 'b dialog" where
  "dlg_bind m f c = (case m c of (Inl e, c') \<Rightarrow> (Inl e, c') | (Inr x, c') \<Rightarrow> f x c')"

text \<open>\<open>ensure!\<close>, \<open>?\<close> on a plain result, and \<open>let _ = ...\<close>, which drops an error.\<close>

definition dlg_ensure :: "bool \<Rightarrow> rust_error \<Rightarrow> unit dialog" where
  "dlg_ensure b e = (if b then finish () else fail e)"

definition dlg_lift :: "'a result \<Rightarrow> 'a dialog" where
  "dlg_lift r c = (r, c)"

definition recv :: "nat \<Rightarrow> bytes dialog" where
  "recv n c =
     (case read_exact n (conn_in c) of
        Inl e \<Rightarrow> (Inl e, c\<lparr> conn_in := [] \<rparr>)
      | Inr (bs, rest) \<Rightarrow> (Inr bs, c\<lparr> conn_in := rest \<rparr>))"

definition send :: "bytes \<Rightarrow> unit dialog" where
  "send bs c = (Inr (), c\<lparr> conn_out := conn_out c @ bs \<rparr>)"

named_theorems dialog

lemma dlg_bind_simps [dialog]:
  "m c = (Inr x, c') \<Longrightarrow> dlg_bind m f c = f x c'"
  "m c = (Inl e, c') \<Longrightarrow> dlg_bind m f c = (Inl e, c')"
  by (simp_all add: dlg_bind_def)

lemma dlg_bind_finish [simp]: "dlg_bind (finish x) f = f x"
  by (simp add: dlg_bind_def finish_def fun_eq_iff)

lemma dlg_bind_fail [simp]: "dlg_bind (fail e) f = fail e"
  by (simp add: dlg_bind_def fail_def fun_eq_iff)

lemma dlg_bind_assoc: "dlg_bind (dlg_bind m f) g = dlg_bind m (\<lambda>x. dlg_bind (f x) g)"
  by (auto simp: dlg_bind_def fun_eq_iff split: prod.splits sum.splits)

lemma dlg_ensure_simps [simp]: "dlg_ensure True e = finish ()" "dlg_ensure False e = fail e"
  by (simp_all add: dlg_ensure_def)

lemma dlg_bind_lift [simp]: "dlg_bind (dlg_lift (Inr x)) f = f x" "dlg_bind (dlg_lift (Inl e)) f = fail e"
  by (simp_all add: dlg_bind_def dlg_lift_def fail_def fun_eq_iff)

lemma recv_send_run [dialog]:
  "length bs = n \<Longrightarrow> recv n \<lparr> conn_in = bs @ rest, conn_out = ys \<rparr> = (Inr bs, \<lparr> conn_in = rest, conn_out = ys \<rparr>)"
  "send zs \<lparr> conn_in = xs, conn_out = ys \<rparr> = (Inr (), \<lparr> conn_in = xs, conn_out = ys @ zs \<rparr>)"
  by (simp_all add: recv_def send_def)

lemma bind_recv [dialog]:
  "length bs = n \<Longrightarrow> dlg_bind (recv n) f \<lparr> conn_in = bs @ rest, conn_out = ys \<rparr> =
     f bs \<lparr> conn_in = rest, conn_out = ys \<rparr>"
  by (simp add: dlg_bind_def recv_send_run)

lemma bind_recv_nil: "dlg_bind (recv 0) f c = f [] c"
  by (simp add: dlg_bind_def recv_def)

lemma bind_recv_Suc:
  "dlg_bind (recv (Suc n)) f \<lparr> conn_in = x # xs, conn_out = ys \<rparr> =
     dlg_bind (recv n) (\<lambda>bs. f (x # bs)) \<lparr> conn_in = xs, conn_out = ys \<rparr>"
  by (auto simp: dlg_bind_def recv_def read_exact_def)

lemma bind_recv_Cons [dialog]:
  "dlg_bind (recv (Suc 0)) f \<lparr> conn_in = a # rest, conn_out = ys \<rparr> = f [a] \<lparr> conn_in = rest, conn_out = ys \<rparr>"
  "dlg_bind (recv 2) f \<lparr> conn_in = a # b # rest, conn_out = ys \<rparr> = f [a, b] \<lparr> conn_in = rest, conn_out = ys \<rparr>"
  "dlg_bind (recv 4) f \<lparr> conn_in = a # b # c # d # rest, conn_out = ys \<rparr> =
     f [a, b, c, d] \<lparr> conn_in = rest, conn_out = ys \<rparr>"
  using bind_recv [of "[a]" 1] bind_recv [of "[a, b]" 2] bind_recv [of "[a, b, c, d]" 4] by simp_all

lemma bind_send [dialog]:
  "dlg_bind (send zs) f \<lparr> conn_in = xs, conn_out = ys \<rparr> = f () \<lparr> conn_in = xs, conn_out = ys @ zs \<rparr>"
  by (simp add: dlg_bind_def send_def)

lemma finish_fail_run [dialog]: "finish x c = (Inr x, c)" "fail e c = (Inl e, c)"
  by (simp_all add: finish_def fail_def)

end
