(* ===== verification/Socks.thy ===== *)
theory Socks
  imports Uot Dialog
begin

text \<open>
  SOCKS5, as a server towards local applications and as a client of an upstream proxy
  (\<open>src/src/socks.rs\<close>).

  \<^item> The conversation on a connected stream is a \<open>dialog\<close>; connecting a socket, binding one and
    the relay after the handshake are outside.
  \<^item> The loop of the UDP association is a step function on the events that its \<open>select!\<close>
    delivers, in any order.
\<close>

section \<open>Data\<close>

datatype socks_request = SocksConnect proxy_target | SocksUdpAssociate

section \<open>Reading a request\<close>

definition read_port :: "u16 dialog" where
  "read_port = dlg_bind (recv 2) (\<lambda>port. finish (from_be_bytes port))"

definition read_request_target :: "u8 \<Rightarrow> proxy_target dialog" where
  "read_request_target atyp =
     (if atyp = 0x01 then
        dlg_bind (recv 4) (\<lambda>ip. dlg_bind read_port (\<lambda>port.
        finish (Ip (SocketV4 (from_be_bytes ip) port))))
      else if atyp = 0x03 then
        dlg_bind (recv 1) (\<lambda>len. dlg_bind (recv (unat (len ! 0))) (\<lambda>host. dlg_bind read_port (\<lambda>port.
        dlg_bind (dlg_lift (from_utf8 host)) (\<lambda>host. finish (Domain host port)))))
      else if atyp = 0x04 then
        dlg_bind (recv 16) (\<lambda>ip. dlg_bind read_port (\<lambda>port.
        finish (Ip (SocketV6 (from_be_bytes ip) port 0 0))))
      else fail BadAddressType)"

definition read_request :: "socks_request dialog" where
  "read_request =
     dlg_bind (recv 2) (\<lambda>header.
     dlg_bind (dlg_ensure (header ! 0 = 0x05) BadVersion) (\<lambda>_.
     dlg_bind (recv (unat (header ! 1))) (\<lambda>methods.
     dlg_bind (send [0x05, if 0x00 \<in> set methods then 0x00 else 0xff]) (\<lambda>_.
     dlg_bind (dlg_ensure (0x00 \<in> set methods) Unsupported) (\<lambda>_.
     dlg_bind (recv 4) (\<lambda>request.
     dlg_bind (dlg_ensure (request ! 0 = 0x05) BadVersion) (\<lambda>_.
     dlg_bind (dlg_ensure (request ! 2 = 0x00) BadReserved) (\<lambda>_.
     dlg_bind (read_request_target (request ! 3)) (\<lambda>target.
     if request ! 1 = 0x01 then finish (SocksConnect target)
     else if request ! 1 = 0x03 then finish SocksUdpAssociate
     else fail BadCommand)))))))))"

section \<open>Replies\<close>

fun reply_with_bind :: "u8 \<Rightarrow> socket_addr \<Rightarrow> bytes" where
  "reply_with_bind code (SocketV4 ip port) = [0x05, code, 0x00] @ [0x01] @ v4_octets ip @ to_be_bytes 2 port"
| "reply_with_bind code (SocketV6 ip port flow scope) =
     [0x05, code, 0x00] @ [0x04] @ v6_octets ip @ to_be_bytes 2 port"

definition write_reply_with_bind :: "u8 \<Rightarrow> socket_addr \<Rightarrow> unit dialog" where
  "write_reply_with_bind code bind = send (reply_with_bind code bind)"

definition write_reply :: "u8 \<Rightarrow> unit dialog" where
  "write_reply code = write_reply_with_bind code (SocketV4 0 0)"

section \<open>The client side\<close>

fun socks_target_port :: "proxy_target \<Rightarrow> u16" where
  "socks_target_port (Ip addr) = sa_port addr"
| "socks_target_port (Domain _ port) = port"

fun proxy_request_address :: "proxy_target \<Rightarrow> bytes result" where
  "proxy_request_address (Ip addr) =
     (case sa_ip addr of IpV4 ip \<Rightarrow> Inr ([0x01] @ v4_octets ip) | IpV6 ip \<Rightarrow> Inr ([0x04] @ v6_octets ip))"
| "proxy_request_address (Domain host _) =
     (if \<not> length host \<le> 255 then Inl TooLong
      else Inr ([0x03] @ [of_nat (length host)] @ as_bytes host))"

definition write_proxy_request :: "u8 \<Rightarrow> proxy_target \<Rightarrow> unit dialog" where
  "write_proxy_request command target =
     dlg_bind (dlg_lift (proxy_request_address target)) (\<lambda>address.
     send ([0x05, command, 0x00] @ address @ to_be_bytes 2 (socks_target_port target)))"

definition read_proxy_reply :: "socket_addr dialog" where
  "read_proxy_reply =
     dlg_bind (recv 4) (\<lambda>header.
     dlg_bind (dlg_ensure (header ! 0 = 0x05) BadVersion) (\<lambda>_.
     dlg_bind (dlg_ensure (header ! 1 = 0x00) Rejected) (\<lambda>_.
     dlg_bind
       (if header ! 3 = 0x01 then dlg_bind (recv 4) (\<lambda>bound. finish (IpV4 (from_be_bytes bound)))
        else if header ! 3 = 0x03 then
          dlg_bind (recv 1) (\<lambda>len. dlg_bind (recv (unat (len ! 0))) (\<lambda>_. fail Unsupported))
        else if header ! 3 = 0x04 then dlg_bind (recv 16) (\<lambda>bound. finish (IpV6 (from_be_bytes bound)))
        else fail BadAddressType)
       (\<lambda>ip. dlg_bind (recv 2) (\<lambda>port. finish (socket_addr_new ip (from_be_bytes port)))))))"

definition connect_no_auth :: "unit dialog" where
  "connect_no_auth =
     dlg_bind (send [0x05, 0x01, 0x00]) (\<lambda>_.
     dlg_bind (recv 2) (\<lambda>reply.
     dlg_ensure (reply = [0x05, 0x00]) Rejected))"

definition negotiate_proxy_auth :: "string \<Rightarrow> string \<Rightarrow> unit dialog" where
  "negotiate_proxy_auth username password =
     (if username = [] \<and> password = []
      then
        dlg_bind (send [0x05, 0x01, 0x00]) (\<lambda>_.
        dlg_bind (recv 2) (\<lambda>reply.
        dlg_ensure (reply = [0x05, 0x00]) Rejected))
      else
        dlg_bind (dlg_ensure (length username \<le> 255) TooLong) (\<lambda>_.
        dlg_bind (dlg_ensure (length password \<le> 255) TooLong) (\<lambda>_.
        dlg_bind (send [0x05, 0x01, 0x02]) (\<lambda>_.
        dlg_bind (recv 2) (\<lambda>reply.
        dlg_bind (dlg_ensure (reply = [0x05, 0x02]) Rejected) (\<lambda>_.
        dlg_bind (send ([0x01, of_nat (length username)] @ as_bytes username @
                        [of_nat (length password)] @ as_bytes password)) (\<lambda>_.
        dlg_bind (recv 2) (\<lambda>response.
        dlg_ensure (response = [0x01, 0x00]) AuthFailed))))))))"

definition connect_tcp :: "proxy_target \<Rightarrow> unit dialog" where
  "connect_tcp target =
     dlg_bind connect_no_auth (\<lambda>_.
     dlg_bind (write_proxy_request 0x01 target) (\<lambda>_.
     dlg_bind read_proxy_reply (\<lambda>_. finish ())))"

definition connect_proxy_tcp :: "string \<Rightarrow> string \<Rightarrow> proxy_target \<Rightarrow> unit dialog" where
  "connect_proxy_tcp username password target =
     dlg_bind (negotiate_proxy_auth username password) (\<lambda>_.
     dlg_bind (write_proxy_request 0x01 target) (\<lambda>_.
     dlg_bind read_proxy_reply (\<lambda>_. finish ())))"

definition normalize_udp_bind :: "socket_addr \<Rightarrow> socket_addr \<Rightarrow> socket_addr" where
  "normalize_udp_bind bind upstream =
     (if is_unspecified (sa_ip bind) then socket_addr_new (sa_ip upstream) (sa_port bind) else bind)"

definition udp_bind_request :: "socket_addr \<Rightarrow> proxy_target" where
  "udp_bind_request upstream = (if is_ipv4 upstream then Ip (SocketV4 0 0) else Ip (SocketV6 0 0 0 0))"

definition udp_associate :: "socket_addr \<Rightarrow> socket_addr dialog" where
  "udp_associate upstream =
     dlg_bind connect_no_auth (\<lambda>_.
     dlg_bind (write_proxy_request 0x03 (udp_bind_request upstream)) (\<lambda>_.
     dlg_bind read_proxy_reply (\<lambda>bind. finish (normalize_udp_bind bind upstream))))"

definition connect_proxy_udp_associate :: "string \<Rightarrow> string \<Rightarrow> socket_addr \<Rightarrow> socket_addr dialog" where
  "connect_proxy_udp_associate username password upstream =
     dlg_bind (negotiate_proxy_auth username password) (\<lambda>_.
     dlg_bind (write_proxy_request 0x03 (udp_bind_request upstream)) (\<lambda>_.
     dlg_bind read_proxy_reply (\<lambda>bind. finish (normalize_udp_bind bind upstream))))"

section \<open>The server side\<close>

text \<open>\<open>connect\<close> is the outcome of reaching the upstream proxy, \<open>associate\<close> the dialog of a UDP
  association. Writing to the client does not fail here.\<close>

definition handle_socks_proxy_client ::
  "(proxy_target \<Rightarrow> unit result) \<Rightarrow> bool \<Rightarrow> unit dialog \<Rightarrow> unit dialog" where
  "handle_socks_proxy_client connect udp associate =
     dlg_bind read_request (\<lambda>request.
     case request of
       SocksConnect target \<Rightarrow>
         (case connect target of
            Inl e \<Rightarrow> dlg_bind (write_reply 0x05) (\<lambda>_. fail e)
          | Inr _ \<Rightarrow> write_reply 0x00)
     | SocksUdpAssociate \<Rightarrow>
         (if \<not> udp then dlg_bind (write_reply 0x07) (\<lambda>_. fail Unsupported) else associate))"

definition associate_bind_ip :: "ip_addr \<Rightarrow> ip_addr" where
  "associate_bind_ip local_ip = (case local_ip of IpV4 ip \<Rightarrow> if ip = 0 then IpV4 0x7F000001 else local_ip | _ \<Rightarrow> local_ip)"

text \<open>The events of the association and what it sends.\<close>

datatype udp_event =
    ClientPacket bytes socket_addr
  | UpstreamPacket bytes
  | ControlRead nat

datatype udp_action = ToUpstream bytes | ToClient socket_addr bytes

datatype udp_outcome = Continue "socket_addr option" "udp_action list" | Stop "unit result"

fun socks_udp_step :: "socket_addr option \<Rightarrow> udp_event \<Rightarrow> udp_outcome" where
  "socks_udp_step peer (ClientPacket packet client_peer) =
     (case and_then (parse_socks_udp_packet packet) (\<lambda>(target, payload).
             encode_socks_udp_packet target payload) of
        Inl e \<Rightarrow> Stop (Inl e)
      | Inr out \<Rightarrow> Continue (Some client_peer) [ToUpstream out])"
| "socks_udp_step peer (UpstreamPacket packet) =
     (case and_then (parse_socks_udp_packet packet) (\<lambda>(source, payload).
             and_then (encode_socks_udp_packet source payload) (\<lambda>response.
             and_then (ok_or peer Missing) (\<lambda>peer. Inr (response, peer)))) of
        Inl e \<Rightarrow> Stop (Inl e)
      | Inr (response, to) \<Rightarrow> Continue peer [ToClient to response])"
| "socks_udp_step peer (ControlRead n) = (if n = 0 then Stop (Inr ()) else Continue peer [])"

text \<open>The loop; with no more events it is still running.\<close>

fun socks_udp_loop :: "socket_addr option \<Rightarrow> udp_event list \<Rightarrow> udp_action list \<times> unit result option" where
  "socks_udp_loop peer [] = ([], None)"
| "socks_udp_loop peer (ev # evs) =
     (case socks_udp_step peer ev of
        Stop r \<Rightarrow> ([], Some r)
      | Continue peer' acts \<Rightarrow>
          (case socks_udp_loop peer' evs of (rest, r) \<Rightarrow> (acts @ rest, r)))"

section \<open>Lemmas: handshake\<close>

lemma read_port_run [dialog]:
  "dlg_bind read_port f \<lparr> conn_in = to_be_bytes 2 port @ rest, conn_out = ys \<rparr> =
     f port \<lparr> conn_in = rest, conn_out = ys \<rparr>"
  by (simp add: read_port_def dlg_bind_assoc bind_recv)

text \<open>The request of the client, as the server reads it.\<close>

lemma read_request_target_run:
  assumes "target_ok t" "proxy_request_address t = Inr (atyp # address)"
  shows "dlg_bind (read_request_target atyp) f
      \<lparr> conn_in = address @ to_be_bytes 2 (socks_target_port t) @ rest, conn_out = ys \<rparr> =
    f (wire_uot t) \<lparr> conn_in = rest, conn_out = ys \<rparr>"
proof (cases t)
  case (Ip addr)
  show ?thesis
  proof (cases "sa_ip addr")
    case (IpV4 ip)
    then show ?thesis
      using assms(2) Ip by (auto simp: read_request_target_def dlg_bind_assoc bind_recv dialog)
  next
    case (IpV6 ip)
    then show ?thesis
      using assms(2) Ip by (auto simp: read_request_target_def dlg_bind_assoc bind_recv dialog)
  qed
next
  case (Domain host port)
  then show ?thesis
    using assms
    by (auto simp: read_request_target_def dlg_bind_assoc bind_recv dialog
        split: if_splits)
qed

lemma proxy_request_address_Cons:
  assumes "proxy_request_address t = Inr a" obtains atyp address where "a = atyp # address"
  using assms by (cases t) (auto split: ip_addr.splits if_splits)

lemma read_proxy_reply_run [dialog]:
  "dlg_bind read_proxy_reply f \<lparr> conn_in = reply_with_bind 0 b @ rest, conn_out = ys \<rparr> =
     f (socket_addr_new (sa_ip b) (sa_port b)) \<lparr> conn_in = rest, conn_out = ys \<rparr>"
  by (cases b) (simp_all add: read_proxy_reply_def dlg_bind_assoc bind_recv dialog)

lemma connect_no_auth_run [dialog]:
  "dlg_bind connect_no_auth f \<lparr> conn_in = 5 # 0 # rest, conn_out = ys \<rparr> =
     f () \<lparr> conn_in = rest, conn_out = ys @ [5, 1, 0] \<rparr>"
  by (simp add: connect_no_auth_def dlg_bind_assoc dialog)

lemma write_proxy_request_run [dialog]:
  "proxy_request_address t = Inr a \<Longrightarrow>
   dlg_bind (write_proxy_request cmd t) f \<lparr> conn_in = xs, conn_out = ys \<rparr> =
     f () \<lparr> conn_in = xs, conn_out = ys @ [5, cmd, 0] @ a @ to_be_bytes 2 (socks_target_port t) \<rparr>"
  by (simp add: write_proxy_request_def dlg_bind_assoc dialog)

section \<open>Lemmas: datagrams\<close>

lemma decode_target_Domain_ok:
  assumes "decode_target bs = Inr (Domain host port, rest)"
  shows "length host \<le> 255" "valid_str host"
proof -
  have "\<exists>b. length host = unat (b :: u8) \<and> valid_str host"
    using assms
    by (auto simp: decode_target_def Let_def and_then_Inr_iff from_utf8_Inr_iff valid_str_def
        split: if_splits)
  then show "length host \<le> 255" "valid_str host" using unat_u8_le by auto
qed

lemma decode_target_reencodes:
  assumes "decode_target bs = Inr (t, rest)"
  shows "target_ok t" "\<exists>out. encode_target t = Inr out"
  using assms decode_target_Domain_ok by (cases t; auto split: ip_addr.split)+

lemma reencode_socks_udp_packet:
  assumes "parse_socks_udp_packet packet = Inr (t, payload)"
  obtains out where "encode_socks_udp_packet t payload = Inr out"
    "parse_socks_udp_packet out = Inr (wire_target t, payload)"
proof -
  have d: "decode_target (drop 3 packet) = Inr (t, payload)"
    using assms by (auto simp: parse_socks_udp_packet_def read_socks_address_def split: if_splits)
  then obtain o' where o': "encode_target t = Inr o'" using decode_target_reencodes(2) by blast
  have "decode_target (o' @ payload) = Inr (wire_target t, payload)"
    by (rule decode_encode_target [OF decode_target_reencodes(1) [OF d] o'])
  moreover from this have "o' @ payload \<noteq> []" by (auto simp: decode_target_def)
  ultimately show thesis
    using that [of "[0, 0, 0] @ o' @ payload"] o'
    by (cases "o' @ payload")
       (simp_all add: encode_socks_udp_packet_def write_socks_address_def parse_socks_udp_packet_def
         read_socks_address_def)
qed

section \<open>Lemmas: the relay\<close>

text \<open>Sequences of events on which the association goes on.\<close>

fun udp_well_formed :: "bool \<Rightarrow> udp_event list \<Rightarrow> bool" where
  "udp_well_formed known [] = True"
| "udp_well_formed known (ClientPacket packet peer # evs) \<longleftrightarrow>
     is_ok (parse_socks_udp_packet packet) \<and> udp_well_formed True evs"
| "udp_well_formed known (UpstreamPacket packet # evs) \<longleftrightarrow>
     known \<and> is_ok (parse_socks_udp_packet packet) \<and> udp_well_formed known evs"
| "udp_well_formed known (ControlRead n # evs) \<longleftrightarrow> n \<noteq> 0 \<and> udp_well_formed known evs"

text \<open>What should be sent: the side (\<open>None\<close> is the upstream) and the content.\<close>

fun udp_expected ::
  "socket_addr option \<Rightarrow> udp_event list \<Rightarrow> (socket_addr option \<times> (proxy_target \<times> bytes) result) list" where
  "udp_expected peer [] = []"
| "udp_expected peer (ClientPacket packet client # evs) =
     (None, and_then (parse_socks_udp_packet packet) (\<lambda>(t, p). Inr (wire_target t, p)))
       # udp_expected (Some client) evs"
| "udp_expected peer (UpstreamPacket packet # evs) =
     (peer, and_then (parse_socks_udp_packet packet) (\<lambda>(t, p). Inr (wire_target t, p)))
       # udp_expected peer evs"
| "udp_expected peer (ControlRead n # evs) = udp_expected peer evs"

fun udp_sent :: "udp_action \<Rightarrow> socket_addr option \<times> (proxy_target \<times> bytes) result" where
  "udp_sent (ToUpstream packet) = (None, parse_socks_udp_packet packet)"
| "udp_sent (ToClient peer packet) = (Some peer, parse_socks_udp_packet packet)"

lemma socks_udp_loop_relays:
  "udp_well_formed (peer \<noteq> None) evs \<Longrightarrow>
   \<exists>acts. socks_udp_loop peer evs = (acts, None) \<and> map udp_sent acts = udp_expected peer evs"
proof (induction evs arbitrary: peer)
  case (Cons ev evs)
  show ?case
  proof (cases ev)
    case (ClientPacket packet client)
    then obtain t payload where p: "parse_socks_udp_packet packet = Inr (t, payload)"
      using Cons.prems by (auto simp: is_ok_iff)
    then obtain out where "encode_socks_udp_packet t payload = Inr out"
      "parse_socks_udp_packet out = Inr (wire_target t, payload)"
      by (rule reencode_socks_udp_packet)
    moreover obtain acts where "socks_udp_loop (Some client) evs = (acts, None)"
      "map udp_sent acts = udp_expected (Some client) evs"
      using Cons.IH [of "Some client"] Cons.prems ClientPacket by auto
    ultimately show ?thesis using p by (simp add: ClientPacket)
  next
    case (UpstreamPacket packet)
    then obtain t payload to where p: "parse_socks_udp_packet packet = Inr (t, payload)"
      and peer: "peer = Some to"
      using Cons.prems by (auto simp: is_ok_iff)
    then obtain out where "encode_socks_udp_packet t payload = Inr out"
      "parse_socks_udp_packet out = Inr (wire_target t, payload)"
      using reencode_socks_udp_packet [of packet t payload] by blast
    moreover obtain acts where "socks_udp_loop peer evs = (acts, None)"
      "map udp_sent acts = udp_expected peer evs"
      using Cons.IH [of peer] Cons.prems UpstreamPacket by auto
    ultimately show ?thesis using p by (simp add: UpstreamPacket peer)
  next
    case (ControlRead n)
    then show ?thesis using Cons by auto
  qed
qed simp

section \<open>Properties\<close>

text \<open>C31: the two sides of the SOCKS5 handshake agree. For every target that fits the protocol
  the bytes that \<open>connect_tcp\<close> writes make \<open>read_request\<close> return that target, and the bytes
  that the server answers, the method and a successful reply with any bind address, make
  \<open>connect_tcp\<close> succeed; neither side consumes a byte of the relayed data that follows.\<close>

theorem socks_handshake_agrees:
  assumes "target_ok t" "proxy_request_address t = Inr a"
  shows "\<exists>request. connect_tcp t (start ([0x05, 0x00] @ reply_with_bind 0x00 bind @ rest)) =
        (Inr (), \<lparr> conn_in = rest, conn_out = [0x05, 0x01, 0x00] @ request \<rparr>)
    \<and> read_request (start ([0x05, 0x01, 0x00] @ request @ later)) =
        (Inr (SocksConnect (wire_uot t)), \<lparr> conn_in = later, conn_out = [0x05, 0x00] \<rparr>)"
proof -
  obtain atyp address where a: "a = atyp # address" using assms(2) by (rule proxy_request_address_Cons)
  let ?request = "[5, 1, 0] @ a @ to_be_bytes 2 (socks_target_port t)"
  have "connect_tcp t (start ([5, 0] @ reply_with_bind 0 bind @ rest)) =
      (Inr (), \<lparr> conn_in = rest, conn_out = [5, 1, 0] @ ?request \<rparr>)"
    using assms(2) by (simp add: connect_tcp_def start_def dialog)
  moreover have "read_request (start ([5, 1, 0] @ ?request @ later)) =
      (Inr (SocksConnect (wire_uot t)), \<lparr> conn_in = later, conn_out = [5, 0] \<rparr>)"
    by (simp add: read_request_def start_def a dialog
        read_request_target_run [OF assms(1) assms(2) [unfolded a]] finish_fail_run)
  ultimately show ?thesis by blast
qed

theorem socks_handshake_agrees_witness:
  "\<exists>request. read_request (start ([0x05, 0x01, 0x00] @ request @ [9])) =
        (Inr (SocksConnect (Domain ''a.b'' 443)), \<lparr> conn_in = [9], conn_out = [0x05, 0x00] \<rparr>)"
proof -
  have "target_ok (Domain ''a.b'' 443)" "proxy_request_address (Domain ''a.b'' 443) = Inr [3, 3, 97, 46, 98]"
    by (code_simp, simp add: as_bytes_def)
  from socks_handshake_agrees [OF this, of "SocketV4 0 0" "[]" "[9]"] show ?thesis by auto
qed

text \<open>C32: the UDP relay of an association delivers every datagram to the right side. On any
  sequence of well-formed datagrams in which a client datagram comes first, the loop keeps
  running and sends one datagram per datagram received: from the client to the upstream, from
  the upstream to the client address seen last, each with the same payload and with the same
  target as it reads on the wire.\<close>

theorem socks_udp_relay:
  assumes "udp_well_formed False evs"
  shows "\<exists>acts. socks_udp_loop None evs = (acts, None) \<and> map udp_sent acts = udp_expected None evs"
  using socks_udp_loop_relays [of None evs] assms by simp

theorem socks_udp_relay_witness:
  "\<exists>acts. socks_udp_loop None
      [ClientPacket [0, 0, 0, 1, 8, 8, 8, 8, 0, 53, 1, 2] (SocketV4 1 1), ControlRead 1,
       UpstreamPacket [0, 0, 0, 1, 8, 8, 8, 8, 0, 53, 3]] = (acts, None) \<and>
     map udp_sent acts = [(None, Inr (Ip (SocketV4 0x08080808 53), [1, 2])),
                          (Some (SocketV4 1 1), Inr (Ip (SocketV4 0x08080808 53), [3]))]"
proof -
  have p: "parse_socks_udp_packet [0, 0, 0, 1, 8, 8, 8, 8, 0, 53, 1, 2] = Inr (Ip (SocketV4 0x08080808 53), [1, 2])"
    "parse_socks_udp_packet [0, 0, 0, 1, 8, 8, 8, 8, 0, 53, 3] = Inr (Ip (SocketV4 0x08080808 53), [3])"
    by code_simp+
  show ?thesis
    using socks_udp_relay [of "[ClientPacket [0, 0, 0, 1, 8, 8, 8, 8, 0, 53, 1, 2] (SocketV4 1 1), ControlRead 1,
       UpstreamPacket [0, 0, 0, 1, 8, 8, 8, 8, 0, 53, 3]]"] by (simp add: p del: socks_udp_loop.simps)
qed

end
