(* ===== verification/Padding.thy ===== *)
theory Padding
  imports Protocol
begin

text \<open>
  The padding scheme (\<open>src/src/padding.rs\<close>) and the frame writer that shapes the first packets
  of a session with it (\<open>PaddedFrameWriter\<close> of \<open>src/src/protocol.rs\<close>).

  \<^item> \<open>md5hex\<close> is the hexadecimal MD5 digest of a byte string, a parameter.
  \<^item> Randomness is a parameter: \<open>rnd i\<close> is the \<open>u64\<close> drawn for the \<open>i\<close>-th rule of a packet, or
    the error of the generator.
  \<^item> A packet is the list of its \<open>write_all\<close> calls, so that the sizes on the wire are visible.
    Flushing has no effect on the bytes.
  \<^item> \<open>usize\<close> and \<open>isize\<close> have 64 bits; the casts between them wrap.
\<close>

section \<open>Schemes\<close>

datatype padding_rule = PadRange nat nat | PadCheckpoint

record padding_scheme =
  ps_raw :: "string list"
  ps_md5 :: string
  ps_stop :: u32
  ps_rules :: "(u32 \<times> padding_rule list) list"

abbreviation (input) "PADDING_CHECKPOINT \<equiv> - 1 :: int"

definition default_lines :: "string list" where
  "default_lines =
     [''stop=8'', ''0=30-30'', ''1=100-400'',
      ''2=400-500,c,500-1000,c,500-1000,c,500-1000,c,500-1000'',
      ''3=9-9,500-1000'', ''4=500-1000'', ''5=500-1000'', ''6=500-1000'', ''7=500-1000'']"

abbreviation (input) "usize_max \<equiv> 2 ^ 64 - 1 :: nat"

definition parse_padding_rule :: "string \<Rightarrow> padding_rule result" where
  "parse_padding_rule rule =
     (if rule = ''c'' then Inr PadCheckpoint
      else and_then (ok_or (split_once (CHR ''-'') rule) ParseFailed) (\<lambda>(mn, mx).
           and_then (parse_uint usize_max mn) (\<lambda>mn.
           and_then (parse_uint usize_max mx) (\<lambda>mx.
           let (mn, mx) = (if mn > mx then (mx, mn) else (mn, mx)) in
           if \<not> (mn > 0 \<and> mx > 0) then Inl OutOfRange else Inr (PadRange mn mx)))))"

fun parse_padding_rules :: "string list \<Rightarrow> padding_rule list result" where
  "parse_padding_rules [] = Inr []"
| "parse_padding_rules (r # rs) =
     and_then (parse_padding_rule r) (\<lambda>x.
     and_then (parse_padding_rules rs) (\<lambda>xs. Inr (x # xs)))"

text \<open>The loop over the lines, with the variables \<open>stop\<close> and \<open>rules\<close>.\<close>

fun parse_padding_lines ::
  "u32 option \<Rightarrow> (u32 \<times> padding_rule list) list \<Rightarrow> string list \<Rightarrow>
     (u32 option \<times> (u32 \<times> padding_rule list) list) result" where
  "parse_padding_lines stop rules [] = Inr (stop, rules)"
| "parse_padding_lines stop rules (line # ls) =
     and_then (ok_or (split_once (CHR ''='') line) ParseFailed) (\<lambda>(key, value).
     if key = ''stop'' then
       and_then (parse_uint (2 ^ 32 - 1) value) (\<lambda>parsed.
       if \<not> parsed > 0 then Inl OutOfRange
       else parse_padding_lines (Some (of_nat parsed)) rules ls)
     else
       and_then (parse_uint (2 ^ 32 - 1) key) (\<lambda>packet.
       and_then (parse_padding_rules (split (CHR '','') value)) (\<lambda>packet_rules.
       parse_padding_lines stop (rules @ [(of_nat packet, packet_rules)]) ls)))"

definition from_text :: "(bytes \<Rightarrow> string) \<Rightarrow> string \<Rightarrow> padding_scheme result" where
  "from_text md5hex raw =
     (let raw_lines = filter (\<lambda>l. l \<noteq> []) (map trim (lines raw));
          raw_text = join_nl raw_lines in
      and_then (parse_padding_lines None [] raw_lines) (\<lambda>(stop, rules).
      and_then (ok_or stop Missing) (\<lambda>stop.
      Inr \<lparr> ps_raw = raw_lines, ps_md5 = md5hex (as_bytes raw_text),
            ps_stop = stop, ps_rules = rules \<rparr>)))"

definition from_lines :: "(bytes \<Rightarrow> string) \<Rightarrow> string list \<Rightarrow> padding_scheme result" where
  "from_lines md5hex ls = from_text md5hex (join_nl (filter (\<lambda>l. l \<noteq> []) (map trim ls)))"

definition raw_text :: "padding_scheme \<Rightarrow> string" where
  "raw_text s = join_nl (ps_raw s)"

section \<open>Sizes\<close>

definition as_isize :: "nat \<Rightarrow> int" where
  "as_isize n = sint (of_nat n :: u64)"

definition as_usize :: "int \<Rightarrow> nat" where
  "as_usize i = unat (word_of_int i :: u64)"

fun rule_sizes :: "(nat \<Rightarrow> u64 result) \<Rightarrow> nat \<Rightarrow> padding_rule list \<Rightarrow> int list result" where
  "rule_sizes rnd i [] = Inr []"
| "rule_sizes rnd i (PadCheckpoint # rules) =
     and_then (rule_sizes rnd (i + 1) rules) (\<lambda>sizes. Inr (PADDING_CHECKPOINT # sizes))"
| "rule_sizes rnd i (PadRange mn mx # rules) =
     (if mn = mx then and_then (rule_sizes rnd (i + 1) rules) (\<lambda>sizes. Inr (as_isize mn # sizes))
      else and_then (rnd i) (\<lambda>r.
           and_then (rule_sizes rnd (i + 1) rules) (\<lambda>sizes.
           Inr (as_isize (mn + unat r mod (mx - mn)) # sizes))))"

definition record_payload_sizes ::
  "(nat \<Rightarrow> u64 result) \<Rightarrow> padding_scheme \<Rightarrow> u32 \<Rightarrow> int list result" where
  "record_payload_sizes rnd s packet =
     (case find (\<lambda>(index, _). index = packet) (ps_rules s) of
        None \<Rightarrow> Inr []
      | Some (_, rules) \<Rightarrow> rule_sizes rnd 0 rules)"

definition preface_padding_len :: "(nat \<Rightarrow> u64 result) \<Rightarrow> padding_scheme \<Rightarrow> nat result" where
  "preface_padding_len rnd s =
     and_then (record_payload_sizes rnd s 0) (\<lambda>sizes.
     let sz = (case find (\<lambda>sz. sz \<ge> 0) sizes of None \<Rightarrow> 0 | Some sz \<Rightarrow> sz) in
     if \<not> sz \<le> 65535 then Inl OutOfRange else Inr (as_usize sz))"

section \<open>The padded writer\<close>

record padded_frame_writer =
  pw_inner :: writer
  pw_padding :: padding_scheme
  pw_packet_counter :: u32
  pw_send_padding :: bool

definition padded_frame_writer_new :: "writer \<Rightarrow> padding_scheme \<Rightarrow> padded_frame_writer" where
  "padded_frame_writer_new inner padding =
     \<lparr> pw_inner = inner, pw_padding = padding, pw_packet_counter = 0, pw_send_padding = True \<rparr>"

definition write_auth_preface ::
  "(bytes \<Rightarrow> bytes) \<Rightarrow> (nat \<Rightarrow> u64 result) \<Rightarrow> padded_frame_writer \<Rightarrow> string \<Rightarrow> bytes list result" where
  "write_auth_preface sha rnd w password =
     and_then (preface_padding_len rnd (pw_padding w)) (\<lambda>padding_len.
     Inr ([password_hash sha password, len_u16 padding_len]
          @ (if padding_len > 0 then [replicate padding_len 0] else [])))"

definition waste_frame :: "nat \<Rightarrow> bytes" where
  "waste_frame n = encode_frame CMD_WASTE 0 (replicate n 0)"

text \<open>The loop over the sizes of a packet: the payload that is left and the writes.\<close>

fun pad_loop :: "int list \<Rightarrow> bytes \<Rightarrow> bytes \<times> bytes list" where
  "pad_loop [] payload = (payload, [])"
| "pad_loop (sz # sizes) payload =
     (if sz = PADDING_CHECKPOINT then
        (if payload = [] then (payload, []) else pad_loop sizes payload)
      else let n = as_usize sz in
        if length payload > n then
          (case pad_loop sizes (drop n payload) of (p, ws) \<Rightarrow> (p, take n payload # ws))
        else if payload \<noteq> [] then
          (let packet =
             (if n > length payload + FRAME_HEADER_LEN
              then payload @ waste_frame (n - length payload - FRAME_HEADER_LEN)
              else payload) in
           case pad_loop sizes [] of (p, ws) \<Rightarrow> (p, packet # ws))
        else (case pad_loop sizes [] of (p, ws) \<Rightarrow> (p, waste_frame n # ws)))"

definition saturating_inc :: "u32 \<Rightarrow> u32" where
  "saturating_inc c = (if c = - 1 then c else c + 1)"

definition write_packet ::
  "(nat \<Rightarrow> u64 result) \<Rightarrow> padded_frame_writer \<Rightarrow> bytes \<Rightarrow>
     (padded_frame_writer \<times> bytes list) result" where
  "write_packet rnd w payload =
     (if pw_send_padding w then
        (let packet = saturating_inc (pw_packet_counter w);
             w = w\<lparr> pw_packet_counter := packet \<rparr> in
         if packet < ps_stop (pw_padding w) then
           and_then (record_payload_sizes rnd (pw_padding w) packet) (\<lambda>sizes.
           case pad_loop sizes payload of (payload, ws) \<Rightarrow>
             if payload = [] then Inr (w, ws) else Inr (w, ws @ [payload]))
         else Inr (w\<lparr> pw_send_padding := False \<rparr>, [payload]))
      else Inr (w, [payload]))"

definition write_frame_with_flush ::
  "(nat \<Rightarrow> u64 result) \<Rightarrow> padded_frame_writer \<Rightarrow> u8 \<Rightarrow> u32 \<Rightarrow> bytes \<Rightarrow>
     (padded_frame_writer \<times> bytes list) result" where
  "write_frame_with_flush rnd w cmd stream_id payload =
     (if \<not> length payload \<le> MAX_FRAME_PAYLOAD_LEN then Inl TooLong
      else if \<not> pw_send_padding w \<and> length payload \<ge> VECTORED_FRAME_MIN_PAYLOAD
              \<and> w_is_write_vectored (pw_inner w)
      then and_then (write_vectored_frame_bytes (pw_inner w) cmd stream_id payload)
             (\<lambda>bs. Inr (w, [bs]))
      else write_packet rnd w (encode_frame cmd stream_id payload))"

text \<open>\<open>rnds j\<close> is the randomness of the \<open>j\<close>-th chunk.\<close>

fun padded_write_chunks ::
  "(nat \<Rightarrow> nat \<Rightarrow> u64 result) \<Rightarrow> nat \<Rightarrow> padded_frame_writer \<Rightarrow> u32 \<Rightarrow> bytes list \<Rightarrow>
     (padded_frame_writer \<times> bytes list) result" where
  "padded_write_chunks rnds j w stream_id [] = Inr (w, [])"
| "padded_write_chunks rnds j w stream_id (c # cs) =
     and_then (write_frame_with_flush (rnds j) w CMD_PSH stream_id c) (\<lambda>(w, ws).
     and_then (padded_write_chunks rnds (j + 1) w stream_id cs) (\<lambda>(w, ws'). Inr (w, ws @ ws')))"

definition padded_write_payload_chunks ::
  "(nat \<Rightarrow> nat \<Rightarrow> u64 result) \<Rightarrow> padded_frame_writer \<Rightarrow> u32 \<Rightarrow> bytes \<Rightarrow>
     (padded_frame_writer \<times> bytes list) result" where
  "padded_write_payload_chunks rnds w stream_id payload =
     padded_write_chunks rnds 0 w stream_id (chunks MAX_FRAME_PAYLOAD_LEN payload)"

definition settings_text :: "padding_scheme \<Rightarrow> string" where
  "settings_text s =
     ''v=2'' @ [CHR 0x0A] @ ''client='' @ CLIENT_NAME @ [CHR 0x0A] @ ''padding-md5='' @ ps_md5 s"

definition padded_write_client_settings ::
  "(nat \<Rightarrow> u64 result) \<Rightarrow> padded_frame_writer \<Rightarrow> (padded_frame_writer \<times> bytes list) result" where
  "padded_write_client_settings rnd w =
     write_frame_with_flush rnd w CMD_SETTINGS 0 (as_bytes (settings_text (pw_padding w)))"

definition update_padding_scheme ::
  "(bytes \<Rightarrow> string) \<Rightarrow> padded_frame_writer \<Rightarrow> string \<Rightarrow> padded_frame_writer result" where
  "update_padding_scheme md5hex w raw =
     and_then (from_text md5hex raw) (\<lambda>s. Inr (w\<lparr> pw_padding := s \<rparr>))"

section \<open>Lemmas: schemes\<close>

fun rule_ok :: "padding_rule \<Rightarrow> bool" where
  "rule_ok (PadRange mn mx) \<longleftrightarrow> 0 < mn \<and> mn \<le> mx \<and> mx \<le> usize_max"
| "rule_ok PadCheckpoint \<longleftrightarrow> True"

definition scheme_ok :: "padding_scheme \<Rightarrow> bool" where
  "scheme_ok s \<longleftrightarrow> 0 < ps_stop s \<and> list_all (\<lambda>(_, rs). list_all rule_ok rs) (ps_rules s)"

lemma parse_padding_rule_ok: "parse_padding_rule r = Inr x \<Longrightarrow> rule_ok x"
  by (auto simp: parse_padding_rule_def and_then_Inr_iff ok_or_Inr_iff Let_def
      split: if_splits dest!: parse_uint_le)

lemma parse_padding_rules_ok: "parse_padding_rules rs = Inr xs \<Longrightarrow> list_all rule_ok xs"
  by (induction rs arbitrary: xs) (auto simp: and_then_Inr_iff dest: parse_padding_rule_ok)

lemma of_nat_u32_pos: "0 < n \<Longrightarrow> n \<le> 2 ^ 32 - 1 \<Longrightarrow> 0 < (of_nat n :: u32)"
proof -
  assume "0 < n" "n \<le> 2 ^ 32 - 1"
  then have "unat (of_nat n :: u32) = n" by (simp add: unat_of_nat)
  then show ?thesis using \<open>0 < n\<close> by (metis unat_gt_0 unsigned_0 word_gt_0 neq0_conv)
qed

lemma parse_padding_lines_ok:
  assumes "parse_padding_lines stop rules ls = Inr (stop', rules')"
    "list_all (\<lambda>(_, rs). list_all rule_ok rs) rules" "\<forall>n. stop = Some n \<longrightarrow> 0 < n"
  shows "list_all (\<lambda>(_, rs). list_all rule_ok rs) rules' \<and> (\<forall>n. stop' = Some n \<longrightarrow> 0 < n)"
  using assms
proof (induction stop rules ls rule: parse_padding_lines.induct)
  case (2 stop rules line ls)
  from "2.prems"(1) obtain key val where kv: "split_once (CHR ''='') line = Some (key, val)"
    by (auto simp: and_then_Inr_iff ok_or_Inr_iff)
  show ?case
  proof (cases "key = ''stop''")
    case True
    with "2.prems" kv obtain n where n: "parse_uint (2 ^ 32 - 1) val = Inr n" "0 < n"
      "parse_padding_lines (Some (of_nat n)) rules ls = Inr (stop', rules')"
      by (auto simp: and_then_Inr_iff split: if_splits)
    then show ?thesis
      using "2.IH"(1) kv True "2.prems"(2) of_nat_u32_pos parse_uint_le by fastforce
  next
    case False
    with "2.prems" kv obtain k rs where k: "parse_uint (2 ^ 32 - 1) key = Inr k"
      "parse_padding_rules (split (CHR '','') val) = Inr rs"
      "parse_padding_lines stop (rules @ [(of_nat k, rs)]) ls = Inr (stop', rules')"
      by (auto simp: and_then_Inr_iff)
    then show ?thesis
      using "2.IH"(2) kv False "2.prems"(2,3) parse_padding_rules_ok by fastforce
  qed
qed simp

lemma from_text_ok: "from_text md5hex raw = Inr s \<Longrightarrow> scheme_ok s"
  unfolding from_text_def Let_def scheme_ok_def
  by (auto simp: and_then_Inr_iff ok_or_Inr_iff dest!: parse_padding_lines_ok)

text \<open>The text of a scheme parses to the scheme itself.\<close>

lemma from_text_raw_text:
  assumes "from_text md5hex raw = Inr s"
  shows "from_text md5hex (raw_text s) = Inr s"
proof -
  let ?ls = "filter (\<lambda>l. l \<noteq> []) (map trim (lines raw))"
  have raw: "ps_raw s = ?ls"
    using assms by (auto simp: from_text_def Let_def and_then_Inr_iff ok_or_Inr_iff)
  have line: "l \<noteq> [] \<and> CHR 0x0A \<notin> set l \<and> last l \<noteq> CHR 0x0D \<and> trim l = l" if "l \<in> set ?ls" for l
    using that lines_no_newline set_trim last_trim_not_cr by fastforce
  then have "lines (raw_text s) = ?ls"
    unfolding raw_text_def raw by (intro lines_join_nl) blast
  moreover have "map trim ?ls = ?ls" using line by (intro map_idI) blast
  ultimately have "filter (\<lambda>l. l \<noteq> []) (map trim (lines (raw_text s))) = ?ls"
    by (simp only: filter_filter conj_absorb)
  then show ?thesis using assms by (simp add: from_text_def)
qed

section \<open>Lemmas: sizes\<close>

lemma as_isize_small: "n < 2 ^ 63 \<Longrightarrow> as_isize n = int n"
  by (simp add: as_isize_def signed_of_nat signed_take_bit_int_eq_self_iff signed_take_bit_int_eq_self)

lemma as_usize_small: "0 \<le> i \<Longrightarrow> i < 2 ^ 64 \<Longrightarrow> as_usize i = nat i"
  by (simp add: as_usize_def unsigned_of_int take_bit_int_eq_self)

text \<open>A scheme is safe on the wire if no rule asks for more than a frame can hold.\<close>

fun rule_le :: "nat \<Rightarrow> padding_rule \<Rightarrow> bool" where
  "rule_le m (PadRange mn mx) \<longleftrightarrow> 0 < mn \<and> mn \<le> mx \<and> mx \<le> m"
| "rule_le m PadCheckpoint \<longleftrightarrow> True"

definition wire_safe :: "padding_scheme \<Rightarrow> bool" where
  "wire_safe s \<longleftrightarrow> list_all (\<lambda>(_, rs). list_all (rule_le 65535) rs) (ps_rules s)"

text \<open>The size drawn for a rule.\<close>

fun size_fits :: "int \<Rightarrow> padding_rule \<Rightarrow> bool" where
  "size_fits sz PadCheckpoint \<longleftrightarrow> sz = PADDING_CHECKPOINT"
| "size_fits sz (PadRange mn mx) \<longleftrightarrow> int mn \<le> sz \<and> (if mn = mx then sz = int mx else sz < int mx)"

lemma rule_sizes_fit:
  assumes "rule_sizes rnd i rules = Inr sizes"
  shows "list_all2 (\<lambda>sz r. rule_le (2 ^ 63 - 1) r \<longrightarrow> size_fits sz r) sizes rules"
  using assms
proof (induction rnd i rules arbitrary: sizes rule: rule_sizes.induct)
  case (3 rnd i mn mx rules)
  show ?case
  proof (cases "mn = mx")
    case True
    with 3 show ?thesis by (auto simp: and_then_Inr_iff as_isize_small)
  next
    case False
    from "3.prems" False obtain r ss where r: "rnd i = Inr r" "rule_sizes rnd (i + 1) rules = Inr ss"
      and sizes: "sizes = as_isize (mn + unat r mod (mx - mn)) # ss"
      by (auto simp: and_then_Inr_iff)
    have "size_fits (as_isize (mn + unat r mod (mx - mn))) (PadRange mn mx)"
      if "rule_le (2 ^ 63 - 1) (PadRange mn mx)"
    proof -
      have bounds: "mn < mx" "mx \<le> 2 ^ 63 - 1" using that False by auto
      then have less: "mn + unat r mod (mx - mn) < mx"
        by (metis add_diff_inverse_nat mod_less_divisor nat_add_left_cancel_less not_less_iff_gr_or_eq zero_less_diff)
      then have "as_isize (mn + unat r mod (mx - mn)) = int (mn + unat r mod (mx - mn))"
        using bounds by (intro as_isize_small) simp
      then show ?thesis using less False by (simp del: of_nat_add add: of_nat_less_iff)
    qed
    then show ?thesis using "3.IH"(2) [OF False r(1)] r(2) sizes False by simp
  qed
qed (auto simp: and_then_Inr_iff)

lemma list_all2_mp:
  "list_all2 (\<lambda>x y. A y \<longrightarrow> B x y) xs ys \<Longrightarrow> list_all A ys \<Longrightarrow> list_all2 B xs ys"
  by (induction rule: list_all2_induct) auto

lemma rule_le_mono: "m \<le> m' \<Longrightarrow> rule_le m r \<Longrightarrow> rule_le m' r"
  by (cases r) auto

lemma rule_sizes_total: "\<forall>i. is_ok (rnd i) \<Longrightarrow> is_ok (rule_sizes rnd i rules)"
proof (induction rnd i rules rule: rule_sizes.induct)
  case (3 rnd i mn mx rules)
  then obtain r where "rnd i = Inr r" by (meson is_ok_iff)
  with 3 show ?case by (auto simp: is_ok_iff)
qed (auto simp: is_ok_iff)

definition size_small :: "int \<Rightarrow> bool" where
  "size_small sz \<longleftrightarrow> sz = PADDING_CHECKPOINT \<or> (0 < sz \<and> sz \<le> 65535)"

lemma size_fits_small: "size_fits sz r \<Longrightarrow> rule_le 65535 r \<Longrightarrow> size_small sz"
  by (cases r) (auto simp: size_small_def split: if_splits)

lemma find_rules_wire_safe:
  "wire_safe s \<Longrightarrow> find (\<lambda>(index, _). index = packet) (ps_rules s) = Some (k, rules) \<Longrightarrow>
     list_all (rule_le 65535) rules"
  unfolding wire_safe_def list_all_iff find_Some_iff by (metis (no_types, lifting) case_prod_conv nth_mem)

lemma record_payload_sizes_small:
  assumes "wire_safe s" "record_payload_sizes rnd s packet = Inr sizes"
  shows "list_all size_small sizes"
proof (cases "find (\<lambda>(index, _). index = packet) (ps_rules s)")
  case None
  then show ?thesis using assms by (simp add: record_payload_sizes_def)
next
  case (Some p)
  obtain k rules where p: "p = (k, rules)" by force
  then have safe: "list_all (rule_le 65535) rules" using find_rules_wire_safe assms(1) Some by metis
  then have "list_all (rule_le (2 ^ 63 - 1)) rules"
    unfolding list_all_iff using rule_le_mono [of 65535 "2 ^ 63 - 1"] by simp
  then have "list_all2 size_fits sizes rules"
    using assms(2) Some p by (intro list_all2_mp [OF rule_sizes_fit]) (simp_all add: record_payload_sizes_def)
  then show ?thesis using safe
    by (induction rule: list_all2_induct) (auto intro: size_fits_small)
qed

lemma record_payload_sizes_total:
  "\<forall>i. is_ok (rnd i) \<Longrightarrow> is_ok (record_payload_sizes rnd s packet)"
  by (auto simp: record_payload_sizes_def rule_sizes_total split: option.split)

section \<open>Lemmas: the padded writer\<close>

lemma as_usize_size_small:
  "size_small sz \<Longrightarrow> sz \<noteq> PADDING_CHECKPOINT \<Longrightarrow> as_usize sz \<le> 65535"
  by (auto simp: size_small_def as_usize_small)

lemma read_waste_frame:
  "n \<le> 65535 \<Longrightarrow> read_frame (waste_frame n @ rest) = Inr (mk_frame CMD_WASTE 0 (replicate n 0), rest)"
  by (simp add: waste_frame_def)

text \<open>Cutting a packet to size moves its bytes into the writes unchanged; padding frames only
  come after its last byte.\<close>

lemma pad_loop_transparent:
  assumes "list_all size_small sizes" "pad_loop sizes p = (p', ws)"
  shows "\<exists>ns. list_all (\<lambda>n. n \<le> 65535) ns \<and> concat ws @ p' = p @ concat (map waste_frame ns)
           \<and> (p' \<noteq> [] \<longrightarrow> ns = []) \<and> (p = [] \<longrightarrow> p' = [])"
  using assms
proof (induction sizes arbitrary: p ws)
  case Nil
  then show ?case by (intro exI [of _ "[]"]) simp
next
  case (Cons sz sizes)
  have small: "size_small sz" "list_all size_small sizes" using Cons.prems by auto
  define n where "n = as_usize sz"
  consider (check) "sz = PADDING_CHECKPOINT" | (cut) "sz \<noteq> PADDING_CHECKPOINT" "length p > n"
    | (fill) "sz \<noteq> PADDING_CHECKPOINT" "length p \<le> n" by linarith
  then show ?case
  proof cases
    case check
    show ?thesis
    proof (cases "p = []")
      case True
      then show ?thesis using check Cons.prems by (intro exI [of _ "[]"]) simp
    next
      case False
      then show ?thesis using check Cons by (auto simp: size_small_def)
    qed
  next
    case cut
    then obtain ws' where ws': "pad_loop sizes (drop n p) = (p', ws')" "ws = take n p # ws'"
      using Cons.prems by (auto simp: n_def Let_def split: prod.splits)
    from Cons.IH [OF small(2) this(1)] cut ws'(2) show ?thesis by auto
  next
    case fill
    have n: "n \<le> 65535" using as_usize_size_small small(1) fill n_def by simp
    define c where "c = (if p = [] then waste_frame n
        else if n > length p + 7 then p @ waste_frame (n - length p - 7) else p)"
    obtain ws' where c: "pad_loop sizes [] = (p', ws')" "ws = c # ws'"
      using Cons.prems(2) fill
      by (cases "pad_loop sizes []") (auto simp: n_def [symmetric] Let_def c_def split: if_splits)
    have cp: "c = p \<or> (\<exists>m. m \<le> 65535 \<and> c = p @ waste_frame m)"
    proof (cases "p = []")
      case True
      then show ?thesis using n by (intro disjI2 exI [of _ n]) (simp add: c_def)
    next
      case False
      have "n - length p - 7 \<le> 65535" using n by simp
      with False show ?thesis unfolding c_def by metis
    qed
    from Cons.IH [OF small(2) c(1)] obtain ns where
      "list_all (\<lambda>n. n \<le> 65535) ns" "concat ws' @ p' = [] @ concat (map waste_frame ns)" "p' = []"
      by blast
    moreover from cp consider "c = p" | m where "m \<le> 65535" "c = p @ waste_frame m" by blast
    then obtain ms where "list_all (\<lambda>n. n \<le> 65535) ms" "c = p @ concat (map waste_frame ms)"
    proof cases
      case 1
      then show ?thesis by (intro that [of "[]"]) simp_all
    next
      case (2 m)
      then show ?thesis by (intro that [of "[m]"]) simp_all
    qed
    ultimately show ?thesis using c by (intro exI [of _ "ms @ ns"]) simp
  qed
qed

lemma write_packet_transparent:
  assumes "wire_safe (pw_padding w)" "write_packet rnd w payload = Inr (w', ws)"
  shows "\<exists>ns. list_all (\<lambda>n. n \<le> 65535) ns \<and> concat ws = payload @ concat (map waste_frame ns)
           \<and> pw_inner w' = pw_inner w \<and> pw_padding w' = pw_padding w"
proof (cases "pw_send_padding w \<and> saturating_inc (pw_packet_counter w) < ps_stop (pw_padding w)")
  case True
  let ?c = "saturating_inc (pw_packet_counter w)"
  obtain sizes where sizes: "record_payload_sizes rnd (pw_padding w) ?c = Inr sizes"
    using True assms(2)
    by (cases "record_payload_sizes rnd (pw_padding w) ?c") (auto simp: write_packet_def Let_def)
  obtain p' vs where loop: "pad_loop sizes payload = (p', vs)" by force
  have ws: "ws = (if p' = [] then vs else vs @ [p'])" and w': "w' = w\<lparr> pw_packet_counter := ?c \<rparr>"
    using True assms(2) sizes loop by (auto simp: write_packet_def Let_def split: if_splits)
  have "list_all size_small sizes" using record_payload_sizes_small assms(1) sizes by blast
  from pad_loop_transparent [OF this loop] ws w' show ?thesis by auto
next
  case False
  with assms show ?thesis
    by (intro exI [of _ "[]"]) (auto simp: write_packet_def Let_def split: if_splits)
qed

lemma write_frame_with_flush_transparent:
  assumes "wire_safe (pw_padding w)" "writer_progress (pw_inner w)"
    "write_frame_with_flush rnd w cmd stream_id payload = Inr (w', ws)"
  shows "\<exists>ns. list_all (\<lambda>n. n \<le> 65535) ns
           \<and> concat ws = encode_frame cmd stream_id payload @ concat (map waste_frame ns)
           \<and> pw_inner w' = pw_inner w \<and> pw_padding w' = pw_padding w"
proof (cases "\<not> pw_send_padding w \<and> length payload \<ge> VECTORED_FRAME_MIN_PAYLOAD
    \<and> w_is_write_vectored (pw_inner w)")
  case True
  with assms show ?thesis
    by (intro exI [of _ "[]"])
       (auto simp: write_frame_with_flush_def write_vectored_frame_bytes_def
        write_frame_parts_complete encode_frame_def split: if_splits)
next
  case False
  with assms have "write_packet rnd w (encode_frame cmd stream_id payload) = Inr (w', ws)"
    by (auto simp: write_frame_with_flush_def split: if_splits)
  from write_packet_transparent [OF assms(1) this] show ?thesis .
qed

lemma write_packet_total: "\<forall>i. is_ok (rnd i) \<Longrightarrow> is_ok (write_packet rnd w payload)"
proof -
  assume "\<forall>i. is_ok (rnd i)"
  then have "is_ok (record_payload_sizes rnd (pw_padding w) (saturating_inc (pw_packet_counter w)))"
    by (rule record_payload_sizes_total)
  then obtain sizes where
    "record_payload_sizes rnd (pw_padding w) (saturating_inc (pw_packet_counter w)) = Inr sizes"
    unfolding is_ok_iff ..
  then show ?thesis by (cases "pad_loop sizes payload") (simp add: write_packet_def Let_def)
qed

lemma write_frame_with_flush_total:
  assumes "\<forall>i. is_ok (rnd i)" "writer_progress (pw_inner w)"
    "length payload \<le> MAX_FRAME_PAYLOAD_LEN"
  shows "is_ok (write_frame_with_flush rnd w cmd stream_id payload)"
  using assms write_packet_total [OF assms(1)]
  by (simp add: write_frame_with_flush_def write_vectored_frame_bytes_def write_frame_parts_complete)

section \<open>Lemmas: sessions\<close>

abbreviation frame_bytes :: "frame \<Rightarrow> bytes" where
  "frame_bytes f \<equiv> encode_frame (frame_cmd f) (frame_stream_id f) (frame_payload f)"

lemma decode_frame_bytes:
  "list_all (\<lambda>f. length (frame_payload f) \<le> MAX_FRAME_PAYLOAD_LEN) fs \<Longrightarrow>
     decode_n read_frame (length fs) (concat (map frame_bytes fs) @ rest) = Inr (fs, rest)"
  by (induction fs) simp_all

text \<open>Writes that carry a sequence of frames, padding frames in between apart.\<close>

definition carries :: "bytes list \<Rightarrow> frame list \<Rightarrow> bool" where
  "carries ws frames \<longleftrightarrow>
     (\<exists>fs. concat ws = concat (map frame_bytes fs) \<and>
           list_all (\<lambda>f. length (frame_payload f) \<le> MAX_FRAME_PAYLOAD_LEN) fs \<and>
           filter (\<lambda>f. frame_cmd f \<noteq> CMD_WASTE) fs = frames)"

lemma carries_Nil: "carries [] []"
  by (simp add: carries_def exI [of _ "[]"])

lemma carries_append: "carries ws fs \<Longrightarrow> carries ws' fs' \<Longrightarrow> carries (ws @ ws') (fs @ fs')"
proof -
  assume "carries ws fs" "carries ws' fs'"
  then obtain gs gs' where
    "concat ws = concat (map frame_bytes gs)" "concat ws' = concat (map frame_bytes gs')"
    "list_all (\<lambda>f. length (frame_payload f) \<le> MAX_FRAME_PAYLOAD_LEN) (gs @ gs')"
    "filter (\<lambda>f. frame_cmd f \<noteq> CMD_WASTE) gs = fs" "filter (\<lambda>f. frame_cmd f \<noteq> CMD_WASTE) gs' = fs'"
    unfolding carries_def list_all_append by blast
  then show ?thesis unfolding carries_def by (intro exI [of _ "gs @ gs'"]) simp
qed

lemma carries_decode:
  "carries ws frames \<Longrightarrow>
     \<exists>fs. decode_n read_frame (length fs) (concat ws @ rest) = Inr (fs, rest) \<and>
          filter (\<lambda>f. frame_cmd f \<noteq> CMD_WASTE) fs = frames"
proof -
  assume "carries ws frames"
  then obtain fs where fs: "concat ws = concat (map frame_bytes fs)"
    "list_all (\<lambda>f. length (frame_payload f) \<le> MAX_FRAME_PAYLOAD_LEN) fs"
    "filter (\<lambda>f. frame_cmd f \<noteq> CMD_WASTE) fs = frames" unfolding carries_def by blast
  then show ?thesis using decode_frame_bytes [OF fs(2), of rest] by (intro exI [of _ fs]) simp
qed

lemma write_frame_carries:
  assumes "writer_progress (pw_inner w)" "wire_safe (pw_padding w)" "\<forall>i. is_ok (rnd i)"
    "length payload \<le> MAX_FRAME_PAYLOAD_LEN" "cmd \<noteq> CMD_WASTE"
  shows "\<exists>w' ws. write_frame_with_flush rnd w cmd sid payload = Inr (w', ws) \<and>
    carries ws [mk_frame cmd sid payload] \<and> pw_inner w' = pw_inner w \<and> pw_padding w' = pw_padding w"
proof -
  obtain w' ws where w: "write_frame_with_flush rnd w cmd sid payload = Inr (w', ws)"
    using write_frame_with_flush_total [OF assms(3,1,4), of cmd sid] by (auto simp: is_ok_iff)
  from write_frame_with_flush_transparent [OF assms(2,1) w] obtain ns where
    ns: "list_all (\<lambda>n. n \<le> 65535) ns" "concat ws = encode_frame cmd sid payload @ concat (map waste_frame ns)"
    and same: "pw_inner w' = pw_inner w" "pw_padding w' = pw_padding w" by blast
  let ?waste = "map (\<lambda>n. mk_frame CMD_WASTE 0 (replicate n 0)) ns"
  let ?fs = "mk_frame cmd sid payload # ?waste"
  have "concat (map frame_bytes ?waste) = concat (map waste_frame ns)"
    by (simp add: comp_def waste_frame_def [abs_def])
  moreover have "list_all (\<lambda>f. length (frame_payload f) \<le> MAX_FRAME_PAYLOAD_LEN) ?fs"
    using ns(1) assms(4) by (auto simp: list_all_iff)
  moreover have "filter (\<lambda>f. frame_cmd f \<noteq> CMD_WASTE) ?waste = []" by (auto simp: filter_empty_conv)
  ultimately have "carries ws [mk_frame cmd sid payload]"
    unfolding carries_def using ns(2) assms(5) by (intro exI [of _ ?fs]) simp
  then show ?thesis using w same by blast
qed

lemma write_chunks_carries:
  assumes "writer_progress (pw_inner w)" "wire_safe (pw_padding w)" "\<forall>j i. is_ok (rnds j i)"
    "list_all (\<lambda>c. length c \<le> MAX_FRAME_PAYLOAD_LEN) cs"
  shows "\<exists>w' ws. padded_write_chunks rnds j w sid cs = Inr (w', ws) \<and>
    carries ws (map (mk_frame CMD_PSH sid) cs) \<and> pw_inner w' = pw_inner w \<and> pw_padding w' = pw_padding w"
  using assms
proof (induction rnds j w sid cs rule: padded_write_chunks.induct)
  case (2 rnds j w sid c cs)
  then obtain w' ws where w: "write_frame_with_flush (rnds j) w CMD_PSH sid c = Inr (w', ws)"
    "carries ws [mk_frame CMD_PSH sid c]" "pw_inner w' = pw_inner w" "pw_padding w' = pw_padding w"
    using write_frame_carries [of w "rnds j" c CMD_PSH sid] by auto
  then obtain w'' ws' where "padded_write_chunks rnds (j + 1) w' sid cs = Inr (w'', ws')"
    "carries ws' (map (mk_frame CMD_PSH sid) cs)" "pw_inner w'' = pw_inner w'" "pw_padding w'' = pw_padding w'"
    using "2.IH" [OF w(1) refl] "2.prems" by auto
  then show ?case using w carries_append [OF w(2)] by simp
qed (simp add: carries_Nil)

text \<open>What a session does with its writer: it writes frames, each with its own randomness, and
  replaces the scheme.\<close>

datatype writer_op =
    OpFrame "nat \<Rightarrow> u64 result" u8 u32 bytes
  | OpUpdate string

fun run_writer ::
  "(bytes \<Rightarrow> string) \<Rightarrow> padded_frame_writer \<Rightarrow> writer_op list \<Rightarrow> bytes list result" where
  "run_writer md5hex w [] = Inr []"
| "run_writer md5hex w (OpFrame rnd cmd stream_id payload # ops) =
     and_then (write_frame_with_flush rnd w cmd stream_id payload) (\<lambda>(w, ws).
     and_then (run_writer md5hex w ops) (\<lambda>ws'. Inr (ws @ ws')))"
| "run_writer md5hex w (OpUpdate raw # ops) =
     and_then (update_padding_scheme md5hex w raw) (\<lambda>w. run_writer md5hex w ops)"

fun op_ok :: "(bytes \<Rightarrow> string) \<Rightarrow> writer_op \<Rightarrow> bool" where
  "op_ok md5hex (OpFrame rnd cmd stream_id payload) \<longleftrightarrow>
     (\<forall>i. is_ok (rnd i)) \<and> length payload \<le> MAX_FRAME_PAYLOAD_LEN \<and> cmd \<noteq> CMD_WASTE"
| "op_ok md5hex (OpUpdate raw) \<longleftrightarrow> (\<exists>s. from_text md5hex raw = Inr s \<and> wire_safe s)"

fun op_frames :: "writer_op list \<Rightarrow> frame list" where
  "op_frames [] = []"
| "op_frames (OpFrame rnd cmd stream_id payload # ops) = mk_frame cmd stream_id payload # op_frames ops"
| "op_frames (OpUpdate raw # ops) = op_frames ops"

lemma run_writer_frames:
  assumes "writer_progress (pw_inner w)" "wire_safe (pw_padding w)" "list_all (op_ok md5hex) ops"
  shows "\<exists>ws. run_writer md5hex w ops = Inr ws \<and> carries ws (op_frames ops)"
  using assms
proof (induction md5hex w ops rule: run_writer.induct)
  case (2 md5hex w rnd cmd sid payload ops)
  then obtain w' ws where w: "write_frame_with_flush rnd w cmd sid payload = Inr (w', ws)"
    "carries ws [mk_frame cmd sid payload]" "pw_inner w' = pw_inner w" "pw_padding w' = pw_padding w"
    using write_frame_carries [of w rnd payload cmd sid] by auto
  then obtain ws' where "run_writer md5hex w' ops = Inr ws'" "carries ws' (op_frames ops)"
    using "2.IH" [OF w(1) refl] "2.prems" by auto
  then show ?case using w carries_append [OF w(2)] by simp
next
  case (3 md5hex w raw ops)
  then obtain s where s: "from_text md5hex raw = Inr s" "wire_safe s" by auto
  then have u: "update_padding_scheme md5hex w raw = Inr (w\<lparr> pw_padding := s \<rparr>)"
    by (simp add: update_padding_scheme_def)
  then show ?case using "3.IH" [OF u] "3.prems" s by simp
qed (simp add: carries_Nil)

text \<open>A padding frame longer than a frame can be is cut short by its own length field.\<close>

lemma read_oversized_waste_frame:
  assumes "k = 65536" "m < 65536"
  shows "read_frame (waste_frame (m + k) @ rest) =
           Inr (mk_frame CMD_WASTE 0 (replicate m 0), replicate k 0 @ rest)"
proof -
  have "(of_nat k :: u16) = 0" using assms(1) by simp
  then have "waste_frame (m + k) = encode_frame CMD_WASTE 0 (replicate m 0) @ replicate k 0"
    by (simp add: waste_frame_def encode_frame_def replicate_add)
  then show ?thesis using assms(2) by simp
qed

lemma hex_digit_chars:
  "list_all (\<lambda>c. (of_char c :: nat) < 128 \<and> c \<noteq> CHR 0x0A \<and> c \<noteq> CHR 0x0D) ''0123456789abcdef''"
  by code_simp

definition settings_prefix :: string where
  "settings_prefix = ''v=2'' @ [CHR 0x0A] @ ''client='' @ CLIENT_NAME @ [CHR 0x0A] @ ''padding-md5=''"

lemma settings_prefix_ascii: "list_all (\<lambda>c. (of_char c :: nat) < 128) settings_prefix"
  by code_simp

lemma settings_lines_plain:
  "list_all (\<lambda>l. l \<noteq> [] \<and> CHR 0x0A \<notin> set l \<and> last l \<noteq> CHR 0x0D) [''v=2'', ''client='' @ CLIENT_NAME]"
  "CHR 0x0A \<notin> set ''padding-md5=''" "last ''padding-md5='' \<noteq> CHR 0x0D"
  by code_simp+

lemma ascii_settings_lines:
  assumes "list_all (\<lambda>c. c \<in> set ''0123456789abcdef'') (ps_md5 s)"
  shows "lines (from_utf8_lossy (as_bytes (settings_text s))) =
           [''v=2'', ''client='' @ CLIENT_NAME, ''padding-md5='' @ ps_md5 s]"
proof -
  let ?ls = "[''v=2'', ''client='' @ CLIENT_NAME, ''padding-md5='' @ ps_md5 s]"
  have hex: "(of_char c :: nat) < 128 \<and> c \<noteq> CHR 0x0A \<and> c \<noteq> CHR 0x0D" if "c \<in> set (ps_md5 s)" for c
    using assms that hex_digit_chars unfolding list_all_iff by blast
  have decomp: "settings_text s = settings_prefix @ ps_md5 s"
    by (simp only: settings_text_def settings_prefix_def append_assoc)
  have "valid_str (settings_text s)"
    unfolding decomp by (rule valid_str_ascii)
      (use hex settings_prefix_ascii in \<open>unfold list_all_iff set_append, blast\<close>)
  then have "from_utf8_lossy (as_bytes (settings_text s)) = settings_text s"
    by (simp only: from_utf8_lossy_def valid_str_def utf8_lossy_valid of_bytes_as_bytes)
  moreover have "settings_text s = join_nl ?ls"
    by (simp only: settings_text_def join_nl.simps append_assoc append_Cons append_Nil)
  moreover have "lines (join_nl ?ls) = ?ls"
  proof (rule lines_join_nl)
    have "last (''padding-md5='' @ ps_md5 s) \<noteq> CHR 0x0D"
      using settings_lines_plain(3) hex by (metis append_Nil2 last_appendR last_in_set)
    moreover have "CHR 0x0A \<notin> set (''padding-md5='' @ ps_md5 s)"
      using hex settings_lines_plain(2) unfolding set_append by blast
    ultimately show "\<forall>l \<in> set ?ls. l \<noteq> [] \<and> CHR 0x0A \<notin> set l \<and> last l \<noteq> CHR 0x0D"
      using settings_lines_plain(1)
      by (simp only: list_all_iff list.set ball_simps append_is_Nil_conv list.distinct simp_thms)
  qed
  ultimately show ?thesis by (simp only:)
qed

lemma split_settings_lines:
  "split_once (CHR ''='') ''v=2'' = Some (''v'', ''2'')"
  "split_once (CHR ''='') (''client='' @ CLIENT_NAME) = Some (''client'', CLIENT_NAME)"
  "split_once (CHR ''='') (''padding-md5='' @ x) = Some (''padding-md5'', x)"
proof -
  show "split_once (CHR ''='') ''v=2'' = Some (''v'', ''2'')" by code_simp
  show "split_once (CHR ''='') (''client='' @ CLIENT_NAME) = Some (''client'', CLIENT_NAME)" by code_simp
  have "CHR ''='' \<notin> set ''padding-md5''" by code_simp
  then show "split_once (CHR ''='') (''padding-md5='' @ x) = Some (''padding-md5'', x)"
    by (simp only: split_once_Some_iff append_Cons append_Nil simp_thms)
qed

lemma parse_settings_text:
  assumes "list_all (\<lambda>c. c \<in> set ''0123456789abcdef'') (ps_md5 s)"
  shows "parse_settings (as_bytes (settings_text s)) =
           map_of [(''padding-md5'', ps_md5 s), (''client'', CLIENT_NAME), (''v'', ''2'')]"
proof -
  have "List.map_filter (split_once (CHR ''=''))
      [''v=2'', ''client='' @ CLIENT_NAME, ''padding-md5='' @ ps_md5 s] =
      [(''v'', ''2''), (''client'', CLIENT_NAME), (''padding-md5'', ps_md5 s)]"
    by (simp only: map_filter_simps split_settings_lines option.case)
  then show ?thesis
    unfolding parse_settings_def ascii_settings_lines [OF assms]
    by (simp only: rev.simps append_Nil append_Cons)
qed

text \<open>A list of lines that needs no trimming is parsed line by line.\<close>

lemma from_lines_plain:
  assumes "list_all (\<lambda>l. l \<noteq> [] \<and> CHR 0x0A \<notin> set l \<and> trim l = l) ls"
  shows "from_lines md5hex ls =
     and_then (parse_padding_lines None [] ls) (\<lambda>(stop, rules).
     and_then (ok_or stop Missing) (\<lambda>stop.
     Inr \<lparr> ps_raw = ls, ps_md5 = md5hex (as_bytes (join_nl ls)), ps_stop = stop, ps_rules = rules \<rparr>))"
proof -
  have l: "l \<noteq> [] \<and> CHR 0x0A \<notin> set l \<and> last l \<noteq> CHR 0x0D \<and> trim l = l" if "l \<in> set ls" for l
    using that assms last_trim_not_cr [of l] unfolding list_all_iff by metis
  then have "map trim ls = ls" "filter (\<lambda>l. l \<noteq> []) ls = ls"
    by (simp_all add: map_idI filter_id_conv)
  moreover have "lines (join_nl ls) = ls" using l by (intro lines_join_nl) blast
  ultimately show ?thesis unfolding from_lines_def from_text_def Let_def by simp
qed

lemma default_lines_plain:
  "list_all (\<lambda>l. l \<noteq> [] \<and> CHR 0x0A \<notin> set l \<and> trim l = l) default_lines"
  by code_simp

lemma parse_default_lines:
  "parse_padding_lines None [] default_lines =
     Inr (Some 8, [(0, [PadRange 30 30]), (1, [PadRange 100 400]),
       (2, [PadRange 400 500, PadCheckpoint, PadRange 500 1000, PadCheckpoint, PadRange 500 1000,
            PadCheckpoint, PadRange 500 1000, PadCheckpoint, PadRange 500 1000]),
       (3, [PadRange 9 9, PadRange 500 1000]), (4, [PadRange 500 1000]), (5, [PadRange 500 1000]),
       (6, [PadRange 500 1000]), (7, [PadRange 500 1000])])"
  by (simp add: default_lines_def parse_padding_rule_def parse_uint_def digits_value_def is_digit_def)

lemma read_written_preface:
  assumes "write_auth_preface sha rnd w password = Inr ws" "length (password_hash sha password) = 32"
  shows "read_auth_preface_hash (concat ws @ rest) = Inr (password_hash sha password, rest)"
proof -
  obtain n where n: "preface_padding_len rnd (pw_padding w) = Inr n"
    "concat ws = password_hash sha password @ len_u16 n @ replicate n 0"
    using assms(1) by (auto simp: write_auth_preface_def and_then_Inr_iff split: if_splits)
  then obtain sizes where "n = as_usize (case find (\<lambda>sz. sz \<ge> 0) sizes of None \<Rightarrow> 0 | Some sz \<Rightarrow> sz)"
    "(case find (\<lambda>sz. sz \<ge> 0) sizes of None \<Rightarrow> 0 | Some sz \<Rightarrow> sz) \<le> 65535"
    by (auto simp: preface_padding_len_def Let_def and_then_Inr_iff split: if_splits)
  then have "n \<le> 65535"
    by (cases "find (\<lambda>sz. sz \<ge> 0) sizes") (auto simp: as_usize_small find_Some_iff)
  then show ?thesis
    using read_auth_preface_hash_exact [OF assms(2), of "replicate n 0" rest] n by simp
qed

section \<open>Properties\<close>

text \<open>C2: padding is invisible to the peer. Whatever frames a session writes through the padded
  writer, with whatever randomness, and however it replaces its scheme in between (with
  ranges that fit a frame), the peer reads the stream as frames without error, and dropping
  the WASTE frames, as the peer does, leaves exactly the frames written, in order.\<close>

theorem padded_session_transparent:
  assumes "writer_progress inner" "wire_safe s" "list_all (op_ok md5hex) ops"
  shows "\<exists>ws fs. run_writer md5hex (padded_frame_writer_new inner s) ops = Inr ws \<and>
           decode_n read_frame (length fs) (concat ws @ rest) = Inr (fs, rest) \<and>
           filter (\<lambda>f. frame_cmd f \<noteq> CMD_WASTE) fs = op_frames ops"
proof -
  have "writer_progress (pw_inner (padded_frame_writer_new inner s))"
    "wire_safe (pw_padding (padded_frame_writer_new inner s))"
    using assms by (simp_all add: padded_frame_writer_new_def)
  from run_writer_frames [OF this assms(3)] carries_decode show ?thesis by meson
qed

definition sample_scheme :: padding_scheme where
  "sample_scheme = \<lparr> ps_raw = [''stop=3'', ''1=9-40''], ps_md5 = ''0'', ps_stop = 3,
                     ps_rules = [(1, [PadRange 9 40, PadCheckpoint, PadRange 5 5])] \<rparr>"

theorem padded_session_transparent_witness:
  "\<exists>ws fs. run_writer (\<lambda>_. ''0'') (padded_frame_writer_new one_byte_writer sample_scheme)
             [OpFrame (\<lambda>_. Inr 77) CMD_SETTINGS 0 [1, 2], OpFrame (\<lambda>_. Inr 3) CMD_SYN 1 []] = Inr ws \<and>
           decode_n read_frame (length fs) (concat ws @ []) = Inr (fs, []) \<and>
           filter (\<lambda>f. frame_cmd f \<noteq> CMD_WASTE) fs = [mk_frame CMD_SETTINGS 0 [1, 2], mk_frame CMD_SYN 1 []]"
  using padded_session_transparent [of one_byte_writer sample_scheme "\<lambda>_. ''0''"
      "[OpFrame (\<lambda>_. Inr 77) CMD_SETTINGS 0 [1, 2], OpFrame (\<lambda>_. Inr 3) CMD_SYN 1 []]" "[]"]
  by (simp add: writer_progress_one_byte sample_scheme_def wire_safe_def del: run_writer.simps)

text \<open>C15: a scheme text is accepted only if it is well formed (a positive stop, ranges ordered and
  positive, within \<open>usize\<close>), and the size drawn for a range whose bound fits \<open>isize\<close> lies in
  it: at least the minimum and below the maximum, or equal to both when they coincide.\<close>

theorem padding_sizes_in_range:
  assumes "from_text md5hex raw = Inr s"
  shows "scheme_ok s \<and>
    (\<forall>rnd packet sizes. record_payload_sizes rnd s packet = Inr sizes \<longrightarrow>
       (case find (\<lambda>(index, _). index = packet) (ps_rules s) of
          None \<Rightarrow> sizes = []
        | Some (_, rules) \<Rightarrow> list_all2 (\<lambda>sz r. rule_le (2 ^ 63 - 1) r \<longrightarrow> size_fits sz r) sizes rules))"
  using from_text_ok [OF assms] rule_sizes_fit
  by (auto simp: record_payload_sizes_def split: option.splits)

theorem padding_sizes_in_range_witness:
  "record_payload_sizes (\<lambda>_. Inr 7) \<lparr> ps_raw = default_lines, ps_md5 = ''00'', ps_stop = 8,
       ps_rules = snd (projr (parse_padding_lines None [] default_lines)) \<rparr> 1 = Inr [107]
   \<and> list_all2 size_fits [107] [PadRange 100 400]"
proof -
  let ?s = "\<lparr> ps_raw = default_lines, ps_md5 = ''00'', ps_stop = 8,
       ps_rules = snd (projr (parse_padding_lines None [] default_lines)) \<rparr>"
  have "from_lines (\<lambda>_. ''00'') default_lines = Inr ?s"
    by (simp add: from_lines_plain [OF default_lines_plain] parse_default_lines)
  moreover have "record_payload_sizes (\<lambda>_. Inr 7) ?s 1 = Inr [107]"
    by (simp add: parse_default_lines record_payload_sizes_def as_isize_small)
  ultimately show ?thesis
    using padding_sizes_in_range [of "\<lambda>_. ''00''" _ ?s] unfolding from_lines_def
    by (fastforce simp: parse_default_lines)
qed

text \<open>C16: negotiation of the scheme converges. The text a server sends for its scheme makes the
  client adopt exactly that scheme, and the settings that a client with this scheme announces
  carry the digest the server compares with, so that the server sends no further update.\<close>

theorem scheme_update_converges:
  assumes "from_text md5hex raw = Inr s" "\<forall>bs. list_all (\<lambda>c. c \<in> set ''0123456789abcdef'') (md5hex bs)"
  shows "\<exists>w'. update_padding_scheme md5hex w (raw_text s) = Inr w' \<and> pw_padding w' = s \<and>
           parse_settings (as_bytes (settings_text (pw_padding w'))) ''padding-md5'' = Some (ps_md5 s)"
proof -
  have "ps_md5 s = md5hex (as_bytes (join_nl (ps_raw s)))"
    using assms(1) by (auto simp: from_text_def Let_def and_then_Inr_iff)
  then have "list_all (\<lambda>c. c \<in> set ''0123456789abcdef'') (ps_md5 s)" using assms(2) by simp
  from parse_settings_text [OF this] from_text_raw_text [OF assms(1)]
  show ?thesis by (simp add: update_padding_scheme_def)
qed

theorem scheme_update_converges_witness:
  "\<exists>s w'. from_text (\<lambda>_. ''0f'') (join_nl default_lines) = Inr s \<and>
     update_padding_scheme (\<lambda>_. ''0f'') (padded_frame_writer_new one_byte_writer sample_scheme)
       (raw_text s) = Inr w' \<and> pw_padding w' = s \<and>
     parse_settings (as_bytes (settings_text (pw_padding w'))) ''padding-md5'' = Some (ps_md5 s)"
proof -
  obtain s where "from_lines (\<lambda>_. ''0f'') default_lines = Inr s"
    by (simp add: from_lines_plain [OF default_lines_plain] parse_default_lines)
  then have s: "from_text (\<lambda>_. ''0f'') (join_nl (filter (\<lambda>l. l \<noteq> []) (map trim default_lines))) = Inr s"
    by (simp add: from_lines_def)
  moreover have "filter (\<lambda>l. l \<noteq> []) (map trim default_lines) = default_lines" by code_simp
  ultimately show ?thesis
    using scheme_update_converges [of "\<lambda>_. ''0f''" "join_nl default_lines" s] by auto
qed

text \<open>C17: a scheme may ask for more than a frame can hold, and then the stream is corrupted: with
  \<open>1=70000-70000\<close>, which is accepted, the writer emits a padding frame whose 16-bit length
  field has wrapped around. After it the peer is left in front of 65536 bytes of padding,
  which it will read as frames, instead of the next frame.\<close>

theorem oversized_padding_desynchronises:
  assumes "k = 65536"
  shows "\<exists>s w' ws. from_lines md5hex [''stop=8'', ''1=70000-70000''] = Inr s \<and>
    write_frame_with_flush rnd (padded_frame_writer_new inner s) CMD_SETTINGS 0 [] = Inr (w', ws) \<and>
    decode_n read_frame 2 (concat ws @ rest) =
      Inr ([mk_frame CMD_SETTINGS 0 [], mk_frame CMD_WASTE 0 (replicate 4450 0)], replicate k 0 @ rest)"
proof -
  let ?ls = "[''stop=8'', ''1=70000-70000'']"
  let ?s = "\<lparr> ps_raw = ?ls, ps_md5 = md5hex (as_bytes (join_nl ?ls)), ps_stop = 8,
             ps_rules = [(1, [PadRange 70000 70000])] \<rparr>"
  have "list_all (\<lambda>l. l \<noteq> [] \<and> CHR 0x0A \<notin> set l \<and> trim l = l) ?ls" by code_simp
  moreover have "parse_padding_lines None [] ?ls = Inr (Some 8, [(1, [PadRange 70000 70000])])"
    by (simp add: parse_padding_rule_def parse_uint_def digits_value_def is_digit_def)
  ultimately have s: "from_lines md5hex ?ls = Inr ?s" by (simp add: from_lines_plain)
  let ?w = "padded_frame_writer_new inner ?s"
  have sizes: "record_payload_sizes rnd ?s 1 = Inr [70000]"
    by (simp add: record_payload_sizes_def as_isize_small)
  define m where "m = (4450 :: nat)"
  have "pad_loop [70000] (encode_frame CMD_SETTINGS 0 []) =
      ([], [encode_frame CMD_SETTINGS 0 [] @ waste_frame (m + k)])"
    using assms by (simp add: as_usize_small m_def) (simp add: encode_frame_def)
  with sizes have w: "write_frame_with_flush rnd ?w CMD_SETTINGS 0 [] =
      Inr (?w\<lparr> pw_packet_counter := 1 \<rparr>, [encode_frame CMD_SETTINGS 0 [] @ waste_frame (m + k)])"
    by (simp add: write_frame_with_flush_def write_packet_def padded_frame_writer_new_def
        saturating_inc_def)
  have "decode_n read_frame 2 ((encode_frame CMD_SETTINGS 0 [] @ waste_frame (m + k)) @ rest) =
      Inr ([mk_frame CMD_SETTINGS 0 [], mk_frame CMD_WASTE 0 (replicate m 0)], replicate k 0 @ rest)"
    using read_oversized_waste_frame [OF assms, of m rest] by (simp add: numeral_2_eq_2 m_def)
  with s w show ?thesis unfolding m_def by (intro exI conjI) (assumption, assumption, simp only: concat.simps append_Nil2)
qed

theorem oversized_padding_desynchronises_witness:
  "\<exists>k s w' ws. k = 65536 \<and> from_lines (\<lambda>_. ''0'') [''stop=8'', ''1=70000-70000''] = Inr s \<and>
    write_frame_with_flush (\<lambda>_. Inr 0) (padded_frame_writer_new one_byte_writer s) CMD_SETTINGS 0 []
      = Inr (w', ws) \<and>
    decode_n read_frame 2 (concat ws @ [3]) =
      Inr ([mk_frame CMD_SETTINGS 0 [], mk_frame CMD_WASTE 0 (replicate 4450 0)], replicate k 0 @ [3])"
  using oversized_padding_desynchronises [OF refl, of "\<lambda>_. ''0''" "\<lambda>_. Inr 0" one_byte_writer "[3]"]
  by blast

end
