(* ===== verification/Tables.thy ===== *)
theory Tables
  imports Prelude "HOL-Library.AList"
begin

text \<open>
  Tables that the code keeps in a \<open>HashMap\<close> or \<open>HashSet\<close> and bounds in size: association lists
  and lists, and how inserting and removing changes their length and their entries.
\<close>

lemma length_update_le: "length (AList.update k v al) \<le> Suc (length al)"
  by (induction al) auto

lemma length_update_mem: "k \<in> fst ` set al \<Longrightarrow> length (AList.update k v al) = length al"
  by (induction al) auto

lemma length_delete_le: "length (AList.delete k al) \<le> length al"
  by (simp add: AList.delete_eq)

lemma length_delete_mem: "k \<in> fst ` set al \<Longrightarrow> Suc (length (AList.delete k al)) \<le> length al"
  by (induction al) (auto simp: AList.delete_eq le_imp_less_Suc)

lemma length_removeAll_mem: "x \<in> set xs \<Longrightarrow> Suc (length (removeAll x xs)) \<le> length xs"
  by (induction xs) (auto intro: le_SucI)

lemma length_insert_le: "length (List.insert x xs) \<le> Suc (length xs)"
  by (simp add: List.insert_def)

lemma set_update_iff:
  "e \<in> set (AList.update k v al) \<Longrightarrow> e = (k, v) \<or> e \<in> set al"
  by (induction al) (auto split: if_splits)

lemma set_delete_sub: "e \<in> set (AList.delete k al) \<Longrightarrow> e \<in> set al"
  by (simp add: AList.delete_eq)

lemma length_update:
  "length (AList.update k v al) = (if k \<in> fst ` set al then length al else Suc (length al))"
  by (induction al) auto

lemma keys_delete: "fst ` set (AList.delete k al) = fst ` set al - {k}"
  by (auto simp: AList.delete_eq)

end
