(* ===== verification/ServerSession.thy ===== *)
theory ServerSession
  imports Padding Uot Tables
begin

text \<open>
  The AnyTLS server session (\<open>serve_session\<close> and the streams it opens in \<open>src/src/server.rs\<close>).

  \<^item> The loop is a step function on events: a frame from the client, a tick of the heartbeat, and
    the end of the task of a stream, which closes the receiving end of its channel and triggers
    its abort flag. The step returns the frames written to the client.
  \<^item> A stream is the target its task was started with and the list of payloads sent into its
    channel; waiting for room in the channel has no effect on its content. Removing a stream drops its control, which aborts its task.
  \<^item> \<open>bind\<close> is the outcome of binding and, for a connected association, resolving and connecting
    the UDP socket. TLS, the early data of TLS and the sockets themselves are outside.
\<close>

section \<open>State\<close>

abbreviation (input) "MAX_PENDING_UOT \<equiv> 256 :: nat"
abbreviation (input) "MAX_SESSION_STREAMS \<equiv> 1024 :: nat"
abbreviation (input) "MAX_UOT_BUFFER \<equiv> 65536 :: nat"

record stream_state =
  st_target :: proxy_target
  st_queue :: "bytes list"
  st_open :: bool
  st_aborted :: bool

record server_session =
  sv_received_settings :: bool
  sv_pending :: "u32 list"
  sv_pending_uot :: "(u32 \<times> (proxy_target \<times> bytes)) list"
  sv_streams :: "(u32 \<times> stream_state) list"

definition server_session_new :: server_session where
  "server_session_new =
     \<lparr> sv_received_settings = False, sv_pending = [], sv_pending_uot = [], sv_streams = [] \<rparr>"

datatype server_event = FrameIn frame | HeartbeatTick | TaskEnded u32

datatype session_outcome = Next server_session "frame list" | Closed rust_error "frame list"

section \<open>Opening streams\<close>

definition new_stream :: "proxy_target \<Rightarrow> bytes \<Rightarrow> stream_state" where
  "new_stream target initial =
     \<lparr> st_target = target, st_queue = (if initial \<noteq> [] then [initial] else []), st_open = True, st_aborted = False \<rparr>"

definition open_uot_stream ::
  "(uot_request \<Rightarrow> unit result) \<Rightarrow> u32 \<Rightarrow> proxy_target \<Rightarrow> bytes \<Rightarrow> (stream_state \<times> frame list) result" where
  "open_uot_stream bind stream_id target initial =
     and_then (decode_request_for_target target initial) (\<lambda>(request, initial_packet).
     and_then (bind request) (\<lambda>_.
     Inr (new_stream (ur_destination request) initial_packet, [mk_frame CMD_SYNACK stream_id []])))"

definition open_stream ::
  "(uot_request \<Rightarrow> unit result) \<Rightarrow> u32 \<Rightarrow> bytes \<Rightarrow> (stream_state \<times> frame list) result" where
  "open_stream bind stream_id payload =
     and_then (decode_target payload) (\<lambda>(target, initial).
     if is_magic_target target then open_uot_stream bind stream_id target initial
     else Inr (new_stream target initial, []))"

section \<open>Frames\<close>

definition insert_opened ::
  "(uot_request \<Rightarrow> unit result) \<Rightarrow> u32 \<Rightarrow> bytes \<Rightarrow> server_session \<Rightarrow> session_outcome" where
  "insert_opened bind stream_id payload s =
     (case open_stream bind stream_id payload of
        Inl _ \<Rightarrow> Next s []
      | Inr (st, out) \<Rightarrow> Next (s\<lparr> sv_streams := AList.update stream_id st (sv_streams s) \<rparr>) out)"

definition on_syn :: "server_session \<Rightarrow> u32 \<Rightarrow> session_outcome" where
  "on_syn s stream_id =
     (if \<not> length (sv_streams s) + length (sv_pending s) + length (sv_pending_uot s) < MAX_SESSION_STREAMS
      then Closed LimitExceeded []
      else if \<not> sv_received_settings s
      then Closed Rejected [mk_frame CMD_ALERT 0 (as_bytes ''client did not send settings'')]
      else Next (s\<lparr> sv_pending := List.insert stream_id (sv_pending s) \<rparr>) [])"

definition on_stream_data :: "server_session \<Rightarrow> u32 \<Rightarrow> bytes \<Rightarrow> stream_state \<Rightarrow> session_outcome" where
  "on_stream_data s stream_id payload st =
     (if st_open st
      then Next (s\<lparr> sv_streams := AList.update stream_id (st\<lparr> st_queue := st_queue st @ [payload] \<rparr>)
                       (sv_streams s) \<rparr>) []
      else Next (s\<lparr> sv_streams := AList.delete stream_id (sv_streams s) \<rparr>) [])"

definition on_uot_data ::
  "(uot_request \<Rightarrow> unit result) \<Rightarrow> server_session \<Rightarrow> u32 \<Rightarrow> bytes \<Rightarrow> proxy_target \<times> bytes \<Rightarrow>
     session_outcome" where
  "on_uot_data bind s stream_id data entry =
     (if \<not> length (snd entry) + length data \<le> MAX_UOT_BUFFER then Closed LimitExceeded []
      else
        let payload = snd entry @ data in
        case v2_request_complete payload of
          Inl e \<Rightarrow> Closed e []
        | Inr False \<Rightarrow>
            Next (s\<lparr> sv_pending_uot := AList.update stream_id (fst entry, payload) (sv_pending_uot s) \<rparr>) []
        | Inr True \<Rightarrow>
            (let s = s\<lparr> sv_pending_uot := AList.delete stream_id (sv_pending_uot s) \<rparr> in
             case encode_target (fst entry) of
               Inl e \<Rightarrow> Closed e []
             | Inr t \<Rightarrow> insert_opened bind stream_id (t @ payload) s))"

definition on_first_data ::
  "(uot_request \<Rightarrow> unit result) \<Rightarrow> server_session \<Rightarrow> u32 \<Rightarrow> bytes \<Rightarrow> session_outcome" where
  "on_first_data bind s stream_id payload =
     (let s = s\<lparr> sv_pending := removeAll stream_id (sv_pending s) \<rparr> in
      case decode_target payload of
        Inl e \<Rightarrow> Closed e []
      | Inr (target, initial) \<Rightarrow>
          (if is_magic_target target \<and> \<not> is_legacy_magic_target target
           then (case v2_request_complete initial of
                   Inl e \<Rightarrow> Closed e []
                 | Inr False \<Rightarrow>
                     (let s = s\<lparr> sv_pending_uot := AList.update stream_id (target, initial) (sv_pending_uot s) \<rparr> in
                      if \<not> length (sv_pending_uot s) \<le> MAX_PENDING_UOT then Closed LimitExceeded []
                      else Next s [])
                 | Inr True \<Rightarrow> insert_opened bind stream_id payload s)
           else insert_opened bind stream_id payload s))"

definition on_settings :: "padding_scheme \<Rightarrow> server_session \<Rightarrow> bytes \<Rightarrow> session_outcome" where
  "on_settings padding s payload =
     (let s = s\<lparr> sv_received_settings := True \<rparr>;
          server_settings = mk_frame CMD_SERVER_SETTINGS 0 (as_bytes ''v=2'') in
      if parse_settings payload ''padding-md5'' \<noteq> Some (ps_md5 padding)
      then (if \<not> length (raw_text padding) \<le> MAX_FRAME_PAYLOAD_LEN then Closed TooLong []
            else Next s [mk_frame CMD_UPDATE_PADDING_SCHEME 0 (as_bytes (raw_text padding)), server_settings])
      else Next s [server_settings])"

text \<open>The \<open>match\<close> on the command, its guards in order.\<close>

definition serve_frame ::
  "(uot_request \<Rightarrow> unit result) \<Rightarrow> padding_scheme \<Rightarrow> server_session \<Rightarrow> frame \<Rightarrow> session_outcome" where
  "serve_frame bind padding s f =
     (let cmd = frame_cmd f; stream_id = frame_stream_id f; payload = frame_payload f in
      if cmd = CMD_SYN then on_syn s stream_id
      else if cmd = CMD_PSH then
        (case map_of (sv_streams s) stream_id of
           Some st \<Rightarrow> on_stream_data s stream_id payload st
         | None \<Rightarrow>
             (case map_of (sv_pending_uot s) stream_id of
                Some entry \<Rightarrow> on_uot_data bind s stream_id payload entry
              | None \<Rightarrow>
                  (if stream_id \<in> set (sv_pending s) then on_first_data bind s stream_id payload
                   else Next s [])))
      else if cmd = CMD_FIN then
        Next (s\<lparr> sv_streams := AList.delete stream_id (sv_streams s),
                 sv_pending := removeAll stream_id (sv_pending s),
                 sv_pending_uot := AList.delete stream_id (sv_pending_uot s) \<rparr>) []
      else if cmd = CMD_HEART_REQUEST then Next s [mk_frame CMD_HEART_RESPONSE stream_id []]
      else if cmd = CMD_SETTINGS then on_settings padding s payload
      else if cmd = CMD_ALERT then Closed Rejected []
      else Next s [])"

section \<open>The loop\<close>

definition heartbeat :: "server_session \<Rightarrow> session_outcome" where
  "heartbeat s =
     (let s = s\<lparr> sv_streams := filter (\<lambda>(_, st). \<not> st_aborted st) (sv_streams s) \<rparr> in
      Next s (if sv_received_settings s then [mk_frame CMD_HEART_REQUEST 0 []] else []))"

definition task_ended :: "u32 \<Rightarrow> server_session \<Rightarrow> server_session" where
  "task_ended stream_id s =
     (case map_of (sv_streams s) stream_id of
        None \<Rightarrow> s
      | Some st \<Rightarrow>
          s\<lparr> sv_streams := AList.update stream_id (st\<lparr> st_open := False, st_aborted := True \<rparr>) (sv_streams s) \<rparr>)"

fun server_step ::
  "(uot_request \<Rightarrow> unit result) \<Rightarrow> padding_scheme \<Rightarrow> server_session \<Rightarrow> server_event \<Rightarrow> session_outcome" where
  "server_step bind padding s (FrameIn f) = serve_frame bind padding s f"
| "server_step bind padding s HeartbeatTick = heartbeat s"
| "server_step bind padding s (TaskEnded stream_id) = Next (task_ended stream_id s) []"

text \<open>The session over a sequence of events: what was written and how it ended, if it did.\<close>

fun serve_session ::
  "(uot_request \<Rightarrow> unit result) \<Rightarrow> padding_scheme \<Rightarrow> server_session \<Rightarrow> server_event list \<Rightarrow>
     frame list \<times> (rust_error + server_session)" where
  "serve_session bind padding s [] = ([], Inr s)"
| "serve_session bind padding s (ev # evs) =
     (case server_step bind padding s ev of
        Closed e out \<Rightarrow> (out, Inl e)
      | Next s' out \<Rightarrow>
          (case serve_session bind padding s' evs of (out', r) \<Rightarrow> (out @ out', r)))"

section \<open>The tasks of a stream\<close>

text \<open>
  What the tasks write, over the reads from the target or the payloads from the channel, each
  with the outcome of its traffic accounting. \<open>None\<close>: still running.
\<close>

definition payload_frames :: "u32 \<Rightarrow> bytes \<Rightarrow> frame list" where
  "payload_frames stream_id payload = map (mk_frame CMD_PSH stream_id) (chunks MAX_FRAME_PAYLOAD_LEN payload)"

fun tcp_downlink :: "u32 \<Rightarrow> (bytes \<times> unit result) list \<Rightarrow> frame list \<times> unit result option" where
  "tcp_downlink stream_id [] = ([], None)"
| "tcp_downlink stream_id ((data, recorded) # reads) =
     (if data = [] then ([mk_frame CMD_FIN stream_id []], Some (Inr ()))
      else case recorded of
        Inl e \<Rightarrow> ([], Some (Inl e))
      | Inr _ \<Rightarrow>
          (case tcp_downlink stream_id reads of
             (out, r) \<Rightarrow> (payload_frames stream_id data @ out, r)))"

fun tcp_uplink :: "(bytes \<times> unit result) list \<Rightarrow> bytes \<times> unit result option" where
  "tcp_uplink [] = ([], None)"
| "tcp_uplink ((payload, recorded) # payloads) =
     (case recorded of
        Inl e \<Rightarrow> ([], Some (Inl e))
      | Inr _ \<Rightarrow> (case tcp_uplink payloads of (written, r) \<Rightarrow> (payload @ written, r)))"

definition run_tcp_stream ::
  "u32 \<Rightarrow> string + unit \<Rightarrow> (bytes \<times> unit result) list \<Rightarrow> frame list" where
  "run_tcp_stream stream_id dialled reads =
     (case dialled of
        Inl error \<Rightarrow> [mk_frame CMD_SYNACK stream_id (as_bytes error)]
      | Inr _ \<Rightarrow> mk_frame CMD_SYNACK stream_id [] # fst (tcp_downlink stream_id reads))"

text \<open>One payload of the UOT uplink: the datagrams it completes and the new buffer.\<close>

definition uot_uplink_step ::
  "uot_request \<Rightarrow> bytes \<Rightarrow> bytes \<Rightarrow> ((proxy_target \<times> bytes \<times> bool) list \<times> bytes) result option" where
  "uot_uplink_step request pending packet =
     (if \<not> length pending + length packet \<le> MAX_UOT_BUFFER then Some (Inl LimitExceeded)
      else drain (take_stream_packet request) (pending @ packet))"

text \<open>The loop of the uplink over the payloads that arrive on the channel of the stream: the
  datagrams it hands to the socket, in order, and what is left in the buffer.\<close>

fun uot_uplink ::
  "uot_request \<Rightarrow> bytes \<Rightarrow> bytes list \<Rightarrow> ((proxy_target \<times> bytes \<times> bool) list \<times> bytes) result option" where
  "uot_uplink request pending [] = Some (Inr ([], pending))"
| "uot_uplink request pending (packet # packets) =
     Option.bind (uot_uplink_step request pending packet)
       (\<lambda>r. case r of
          Inl e \<Rightarrow> Some (Inl e)
        | Inr (sent, pending) \<Rightarrow>
            Option.bind (uot_uplink request pending packets)
              (\<lambda>r. Some (and_then r (\<lambda>(more, rest). Inr (sent @ more, rest)))))"

definition uot_downlink_step ::
  "u32 \<Rightarrow> bool \<Rightarrow> socket_addr \<Rightarrow> bytes \<Rightarrow> unit result \<Rightarrow> frame list result" where
  "uot_downlink_step stream_id is_connect source data recorded =
     and_then (if is_connect then encode_connect_packet data
               else encode_associate_packet (Ip source) data) (\<lambda>packet.
     and_then recorded (\<lambda>_. Inr (payload_frames stream_id packet)))"

section \<open>Invariant\<close>

definition session_load :: "server_session \<Rightarrow> nat" where
  "session_load s = length (sv_streams s) + length (sv_pending s) + length (sv_pending_uot s)"

text \<open>A request that is still incomplete is short.\<close>

lemma incomplete_request_short: "v2_request_complete buf = Inr False \<Longrightarrow> length buf < 260"
  using unat_u8_le [of "buf ! 2"]
  by (auto simp: v2_request_complete_def v2_request_len_def split: if_splits)

definition uot_entry_ok :: "proxy_target \<times> bytes \<Rightarrow> bool" where
  "uot_entry_ok e \<longleftrightarrow> v2_request_complete (snd e) = Inr False"

definition session_ok :: "server_session \<Rightarrow> bool" where
  "session_ok s \<longleftrightarrow>
     session_load s \<le> MAX_SESSION_STREAMS \<and> length (sv_pending_uot s) \<le> MAX_PENDING_UOT \<and>
     (\<forall>(i, e) \<in> set (sv_pending_uot s). uot_entry_ok e) \<and>
     (sv_received_settings s \<or> session_load s = 0)"

lemma session_ok_new: "session_ok server_session_new"
  by (simp add: session_ok_def server_session_new_def session_load_def)

text \<open>A stream is added for one that leaves a table.\<close>

lemma insert_opened_ok:
  assumes "session_load s < MAX_SESSION_STREAMS" "length (sv_pending_uot s) \<le> MAX_PENDING_UOT"
    "\<forall>(i, e) \<in> set (sv_pending_uot s). uot_entry_ok e" "sv_received_settings s"
    "insert_opened bind stream_id payload s = Next s' out"
  shows "session_ok s'"
proof (cases "open_stream bind stream_id payload")
  case (Inl e)
  then show ?thesis using assms by (simp add: insert_opened_def session_ok_def)
next
  case (Inr r)
  then have "s' = s\<lparr> sv_streams := AList.update stream_id (fst r) (sv_streams s) \<rparr>"
    using assms(5) by (simp add: insert_opened_def split: prod.splits)
  then show ?thesis
    using assms(1-4) length_update_le [of stream_id "fst r" "sv_streams s"]
    by (simp add: session_ok_def session_load_def)
qed

lemma settings_of_load: "session_ok s \<Longrightarrow> 0 < session_load s \<Longrightarrow> sv_received_settings s"
  by (auto simp: session_ok_def)

lemma on_syn_ok: "session_ok s \<Longrightarrow> on_syn s i = Next s' out \<Longrightarrow> session_ok s'"
  using length_insert_le [of i "sv_pending s"]
  by (auto simp: on_syn_def session_ok_def session_load_def split: if_splits)

lemma on_stream_data_ok:
  assumes "session_ok s" "map_of (sv_streams s) i = Some st" "on_stream_data s i payload st = Next s' out"
  shows "session_ok s'"
proof -
  have i: "i \<in> fst ` set (sv_streams s)" using assms(2) by (force dest: map_of_SomeD)
  then have "sv_received_settings s"
    using settings_of_load [OF assms(1)] by (cases "sv_streams s") (auto simp: session_load_def)
  then show ?thesis
    using assms(1,3) length_update_mem [OF i] length_delete_le [of i "sv_streams s"]
    by (auto simp: on_stream_data_def session_ok_def session_load_def split: if_splits)
qed

lemma on_uot_data_ok:
  assumes "session_ok s" "map_of (sv_pending_uot s) i = Some entry" "on_uot_data bind s i data entry = Next s' out"
  shows "session_ok s'"
proof -
  have i: "i \<in> fst ` set (sv_pending_uot s)" using assms(2) by (force dest: map_of_SomeD)
  then have settings: "sv_received_settings s"
    using settings_of_load [OF assms(1)] by (cases "sv_pending_uot s") (auto simp: session_load_def)
  let ?p = "snd entry @ data"
  let ?s = "s\<lparr> sv_pending_uot := AList.delete i (sv_pending_uot s) \<rparr>"
  have del: "Suc (length (AList.delete i (sv_pending_uot s))) \<le> length (sv_pending_uot s)"
    by (rule length_delete_mem [OF i])
  show ?thesis
  proof (cases "v2_request_complete ?p")
    case (Inr b)
    show ?thesis
    proof (cases b)
      case True
      then obtain t where "insert_opened bind i (t @ ?p) ?s = Next s' out"
        using assms(3) Inr by (auto simp: on_uot_data_def Let_def split: if_splits sum.splits)
      then show ?thesis
        by (rule insert_opened_ok [rotated 4])
           (use assms(1) del settings set_delete_sub in \<open>force simp: session_ok_def session_load_def\<close>)+
    next
      case False
      then have "s' = s\<lparr> sv_pending_uot := AList.update i (fst entry, ?p) (sv_pending_uot s) \<rparr>"
        using assms(3) Inr by (auto simp: on_uot_data_def Let_def split: if_splits)
      moreover have "uot_entry_ok (fst entry, ?p)" using Inr False by (simp add: uot_entry_ok_def)
      ultimately show ?thesis
        using assms(1) settings length_update_mem [OF i] set_update_iff
        by (fastforce simp: session_ok_def session_load_def)
    qed
  qed (use assms(3) in \<open>simp add: on_uot_data_def Let_def split: if_splits\<close>)
qed

lemma on_first_data_ok:
  assumes "session_ok s" "i \<in> set (sv_pending s)" "on_first_data bind s i payload = Next s' out"
  shows "session_ok s'"
proof -
  have settings: "sv_received_settings s"
    using settings_of_load [OF assms(1)] assms(2) by (cases "sv_pending s") (auto simp: session_load_def)
  let ?s = "s\<lparr> sv_pending := removeAll i (sv_pending s) \<rparr>"
  have rem: "Suc (length (removeAll i (sv_pending s))) \<le> length (sv_pending s)"
    by (rule length_removeAll_mem [OF assms(2)])
  have opened: "session_ok s'" if "insert_opened bind i payload ?s = Next s' out"
    using that
    by (rule insert_opened_ok [rotated 4])
       (use assms(1) rem settings in \<open>simp_all add: session_ok_def session_load_def\<close>)
  obtain target initial where d: "decode_target payload = Inr (target, initial)"
    using assms(3) by (auto simp: on_first_data_def Let_def split: sum.splits)
  show ?thesis
  proof (cases "is_magic_target target \<and> \<not> is_legacy_magic_target target \<and> v2_request_complete initial = Inr False")
    case True
    then have s': "s' = ?s\<lparr> sv_pending_uot := AList.update i (target, initial) (sv_pending_uot s) \<rparr>"
      and len: "length (AList.update i (target, initial) (sv_pending_uot s)) \<le> MAX_PENDING_UOT"
      using assms(3) d by (auto simp: on_first_data_def Let_def split: if_splits)
    have "uot_entry_ok (target, initial)" using True by (simp add: uot_entry_ok_def)
    then show ?thesis
      using assms(1) settings len rem length_update_le [of i "(target, initial)" "sv_pending_uot s"] set_update_iff
      unfolding s' by (fastforce simp: session_ok_def session_load_def)
  next
    case False
    then show ?thesis
      using assms(3) d opened by (auto simp: on_first_data_def Let_def split: if_splits sum.splits bool.splits)
  qed
qed

lemma removals_ok:
  assumes "session_ok s" "length (sv_streams s') \<le> length (sv_streams s)"
    "length (sv_pending s') \<le> length (sv_pending s)"
    "length (sv_pending_uot s') \<le> length (sv_pending_uot s)" "set (sv_pending_uot s') \<subseteq> set (sv_pending_uot s)"
    "sv_received_settings s' = sv_received_settings s"
  shows "session_ok s'"
  using assms by (auto simp: session_ok_def session_load_def)

text \<open>The arms of the \<open>match\<close>.\<close>

lemma serve_frame_cases:
  assumes "serve_frame bind padding s f = Next s' out"
  obtains (syn) "frame_cmd f = CMD_SYN" "on_syn s (frame_stream_id f) = Next s' out"
  | (stream) st where "frame_cmd f = CMD_PSH" "map_of (sv_streams s) (frame_stream_id f) = Some st"
      "on_stream_data s (frame_stream_id f) (frame_payload f) st = Next s' out"
  | (uot) entry where "frame_cmd f = CMD_PSH" "map_of (sv_streams s) (frame_stream_id f) = None"
      "map_of (sv_pending_uot s) (frame_stream_id f) = Some entry"
      "on_uot_data bind s (frame_stream_id f) (frame_payload f) entry = Next s' out"
  | (first) "frame_cmd f = CMD_PSH" "map_of (sv_streams s) (frame_stream_id f) = None"
      "frame_stream_id f \<in> set (sv_pending s)"
      "on_first_data bind s (frame_stream_id f) (frame_payload f) = Next s' out"
  | (fin) "frame_cmd f = CMD_FIN"
      "s' = s\<lparr> sv_streams := AList.delete (frame_stream_id f) (sv_streams s),
               sv_pending := removeAll (frame_stream_id f) (sv_pending s),
               sv_pending_uot := AList.delete (frame_stream_id f) (sv_pending_uot s) \<rparr>"
  | (settings) "frame_cmd f = CMD_SETTINGS" "on_settings padding s (frame_payload f) = Next s' out"
  | (idle) "s' = s" "frame_cmd f \<noteq> CMD_PSH \<or> map_of (sv_streams s) (frame_stream_id f) = None"
proof -
  consider "frame_cmd f = CMD_SYN" | "frame_cmd f = CMD_PSH" | "frame_cmd f = CMD_FIN"
    | "frame_cmd f = CMD_SETTINGS"
    | "frame_cmd f \<noteq> CMD_SYN" "frame_cmd f \<noteq> CMD_PSH" "frame_cmd f \<noteq> CMD_FIN" "frame_cmd f \<noteq> CMD_SETTINGS"
    by argo
  then show thesis
  proof cases
    case 1
    then show ?thesis using assms syn by (simp add: serve_frame_def)
  next
    case 2
    show ?thesis
    proof (cases "map_of (sv_streams s) (frame_stream_id f)")
      case (Some st)
      then show ?thesis using 2 assms stream by (simp add: serve_frame_def)
    next
      case None
      show ?thesis
      proof (cases "map_of (sv_pending_uot s) (frame_stream_id f)")
        case (Some entry)
        then show ?thesis using 2 None assms uot by (simp add: serve_frame_def)
      next
        case none: None
        show ?thesis
        proof (cases "frame_stream_id f \<in> set (sv_pending s)")
          case True
          then show ?thesis using 2 None none assms first by (simp add: serve_frame_def)
        next
          case False
          then have "s' = s" using 2 None none assms by (simp add: serve_frame_def)
          then show ?thesis using None idle by simp
        qed
      qed
    qed
  next
    case 3
    then show ?thesis using assms fin by (simp add: serve_frame_def Let_def)
  next
    case 4
    then show ?thesis using assms settings by (simp add: serve_frame_def)
  next
    case 5
    then have "s' = s" using assms by (simp add: serve_frame_def Let_def split: if_splits)
    then show ?thesis using 5 idle by simp
  qed
qed

lemma serve_frame_ok:
  assumes "session_ok s" "serve_frame bind padding s f = Next s' out"
  shows "session_ok s'"
  using assms(2)
proof (cases rule: serve_frame_cases)
  case syn
  then show ?thesis using assms(1) on_syn_ok by blast
next
  case (stream st)
  then show ?thesis using assms(1) on_stream_data_ok by blast
next
  case (uot entry)
  then show ?thesis using assms(1) on_uot_data_ok by blast
next
  case first
  then show ?thesis using assms(1) on_first_data_ok by blast
next
  case fin
  have "set (AList.delete i (sv_pending_uot s)) \<subseteq> set (sv_pending_uot s)" for i
    by (auto simp: AList.delete_eq)
  then show ?thesis
    by (intro removals_ok [OF assms(1)]) (simp_all add: fin length_delete_le)
next
  case settings
  then show ?thesis
    using assms(1) by (auto simp: on_settings_def Let_def session_ok_def session_load_def split: if_splits)
next
  case idle
  then show ?thesis using assms(1) by simp
qed

lemma server_step_ok:
  assumes "session_ok s" "server_step bind padding s ev = Next s' out"
  shows "session_ok s'"
proof (cases ev)
  case (FrameIn f)
  then show ?thesis using assms serve_frame_ok by simp
next
  case HeartbeatTick
  then show ?thesis using assms(2) by (intro removals_ok [OF assms(1)]) (auto simp: heartbeat_def Let_def)
next
  case (TaskEnded i)
  have "length (sv_streams (task_ended i s)) = length (sv_streams s)"
    by (auto simp: task_ended_def split: option.split dest!: map_of_SomeD intro!: length_update_mem image_eqI [of i fst])
  moreover have "sv_pending (task_ended i s) = sv_pending s" "sv_pending_uot (task_ended i s) = sv_pending_uot s"
    "sv_received_settings (task_ended i s) = sv_received_settings s"
    by (simp_all add: task_ended_def split: option.split)
  ultimately show ?thesis using assms TaskEnded by (intro removals_ok [OF assms(1)]) auto
qed

interpretation server_world: step_invariant
  "\<lambda>s. s = server_session_new" "\<lambda>s s'. \<exists>ev out. server_step bind padding s ev = Next s' out" session_ok
  for bind padding
  by unfold_locales (auto simp: session_ok_new intro: server_step_ok)

section \<open>Lemmas: one stream\<close>

fun stream_payloads :: "u32 \<Rightarrow> server_event list \<Rightarrow> bytes list" where
  "stream_payloads i [] = []"
| "stream_payloads i (FrameIn f # evs) =
     (if frame_cmd f = CMD_PSH \<and> frame_stream_id f = i then [frame_payload f] else []) @ stream_payloads i evs"
| "stream_payloads i (_ # evs) = stream_payloads i evs"

definition leaves_stream :: "u32 \<Rightarrow> server_event \<Rightarrow> bool" where
  "leaves_stream i ev \<longleftrightarrow>
     ev \<noteq> TaskEnded i \<and> (\<forall>f. ev = FrameIn f \<longrightarrow> \<not> (frame_cmd f = CMD_FIN \<and> frame_stream_id f = i))"

lemma insert_opened_other:
  "insert_opened bind j payload s = Next s' out \<Longrightarrow> j \<noteq> i \<Longrightarrow> map_of (sv_streams s') i = map_of (sv_streams s) i"
  by (auto simp: insert_opened_def update_conv' split: sum.splits prod.splits)

lemma server_step_stream:
  assumes "map_of (sv_streams s) i = Some st" "st_open st" "\<not> st_aborted st" "leaves_stream i ev"
    "distinct (map fst (sv_streams s))" "server_step bind padding s ev = Next s' out"
  shows "map_of (sv_streams s') i = Some (st\<lparr> st_queue := st_queue st @ stream_payloads i [ev] \<rparr>)"
proof (cases ev)
  case HeartbeatTick
  have "map_of (filter (\<lambda>(_, st). \<not> st_aborted st) (sv_streams s)) i = Some st"
    using assms(1,3,5) by (simp add: distinct_map_filter map_of_eq_Some_iff [of "filter _ _"])
  then show ?thesis using HeartbeatTick assms(6) by (auto simp: heartbeat_def Let_def)
next
  case (TaskEnded j)
  then have "j \<noteq> i" using assms(4) by (auto simp: leaves_stream_def)
  then show ?thesis
    using TaskEnded assms(1,6) by (auto simp: task_ended_def update_conv' split: option.splits)
next
  case (FrameIn f)
  have "serve_frame bind padding s f = Next s' out" using assms(6) FrameIn by simp
  then show ?thesis
  proof (cases rule: serve_frame_cases)
    case syn
    then show ?thesis using assms(1) FrameIn by (auto simp: on_syn_def split: if_splits)
  next
    case (stream st')
    then show ?thesis
      using assms(1,2) FrameIn
      by (cases "frame_stream_id f = i")
         (auto simp: on_stream_data_def update_conv' delete_conv' split: if_splits)
  next
    case (uot entry)
    then have "frame_stream_id f \<noteq> i" using assms(1) by auto
    then show ?thesis
      using uot assms(1) FrameIn insert_opened_other
      by (auto simp: on_uot_data_def Let_def split: if_splits sum.splits bool.splits)
  next
    case first
    then have "frame_stream_id f \<noteq> i" using assms(1) by auto
    then show ?thesis
      using first assms(1) FrameIn insert_opened_other
      by (auto simp: on_first_data_def Let_def split: if_splits sum.splits bool.splits)
  next
    case fin
    then have "frame_stream_id f \<noteq> i" using assms(4) FrameIn by (auto simp: leaves_stream_def)
    then show ?thesis using fin assms(1) FrameIn by (simp add: delete_conv')
  next
    case settings
    then show ?thesis using assms(1) FrameIn by (auto simp: on_settings_def Let_def split: if_splits)
  next
    case idle
    then show ?thesis using assms(1) FrameIn by auto
  qed
qed

lemma insert_opened_distinct:
  "insert_opened bind j payload s = Next s' out \<Longrightarrow> distinct (map fst (sv_streams s)) \<Longrightarrow>
     distinct (map fst (sv_streams s'))"
  by (auto simp: insert_opened_def distinct_update split: sum.splits prod.splits)

lemma serve_frame_distinct:
  assumes "distinct (map fst (sv_streams s))" "serve_frame bind padding s f = Next s' out"
  shows "distinct (map fst (sv_streams s'))"
  using assms(2)
proof (cases rule: serve_frame_cases)
  case syn
  then show ?thesis using assms(1) by (auto simp: on_syn_def split: if_splits)
next
  case (stream st)
  then show ?thesis
    using assms(1) by (auto simp: on_stream_data_def distinct_update distinct_delete split: if_splits)
next
  case (uot entry)
  then show ?thesis
    using assms(1) insert_opened_distinct
    by (auto simp: on_uot_data_def Let_def split: if_splits sum.splits bool.splits)
next
  case first
  then show ?thesis
    using assms(1) insert_opened_distinct
    by (auto simp: on_first_data_def Let_def split: if_splits sum.splits bool.splits)
next
  case fin
  then show ?thesis using assms(1) by (simp add: distinct_delete)
next
  case settings
  then show ?thesis using assms(1) by (auto simp: on_settings_def Let_def split: if_splits)
next
  case idle
  then show ?thesis using assms(1) by simp
qed

lemma server_step_distinct:
  assumes "distinct (map fst (sv_streams s))" "server_step bind padding s ev = Next s' out"
  shows "distinct (map fst (sv_streams s'))"
proof (cases ev)
  case (FrameIn f)
  then show ?thesis using assms serve_frame_distinct by simp
next
  case HeartbeatTick
  then show ?thesis using assms by (auto simp: heartbeat_def Let_def distinct_map_filter)
next
  case (TaskEnded i)
  then show ?thesis using assms by (auto simp: task_ended_def distinct_update split: option.splits)
qed

lemma stream_payloads_Cons: "stream_payloads i (ev # evs) = stream_payloads i [ev] @ stream_payloads i evs"
  by (cases ev) simp_all

section \<open>Lemmas: the datagram loop\<close>

lemma packet_len_pos:
  "connect_packet_len p = Inr (Some n) \<Longrightarrow> 2 \<le> n" "associate_packet_len p = Inr (Some n) \<Longrightarrow> 2 \<le> n"
  by (auto simp: connect_packet_len_def associate_packet_len_def and_then_Inr_iff
      split: if_splits option.splits)

lemma take_stream_packet_shrinks:
  assumes "take_stream_packet request pending = Inr (Some (x, rest))"
  shows "length rest < length pending"
proof (cases "ur_is_connect request")
  case True
  then obtain n where "connect_packet_len pending = Inr (Some n)" "n \<le> length pending" "rest = drop n pending"
    using assms by (auto simp: take_stream_packet_def and_then_Inr_iff split: if_splits option.splits)
  then show ?thesis using packet_len_pos(1) [of pending n] by simp
next
  case False
  then obtain n where "associate_packet_len pending = Inr (Some n)" "n \<le> length pending" "rest = drop n pending"
    using assms by (auto simp: take_stream_packet_def and_then_Inr_iff split: if_splits option.splits)
  then show ?thesis using packet_len_pos(2) [of pending n] by simp
qed

lemma drain_terminates:
  assumes "\<And>p x q. tk p = Inr (Some (x, q)) \<Longrightarrow> length q < length p"
  shows "\<exists>r. drain tk p = Some r"
proof (induction p rule: measure_induct_rule [of length])
  case (less p)
  show ?case
  proof (cases "tk p")
    case (Inl e)
    then show ?thesis by (subst drain.simps) simp
  next
    case (Inr r)
    show ?thesis
    proof (cases r)
      case None
      then show ?thesis using Inr by (subst drain.simps) simp
    next
      case (Some v)
      then have "length (snd v) < length p" using assms [of p "fst v" "snd v"] Inr by simp
      then obtain r' where "drain tk (snd v) = Some r'" using less by blast
      then show ?thesis using Inr Some by (subst drain.simps) simp
    qed
  qed
qed

section \<open>Properties\<close>

text \<open>C7: a client cannot make a session hold more than its budget. In every state that a session
  can reach, whatever the client sends and whenever tasks end, the streams, the streams waiting
  for their first data and the waiting UDP associations are at most 1024 together, at most 256
  of them are UDP associations, each of these buffers fewer than 260 bytes of a request that is
  still incomplete, and nothing at all is open before the client has sent its settings.\<close>

theorem server_session_bounded:
  assumes "reachable (\<lambda>s. s = server_session_new)
      (\<lambda>s s'. \<exists>ev out. server_step bind padding s ev = Next s' out) s"
  shows "length (sv_streams s) + length (sv_pending s) + length (sv_pending_uot s) \<le> MAX_SESSION_STREAMS \<and>
    length (sv_pending_uot s) \<le> MAX_PENDING_UOT \<and>
    (\<forall>(i, target, buffer) \<in> set (sv_pending_uot s). length buffer < 260) \<and>
    (sv_received_settings s \<or> sv_streams s = [] \<and> sv_pending s = [] \<and> sv_pending_uot s = [])"
proof -
  have ok: "session_ok s" by (rule server_world.reachable_inv [OF assms])
  have "length buffer < 260" if "(i, target, buffer) \<in> set (sv_pending_uot s)" for i target buffer
  proof -
    have "uot_entry_ok (target, buffer)" using ok that by (auto simp: session_ok_def)
    then show ?thesis using incomplete_request_short by (simp add: uot_entry_ok_def)
  qed
  then show ?thesis using ok by (auto simp: session_ok_def session_load_def)
qed

theorem server_session_bounded_witness:
  "\<exists>s :: server_session. sv_received_settings s \<and> sv_pending s = [7] \<and>
     length (sv_streams s) + length (sv_pending s) + length (sv_pending_uot s) \<le> MAX_SESSION_STREAMS"
proof -
  let ?pad = "\<lparr> ps_raw = [], ps_md5 = [], ps_stop = 0, ps_rules = [] \<rparr>" and ?bind = "\<lambda>_. Inr ()"
  let ?s1 = "server_session_new\<lparr> sv_received_settings := True \<rparr>"
  let ?s2 = "?s1\<lparr> sv_pending := [7] \<rparr>"
  have 1: "\<exists>ev out. server_step ?bind ?pad server_session_new ev = Next ?s1 out"
    by (rule exI [of _ "FrameIn (mk_frame CMD_SETTINGS 0 [])"])
       (auto simp: serve_frame_def on_settings_def mk_frame_def raw_text_def Let_def)
  have 2: "\<exists>ev out. server_step ?bind ?pad ?s1 ev = Next ?s2 out"
    by (rule exI [of _ "FrameIn (mk_frame CMD_SYN 7 [])"])
       (simp add: serve_frame_def on_syn_def mk_frame_def server_session_new_def List.insert_def)
  have "reachable (\<lambda>s. s = server_session_new)
      (\<lambda>s s'. \<exists>ev out. server_step ?bind ?pad s ev = Next s' out) server_session_new"
    by (rule reachable_init) simp
  from reachable_step [OF reachable_step [OF this 1] 2]
  have "reachable (\<lambda>s. s = server_session_new)
      (\<lambda>s s'. \<exists>ev out. server_step ?bind ?pad s ev = Next s' out) ?s2" .
  from server_session_bounded [OF this] show ?thesis
    by (intro exI [of _ ?s2] conjI) (simp_all del: One_nat_def)
qed

text \<open>C8: streams are demultiplexed exactly. As long as a stream is open, neither the frames of
  other streams, nor control frames, nor heartbeats touch it: after any sequence of events that
  does not end the stream, its channel has received precisely the payloads of its own data
  frames, in the order in which they came.\<close>

theorem server_demultiplexes:
  assumes "map_of (sv_streams s) i = Some st" "st_open st" "\<not> st_aborted st"
    "distinct (map fst (sv_streams s))" "\<forall>ev \<in> set evs. leaves_stream i ev"
    "serve_session bind padding s evs = (out, Inr s')"
  shows "map_of (sv_streams s') i = Some (st\<lparr> st_queue := st_queue st @ stream_payloads i evs \<rparr>)"
  using assms
proof (induction evs arbitrary: s st out)
  case (Cons ev evs)
  obtain s1 out1 where step: "server_step bind padding s ev = Next s1 out1"
    using Cons.prems(6) by (cases "server_step bind padding s ev") auto
  obtain out2 where rest: "serve_session bind padding s1 evs = (out2, Inr s')"
    using Cons.prems(6) step by (auto split: prod.splits)
  let ?st = "st\<lparr> st_queue := st_queue st @ stream_payloads i [ev] \<rparr>"
  have "map_of (sv_streams s1) i = Some ?st"
    using Cons.prems(5) by (intro server_step_stream [OF Cons.prems(1-3) _ Cons.prems(4) step]) simp
  from Cons.IH [OF this _ _ server_step_distinct [OF Cons.prems(4) step] _ rest] Cons.prems(2,3,5)
  show ?case by (simp add: stream_payloads_Cons [of i ev evs])
qed simp

theorem server_demultiplexes_witness:
  "\<exists>s' :: server_session. map_of (sv_streams s') 1 = Some \<lparr> st_target = magic_target, st_queue = [[9], [8], [7]], st_open = True, st_aborted = False \<rparr>"
proof -
  let ?pad = "\<lparr> ps_raw = [], ps_md5 = [], ps_stop = 0, ps_rules = [] \<rparr>" and ?bind = "\<lambda>_. Inr ()"
  let ?s = "server_session_new\<lparr> sv_received_settings := True,
    sv_streams := [(1, \<lparr> st_target = magic_target, st_queue = [[9]], st_open = True, st_aborted = False \<rparr>)] \<rparr>"
  let ?evs = "[FrameIn (mk_frame CMD_PSH 1 [8]), HeartbeatTick, FrameIn (mk_frame CMD_PSH 2 [5]),
    FrameIn (mk_frame CMD_PSH 1 [7])]"
  obtain out s' where run: "serve_session ?bind ?pad ?s ?evs = (out, Inr s')"
    by (simp add: serve_frame_def on_stream_data_def heartbeat_def mk_frame_def server_session_new_def)
  have "map_of (sv_streams s') 1 =
      Some (\<lparr> st_target = magic_target, st_queue = [[9]], st_open = True, st_aborted = False \<rparr>\<lparr> st_queue := [[9]] @ stream_payloads 1 ?evs \<rparr>)"
    using server_demultiplexes [OF _ _ _ _ _ run, of 1 "\<lparr> st_target = magic_target, st_queue = [[9]], st_open = True, st_aborted = False \<rparr>"]
    by (simp add: leaves_stream_def mk_frame_def)
  then show ?thesis by (auto simp: mk_frame_def)
qed

text \<open>C33: the receive loop of a UDP association always ends. For every request, buffer and
  payload the loop that takes datagrams off the buffer stops, with the datagrams and the rest
  or with an error.\<close>

theorem uot_uplink_terminates: "\<exists>r. uot_uplink_step request pending packet = Some r"
  unfolding uot_uplink_step_def
  using drain_terminates [of "take_stream_packet request"] take_stream_packet_shrinks by auto

lemma uot_uplink_feed:
  "uot_uplink request pending packets = feed MAX_UOT_BUFFER (take_stream_packet request) pending packets"
  by (induction packets arbitrary: pending) (simp_all add: uot_uplink_step_def)

text \<open>C29: UDP over TCP loses no datagram and merges none, as far as the buffer of the receive loop
  reaches. However the bytes of a sequence of datagrams are cut into the pieces that arrive, as long
  as a datagram and a piece fit the 64 KiB of the buffer together, the loop ends, hands exactly the
  datagrams that were sent to the socket, in order and with their destinations, and leaves no byte
  over; the same holds for a connected stream. When each datagram is written in data frames of its
  own, as the client does, it is enough that every datagram fits the buffer.\<close>

theorem uot_stream_roundtrip:
  assumes "list_all (\<lambda>(d, payload). target_ok d) ps"
    "encode_all (\<lambda>(d, payload). encode_associate_packet d payload) ps = Inr (concat cs)"
    "\<forall>(d, payload) \<in> set ps. \<forall>c \<in> set cs. \<forall>b. encode_associate_packet d payload = Inr b \<longrightarrow>
       length b + length c \<le> MAX_UOT_BUFFER"
    "encode_all encode_connect_packet qs = Inr (concat ds)"
    "\<forall>payload \<in> set qs. \<forall>c \<in> set ds. \<forall>b. encode_connect_packet payload = Inr b \<longrightarrow>
       length b + length c \<le> MAX_UOT_BUFFER"
    "list_all2 (\<lambda>(d, payload) b. target_ok d \<and> encode_associate_packet d payload = Inr b \<and>
       length b \<le> MAX_UOT_BUFFER) rs bs"
  shows "uot_uplink \<lparr> ur_is_connect = False, ur_destination = dest \<rparr> [] cs =
      Some (Inr (map (\<lambda>(d, payload). (wire_uot d, payload, False)) ps, []))
    \<and> uot_uplink \<lparr> ur_is_connect = True, ur_destination = dest \<rparr> [] ds =
      Some (Inr (map (\<lambda>payload. (dest, payload, True)) qs, []))
    \<and> uot_uplink \<lparr> ur_is_connect = False, ur_destination = dest \<rparr> []
        (concat (map (chunks MAX_FRAME_PAYLOAD_LEN) bs)) =
      Some (Inr (map (\<lambda>(d, payload). (wire_uot d, payload, False)) rs, []))"
proof -
  have framed: "list_all2 (\<lambda>x b. (case x of (d, payload) \<Rightarrow> target_ok d) \<and>
      (case x of (d, payload) \<Rightarrow> encode_associate_packet d payload) = Inr b \<and> length b \<le> MAX_UOT_BUFFER) rs bs"
    using assms(6) by (rule list_all2_mono) auto
  have "\<forall>x \<in> set ps. \<forall>c \<in> set cs. \<forall>b. (case x of (d, payload) \<Rightarrow> encode_associate_packet d payload) = Inr b \<longrightarrow>
      length b + length c \<le> MAX_UOT_BUFFER" using assms(3) by fastforce
  from associate_stream.feed_encode_all [OF assms(1,2) this] connect_stream.feed_encode_all [OF _ assms(4,5)]
    associate_stream.feed_chunks [OF framed]
  show ?thesis by (simp add: uot_uplink_feed list_all_iff)
qed

theorem uot_stream_roundtrip_witness:
  "uot_uplink \<lparr> ur_is_connect = False, ur_destination = magic_target \<rparr> []
     [[0, 10, 0], [0, 1, 0, 53, 0, 2, 7], [8, 2, 1, 97, 0, 80, 0, 0]] =
   Some (Inr ([(Ip (SocketV4 0x0A000001 53), [7, 8], False), (Domain ''a'' 80, [], False)], []))"
proof -
  let ?ps = "[(Ip (SocketV4 0x0A000001 53), [7, 8]), (Domain ''a'' 80, [] :: bytes)]"
  let ?cs = "[[0, 10, 0], [0, 1, 0, 53, 0, 2, 7], [8, 2, 1, 97, 0, 80, 0, 0]] :: bytes list"
  have ok: "list_all (\<lambda>(d, payload). target_ok d) ?ps" by code_simp
  have "write_uot_address [] (Ip (SocketV4 0x0A000001 53)) = Inr [0, 10, 0, 0, 1, 0, 53]"
    "write_uot_address [] (Domain ''a'' 80) = Inr [2, 1, 97, 0, 80]"
    "len_u16 2 = [0, 2]" "len_u16 0 = [0, 0]"
    by code_simp+
  then have e: "encode_associate_packet (Ip (SocketV4 0x0A000001 53)) [7, 8] = Inr [0, 10, 0, 0, 1, 0, 53, 0, 2, 7, 8]"
    "encode_associate_packet (Domain ''a'' 80) [] = Inr [2, 1, 97, 0, 80, 0, 0]"
    by (simp_all add: encode_associate_packet_def)
  have enc: "encode_all (\<lambda>(d, payload). encode_associate_packet d payload) ?ps = Inr (concat ?cs)"
    by (simp add: e)
  have fits: "\<forall>(d, payload) \<in> set ?ps. \<forall>c \<in> set ?cs. \<forall>b. encode_associate_packet d payload = Inr b \<longrightarrow>
      length b + length c \<le> MAX_UOT_BUFFER" by (simp add: e)
  have "encode_all encode_connect_packet [] = Inr (concat [])" by simp
  from uot_stream_roundtrip [OF ok enc fits this, of "[]" "[]" magic_target] show ?thesis
    by (simp del: uot_uplink.simps)
qed

text \<open>C34: the buffer of the receive loop is smaller than the largest datagram of the format. A
  datagram that the encoder accepts and whose encoding exceeds 65536 bytes arrives in two data
  frames; the loop keeps the first and refuses the second, which ends the association although
  nothing the sender did was wrong.\<close>

theorem uot_large_datagram_refused:
  assumes "target_ok d" "encode_associate_packet d payload = Inr bs" "length bs > MAX_UOT_BUFFER"
    "request = \<lparr> ur_is_connect = False, ur_destination = dest \<rparr>"
  shows "chunks MAX_FRAME_PAYLOAD_LEN bs = take 65535 bs # chunks MAX_FRAME_PAYLOAD_LEN (drop 65535 bs) \<and>
    uot_uplink_step request [] (take 65535 bs) = Some (Inr ([], take 65535 bs)) \<and>
    uot_uplink_step request (take 65535 bs) (drop 65535 bs) = Some (Inl LimitExceeded)"
proof -
  have "length (take 65535 bs) \<noteq> length bs" using assms(3) by simp
  then have "strict_prefix (take 65535 bs) bs" by (metis prefix_order.less_le take_is_prefix)
  then have "take_stream_packet request (take 65535 bs) = Inr None"
    using associate_stream.tk_short [of "(d, payload)" bs "take 65535 bs" dest] assms by simp
  moreover have "bs \<noteq> []" using assms(3) by auto
  ultimately show ?thesis
    using assms(3) by (simp add: uot_uplink_step_def drain_None chunks.simps [of _ bs])
qed

theorem uot_large_datagram_refused_witness:
  "\<exists>(payload :: bytes) (bs :: bytes). length payload = 65535 \<and>
     uot_uplink_step \<lparr> ur_is_connect = False, ur_destination = magic_target \<rparr> (take 65535 bs) (drop 65535 bs) =
       Some (Inl LimitExceeded)"
proof -
  obtain k :: nat where k: "k = 65535" by simp
  let ?payload = "replicate k (0 :: u8)" and ?d = "Ip (SocketV4 0 53)"
  have w: "write_uot_address [] ?d = Inr [0, 0, 0, 0, 0, 0, 53]" by code_simp
  define bs where "bs = [0, 0, 0, 0, 0, 0, 53] @ len_u16 k @ ?payload"
  have "encode_associate_packet ?d ?payload = Inr bs"
    using w k by (simp add: encode_associate_packet_def bs_def)
  moreover have "length bs > MAX_UOT_BUFFER" by (simp add: bs_def k)
  ultimately have "uot_uplink_step \<lparr> ur_is_connect = False, ur_destination = magic_target \<rparr>
      (take 65535 bs) (drop 65535 bs) = Some (Inl LimitExceeded)"
    using uot_large_datagram_refused [of ?d ?payload bs] by simp
  moreover have "length ?payload = 65535" by (simp add: k)
  ultimately show ?thesis by blast
qed

end
