(* ===== verification/ClientSession.thy ===== *)
theory ClientSession
  imports Padding Uot
begin

text \<open>
  The AnyTLS client (\<open>src/src/client.rs\<close>): sessions to the server, the streams on them, the pool
  of idle sessions, and the relays of a SOCKS client.

  \<^item> A session is the state its tasks share. The receiving ends of the channels of its streams
    are the lists \<open>cs_events\<close>; a sender exists as long as the stream is registered. \<open>cs_wire\<close> is
    what was written to the TLS connection.
  \<^item> Sessions are shared by reference, so the pool holds handles, which are indices into the list
    of sessions. A task of a SOCKS client holds one handle from \<open>acquire\<close> to \<open>release\<close>.
  \<^item> \<open>client_step\<close> is one atomic section of some task. \<open>close_idle_sessions\<close>, which runs after the
    pool is unlocked, is part of the section that took the sessions out: nobody else has them.
  \<^item> The channel of a stream holds 32 events. \<open>send_stream_event\<close> waits for room, which delays the
    reader of the session but changes neither the events nor their order, so the model appends.
    \<open>fail_open_streams\<close> does not wait: it uses \<open>try_send\<close>, and there the model has the bound.
  \<^item> TCP and TLS connecting is a parameter, as are randomness, MD5, SHA-256 and time, in
    nanoseconds. \<open>describe\<close> is the text of an error.
\<close>

section \<open>State\<close>

abbreviation (input) "MAX_IDLE_SESSIONS \<equiv> 16 :: nat"
abbreviation (input) "IDLE_SESSION_TIMEOUT \<equiv> 30000000000 :: nat"
abbreviation (input) "STREAM_CHANNEL_LEN \<equiv> 32 :: nat"

datatype stream_event = SynAck bytes | Payload bytes | Fin | StreamError string

record client_session =
  cs_writer :: padded_frame_writer
  cs_streams :: "u32 list"
  cs_events :: "u32 \<Rightarrow> stream_event list"
  cs_next_stream_id :: u32
  cs_closed :: "string option"
  cs_abort :: bool
  cs_first_packet :: bool
  cs_server_v2 :: bool
  cs_wire :: "bytes list"
  cs_shutdown :: bool

text \<open>Writes through the writer of the session.\<close>

definition session_write ::
  "client_session \<Rightarrow> (padded_frame_writer \<Rightarrow> (padded_frame_writer \<times> bytes list) result) \<Rightarrow>
     client_session result" where
  "session_write s wr =
     and_then (wr (cs_writer s)) (\<lambda>(w, ws). Inr (s\<lparr> cs_writer := w, cs_wire := cs_wire s @ ws \<rparr>))"

section \<open>Sessions\<close>

definition is_alive :: "client_session \<Rightarrow> bool" where
  "is_alive s \<longleftrightarrow> \<not> cs_abort s"

definition fail_open_streams :: "string \<Rightarrow> client_session \<Rightarrow> client_session" where
  "fail_open_streams reason s =
     s\<lparr> cs_streams := [],
        cs_events := (\<lambda>i. if i \<in> set (cs_streams s) \<and> length (cs_events s i) < STREAM_CHANNEL_LEN
                          then cs_events s i @ [StreamError reason] else cs_events s i) \<rparr>"

definition client_close :: "string \<Rightarrow> client_session \<Rightarrow> client_session" where
  "client_close reason s =
     (let already = (cs_closed s \<noteq> None);
          s = s\<lparr> cs_closed := (if already then cs_closed s else Some reason), cs_abort := True \<rparr> in
      if already then s else (fail_open_streams reason s)\<lparr> cs_shutdown := True \<rparr>)"

definition client_connect ::
  "(bytes \<Rightarrow> bytes) \<Rightarrow> writer result \<Rightarrow> (nat \<Rightarrow> nat \<Rightarrow> u64 result) \<Rightarrow> string \<Rightarrow> padding_scheme \<Rightarrow>
     client_session result" where
  "client_connect sha dial rnds password padding =
     and_then dial (\<lambda>inner.
     let w = padded_frame_writer_new inner padding in
     and_then (write_auth_preface sha (rnds 0) w password) (\<lambda>preface.
     and_then (padded_write_client_settings (rnds 1) w) (\<lambda>(w, settings).
     Inr \<lparr> cs_writer = w, cs_streams = [], cs_events = (\<lambda>_. []), cs_next_stream_id = 1,
           cs_closed = None, cs_abort = False, cs_first_packet = True, cs_server_v2 = False,
           cs_wire = preface @ settings, cs_shutdown = False \<rparr>)))"

definition unregister :: "u32 \<Rightarrow> client_session \<Rightarrow> client_session" where
  "unregister stream_id s = s\<lparr> cs_streams := removeAll stream_id (cs_streams s) \<rparr>"

text \<open>Dropping a registration; the \<open>close\<close> it spawns is a section of its own.\<close>

definition registration_drop :: "bool \<Rightarrow> u32 \<Rightarrow> client_session \<Rightarrow> client_session" where
  "registration_drop finished stream_id s =
     (let s = unregister stream_id s in if finished then s else s\<lparr> cs_abort := True \<rparr>)"

definition registration_finish ::
  "(nat \<Rightarrow> u64 result) \<Rightarrow> bool \<Rightarrow> u32 \<Rightarrow> client_session \<Rightarrow> client_session" where
  "registration_finish rnd timed_out stream_id s =
     (let s = unregister stream_id s in
      case (if timed_out then Inl IoFailed
            else session_write s (\<lambda>w. write_frame_with_flush rnd w CMD_FIN stream_id [])) of
        Inl _ \<Rightarrow> client_close ''write stream FIN failed'' s
      | Inr s \<Rightarrow> s)"

section \<open>Opening a stream\<close>

text \<open>The first half of \<open>open_stream\<close>, up to the wait for the acknowledgement.\<close>

definition client_open_stream ::
  "(nat \<Rightarrow> u64 result) \<Rightarrow> (nat \<Rightarrow> nat \<Rightarrow> u64 result) \<Rightarrow> client_session \<Rightarrow> proxy_target \<Rightarrow> bytes \<Rightarrow>
     client_session \<times> u32 result" where
  "client_open_stream rnd rnds s target initial_payload =
     (if cs_closed s \<noteq> None then (s, Inl Cancelled)
      else case encode_target target of
        Inl e \<Rightarrow> (s, Inl e)
      | Inr t \<Rightarrow>
          (let first_payload = t @ initial_payload; stream_id = cs_next_stream_id s in
           if stream_id = - 1 then (client_close ''stream id exhausted'' s, Inl LimitExceeded)
           else
             let s = s\<lparr> cs_next_stream_id := stream_id + 1,
                        cs_streams := List.insert stream_id (cs_streams s),
                        cs_events := (cs_events s)(stream_id := []),
                        cs_first_packet := False \<rparr> in
             case and_then (session_write s (\<lambda>w. write_frame_with_flush rnd w CMD_SYN stream_id []))
                    (\<lambda>s. session_write s (\<lambda>w. padded_write_payload_chunks rnds w stream_id first_payload)) of
               Inl e \<Rightarrow> (registration_drop False stream_id s, Inl e)
             | Inr s \<Rightarrow> (s, Inr stream_id)))"

text \<open>The second half: one event of the wait.\<close>

datatype open_progress = Waiting "bytes option" | Opened "bytes option" | OpenFailed rust_error

fun on_open_event :: "bool \<Rightarrow> bytes option \<Rightarrow> stream_event \<Rightarrow> open_progress" where
  "on_open_event server_v2 pending (SynAck payload) =
     (if payload = [] then Opened pending else OpenFailed Rejected)"
| "on_open_event server_v2 pending (StreamError error) = OpenFailed Cancelled"
| "on_open_event server_v2 pending Fin = OpenFailed UnexpectedEof"
| "on_open_event server_v2 pending (Payload payload) =
     (if server_v2 then Waiting (Some payload) else Opened (Some payload))"

definition poll_open :: "client_session \<Rightarrow> u32 \<Rightarrow> bytes option \<Rightarrow> client_session \<times> open_progress" where
  "poll_open s stream_id pending =
     (case cs_events s stream_id of
        [] \<Rightarrow>
          (if stream_id \<in> set (cs_streams s) then (s, Waiting pending)
           else (registration_drop False stream_id s, OpenFailed UnexpectedEof))
      | ev # evs \<Rightarrow>
          (let s = s\<lparr> cs_events := (cs_events s)(stream_id := evs) \<rparr> in
           case on_open_event (cs_server_v2 s) pending ev of
             OpenFailed e \<Rightarrow> (registration_drop False stream_id s, OpenFailed e)
           | r \<Rightarrow> (s, r)))"

section \<open>Reading a stream\<close>

text \<open>\<open>None\<close> stands for a read that still waits; \<open>registered\<close> says whether a sender is left.\<close>

fun read_payload_events ::
  "bool \<Rightarrow> stream_event list \<Rightarrow> (bytes option result \<times> stream_event list) option" where
  "read_payload_events registered [] = (if registered then None else Some (Inr None, []))"
| "read_payload_events registered (Payload payload # evs) = Some (Inr (Some payload), evs)"
| "read_payload_events registered (Fin # evs) = Some (Inr None, evs)"
| "read_payload_events registered (StreamError error # evs) = Some (Inl Cancelled, evs)"
| "read_payload_events registered (SynAck payload # evs) =
     (if payload \<noteq> [] then Some (Inl Rejected, evs) else read_payload_events registered evs)"

definition read_payload ::
  "client_session \<Rightarrow> u32 \<Rightarrow> bytes option \<Rightarrow> (client_session \<times> bytes option result) option" where
  "read_payload s stream_id pending =
     (case pending of
        Some payload \<Rightarrow> Some (s, Inr (Some payload))
      | None \<Rightarrow>
          (case read_payload_events (stream_id \<in> set (cs_streams s)) (cs_events s stream_id) of
             None \<Rightarrow> None
           | Some (r, evs) \<Rightarrow> Some (s\<lparr> cs_events := (cs_events s)(stream_id := evs) \<rparr>, r)))"

section \<open>Relays\<close>

definition relay_uplink ::
  "(nat \<Rightarrow> nat \<Rightarrow> u64 result) \<Rightarrow> client_session \<Rightarrow> u32 \<Rightarrow> bytes \<Rightarrow> unit result \<Rightarrow> client_session result" where
  "relay_uplink rnds s stream_id data recorded =
     (if data = [] then Inr s
      else and_then recorded (\<lambda>_. session_write s (\<lambda>w. padded_write_payload_chunks rnds w stream_id data)))"

text \<open>The downlink over the outcomes of the accounting of its payloads: what reaches the SOCKS
  client, and the result once the relay has ended.\<close>

fun relay_downlink ::
  "client_session \<Rightarrow> u32 \<Rightarrow> bytes option \<Rightarrow> unit result list \<Rightarrow> client_session \<times> bytes \<times> unit result option" where
  "relay_downlink s stream_id pending [] = (s, [], None)"
| "relay_downlink s stream_id pending (recorded # rs) =
     (case read_payload s stream_id pending of
        None \<Rightarrow> (s, [], None)
      | Some (s, Inl e) \<Rightarrow> (s, [], Some (Inl e))
      | Some (s, Inr None) \<Rightarrow> (s, [], Some (Inr ()))
      | Some (s, Inr (Some payload)) \<Rightarrow>
          (case recorded of
             Inl e \<Rightarrow> (s, [], Some (Inl e))
           | Inr _ \<Rightarrow>
               (case relay_downlink s stream_id None rs of (s, out, r) \<Rightarrow> (s, payload @ out, r))))"

definition udp_to_stream ::
  "(nat \<Rightarrow> nat \<Rightarrow> u64 result) \<Rightarrow> client_session \<Rightarrow> u32 \<Rightarrow> bytes \<Rightarrow> (nat \<Rightarrow> unit result) \<Rightarrow>
     client_session result" where
  "udp_to_stream rnds s stream_id datagram record_upload =
     and_then (parse_socks_udp_packet datagram) (\<lambda>(target, payload).
     and_then (record_upload (length payload)) (\<lambda>_.
     and_then (encode_associate_packet target payload) (\<lambda>packet.
     session_write s (\<lambda>w. padded_write_payload_chunks rnds w stream_id packet))))"

definition stream_to_udp ::
  "socket_addr option \<Rightarrow> bytes \<Rightarrow> (nat \<Rightarrow> unit result) \<Rightarrow> (socket_addr \<times> bytes) result" where
  "stream_to_udp peer payload record_download =
     and_then (decode_associate_packet payload) (\<lambda>(source, packet).
     and_then (record_download (length packet)) (\<lambda>_.
     and_then (encode_socks_udp_packet source packet) (\<lambda>response.
     and_then (ok_or peer Missing) (\<lambda>peer. Inr (peer, response)))))"

section \<open>Frames from the server\<close>

definition send_stream_event :: "u32 \<Rightarrow> stream_event \<Rightarrow> client_session \<Rightarrow> client_session" where
  "send_stream_event stream_id event s =
     (if stream_id \<in> set (cs_streams s)
      then s\<lparr> cs_events := (cs_events s)(stream_id := cs_events s stream_id @ [event]) \<rparr> else s)"

definition handle_session_frame ::
  "(bytes \<Rightarrow> string) \<Rightarrow> (nat \<Rightarrow> u64 result) \<Rightarrow> frame \<Rightarrow> client_session \<Rightarrow> padding_scheme \<Rightarrow>
     (client_session \<times> padding_scheme) result" where
  "handle_session_frame md5hex rnd f s shared_padding =
     (let cmd = frame_cmd f; stream_id = frame_stream_id f; payload = frame_payload f in
      if cmd = CMD_PSH then Inr (send_stream_event stream_id (Payload payload) s, shared_padding)
      else if cmd = CMD_FIN then
        Inr (unregister stream_id (send_stream_event stream_id Fin s), shared_padding)
      else if cmd = CMD_SYNACK then Inr (send_stream_event stream_id (SynAck payload) s, shared_padding)
      else if cmd = CMD_ALERT then Inl Rejected
      else if cmd = CMD_HEART_REQUEST then
        and_then (session_write s (\<lambda>w. write_frame_with_flush rnd w CMD_HEART_RESPONSE stream_id []))
          (\<lambda>s. Inr (s, shared_padding))
      else if cmd = CMD_UPDATE_PADDING_SCHEME then
        and_then (from_utf8 payload) (\<lambda>raw.
        and_then (from_text md5hex raw) (\<lambda>padding.
        and_then (update_padding_scheme md5hex (cs_writer s) raw) (\<lambda>w.
        Inr (s\<lparr> cs_writer := w \<rparr>, padding))))
      else if cmd = CMD_SERVER_SETTINGS then Inr (s\<lparr> cs_server_v2 := True \<rparr>, shared_padding)
      else Inr (s, shared_padding))"

text \<open>One turn of the reader task: a frame, or the failure to read one. An aborted session has no
  reader any more.\<close>

definition read_session_frame ::
  "(rust_error \<Rightarrow> string) \<Rightarrow> (bytes \<Rightarrow> string) \<Rightarrow> (nat \<Rightarrow> u64 result) \<Rightarrow> frame result \<Rightarrow>
     client_session \<Rightarrow> padding_scheme \<Rightarrow> client_session \<times> padding_scheme" where
  "read_session_frame describe md5hex rnd r s shared_padding =
     (if cs_abort s then (s, shared_padding)
      else case and_then r (\<lambda>f. handle_session_frame md5hex rnd f s shared_padding) of
        Inl e \<Rightarrow> (client_close (describe e) s, shared_padding)
      | Inr r \<Rightarrow> r)"

text \<open>The reader task over the frames that come; \<open>rnds j\<close> is the randomness of the \<open>j\<close>-th turn.\<close>

fun read_session_frames ::
  "(rust_error \<Rightarrow> string) \<Rightarrow> (bytes \<Rightarrow> string) \<Rightarrow> (nat \<Rightarrow> nat \<Rightarrow> u64 result) \<Rightarrow>
     client_session \<Rightarrow> padding_scheme \<Rightarrow> frame list \<Rightarrow> client_session \<times> padding_scheme" where
  "read_session_frames describe md5hex rnds s shared_padding [] = (s, shared_padding)"
| "read_session_frames describe md5hex rnds s shared_padding (f # fs) =
     (case read_session_frame describe md5hex (rnds 0) (Inr f) s shared_padding of
        (s, shared_padding) \<Rightarrow> read_session_frames describe md5hex (\<lambda>j. rnds (j + 1)) s shared_padding fs)"

definition run_heartbeat ::
  "(rust_error \<Rightarrow> string) \<Rightarrow> (nat \<Rightarrow> u64 result) \<Rightarrow> client_session \<Rightarrow> client_session" where
  "run_heartbeat describe rnd s =
     (if cs_abort s then s
      else case session_write s (\<lambda>w. write_frame_with_flush rnd w CMD_HEART_REQUEST 0 []) of
        Inl e \<Rightarrow> client_close (''write heartbeat: '' @ describe e) s
      | Inr s \<Rightarrow> s)"

section \<open>The pool\<close>

fun take_expired_idle_sessions :: "nat \<Rightarrow> ('a \<times> nat) list \<Rightarrow> ('a \<times> nat) list \<times> 'a list" where
  "take_expired_idle_sessions now [] = ([], [])"
| "take_expired_idle_sessions now ((session, since) # idle) =
     (case take_expired_idle_sessions now idle of
        (keep, expired) \<Rightarrow>
          (if now - since < IDLE_SESSION_TIMEOUT then ((session, since) # keep, expired)
           else (keep, session # expired)))"

text \<open>The first session that is alive, those skipped, and what stays in the pool.\<close>

fun pop_alive :: "('a \<Rightarrow> bool) \<Rightarrow> ('a \<times> nat) list \<Rightarrow> 'a option \<times> 'a list \<times> ('a \<times> nat) list" where
  "pop_alive alive [] = (None, [], [])"
| "pop_alive alive ((session, since) # idle) =
     (if alive session then (Some session, [], idle)
      else case pop_alive alive idle of (found, dead, idle) \<Rightarrow> (found, session # dead, idle))"

definition acquire_idle ::
  "('a \<Rightarrow> bool) \<Rightarrow> nat \<Rightarrow> ('a \<times> nat) list \<Rightarrow> 'a option \<times> 'a list \<times> ('a \<times> nat) list" where
  "acquire_idle alive now idle =
     (case take_expired_idle_sessions now idle of
        (idle, expired) \<Rightarrow>
          (case pop_alive alive idle of (found, dead, idle) \<Rightarrow> (found, expired @ dead, idle)))"

datatype socks_task =
    Acquired
  | Opening u32 "bytes option"
  | Streaming u32 "bytes option"
  | Finished

record client_world =
  cw_padding :: padding_scheme
  cw_idle :: "(nat \<times> nat) list"
  cw_sessions :: "client_session list"
  cw_tasks :: "(nat \<times> socks_task) list"

definition update_session :: "nat \<Rightarrow> client_session \<Rightarrow> client_world \<Rightarrow> client_world" where
  "update_session h s W = W\<lparr> cw_sessions := (cw_sessions W)[h := s] \<rparr>"

fun close_idle_sessions :: "nat list \<Rightarrow> string \<Rightarrow> client_world \<Rightarrow> client_world" where
  "close_idle_sessions [] reason W = W"
| "close_idle_sessions (h # hs) reason W =
     close_idle_sessions hs reason (update_session h (client_close reason (cw_sessions W ! h)) W)"

definition client_acquire ::
  "nat \<Rightarrow> (padding_scheme \<Rightarrow> client_session result) \<Rightarrow> client_world \<Rightarrow> nat result \<times> client_world" where
  "client_acquire now connect W =
     (case acquire_idle (\<lambda>h. is_alive (cw_sessions W ! h)) now (cw_idle W) of
        (reused, to_close, idle) \<Rightarrow>
          (let W = close_idle_sessions to_close ''idle timeout'' (W\<lparr> cw_idle := idle \<rparr>) in
           case reused of
             Some h \<Rightarrow> (Inr h, W)
           | None \<Rightarrow>
               (case connect (cw_padding W) of
                  Inl e \<Rightarrow> (Inl e, W)
                | Inr s \<Rightarrow>
                    (Inr (length (cw_sessions W)), W\<lparr> cw_sessions := cw_sessions W @ [s] \<rparr>))))"

definition client_release :: "nat \<Rightarrow> nat \<Rightarrow> client_world \<Rightarrow> client_world" where
  "client_release now h W =
     (if \<not> is_alive (cw_sessions W ! h) then W
      else case take_expired_idle_sessions now (cw_idle W) of
        (idle, expired) \<Rightarrow>
          (if length idle < MAX_IDLE_SESSIONS
           then close_idle_sessions expired ''idle timeout'' (W\<lparr> cw_idle := idle @ [(h, now)] \<rparr>)
           else close_idle_sessions [h] ''idle pool full''
                  (close_idle_sessions expired ''idle timeout'' (W\<lparr> cw_idle := idle \<rparr>))))"

definition sweep_idle_client_sessions :: "nat \<Rightarrow> client_world \<Rightarrow> client_world" where
  "sweep_idle_client_sessions now W =
     (case take_expired_idle_sessions now (cw_idle W) of
        (idle, expired) \<Rightarrow> close_idle_sessions expired ''idle timeout'' (W\<lparr> cw_idle := idle \<rparr>))"

text \<open>Dropping the pool with the listener; the closing it spawns is a section of its own.\<close>

definition shared_client_drop :: "client_world \<Rightarrow> client_world" where
  "shared_client_drop W =
     (W\<lparr> cw_sessions := fold (\<lambda>h ss. ss[h := (ss ! h)\<lparr> cs_abort := True \<rparr>]) (map fst (cw_idle W)) (cw_sessions W),
         cw_idle := [] \<rparr>)"

section \<open>Steps\<close>

text \<open>
  \<open>handle_socks_client\<close> acquires a session, opens one stream on it, relays, finishes the stream
  and releases the session. A UDP association that fails before it has a stream releases the
  session at once. When a task ends in between (the user is refused, the task is cancelled) the
  stream and the handle are dropped.
\<close>

fun task_drop :: "socks_task \<Rightarrow> client_session \<Rightarrow> client_session" where
  "task_drop (Opening stream_id pending) s = registration_drop False stream_id s"
| "task_drop (Streaming stream_id pending) s = registration_drop False stream_id s"
| "task_drop Acquired s = s"
| "task_drop Finished s = s"

inductive client_step :: "client_world \<Rightarrow> client_world \<Rightarrow> bool" where
  step_acquire:
    "client_acquire now (client_connect sha dial rnds password) W = (Inr h, W') \<Longrightarrow>
     client_step W (W'\<lparr> cw_tasks := cw_tasks W' @ [(h, Acquired)] \<rparr>)"
| step_acquire_failed:
    "client_acquire now (client_connect sha dial rnds password) W = (Inl e, W') \<Longrightarrow> client_step W W'"
| step_open:
    "cw_tasks W = ts @ (h, Acquired) # us \<Longrightarrow>
     client_open_stream rnd rnds (cw_sessions W ! h) target initial = (s, r) \<Longrightarrow>
     t = (case r of Inl e \<Rightarrow> Finished | Inr stream_id \<Rightarrow> Opening stream_id None) \<Longrightarrow>
     client_step W (update_session h s (W\<lparr> cw_tasks := ts @ (h, t) # us \<rparr>))"
| step_give_up:
    "cw_tasks W = ts @ (h, Acquired) # us \<Longrightarrow>
     client_step W (W\<lparr> cw_tasks := ts @ (h, Finished) # us \<rparr>)"
| step_poll:
    "cw_tasks W = ts @ (h, Opening stream_id pending) # us \<Longrightarrow>
     poll_open (cw_sessions W ! h) stream_id pending = (s, r) \<Longrightarrow>
     t = (case r of Waiting p \<Rightarrow> Opening stream_id p | Opened p \<Rightarrow> Streaming stream_id p
            | OpenFailed e \<Rightarrow> Finished) \<Longrightarrow>
     client_step W (update_session h s (W\<lparr> cw_tasks := ts @ (h, t) # us \<rparr>))"
| step_uplink:
    "cw_tasks W = ts @ (h, Streaming stream_id pending) # us \<Longrightarrow>
     relay_uplink rnds (cw_sessions W ! h) stream_id data recorded = Inr s \<Longrightarrow>
     client_step W (update_session h s W)"
| step_udp_uplink:
    "cw_tasks W = ts @ (h, Streaming stream_id pending) # us \<Longrightarrow>
     udp_to_stream rnds (cw_sessions W ! h) stream_id datagram record_upload = Inr s \<Longrightarrow>
     client_step W (update_session h s W)"
| step_read:
    "cw_tasks W = ts @ (h, Streaming stream_id pending) # us \<Longrightarrow>
     read_payload (cw_sessions W ! h) stream_id pending = Some (s, r) \<Longrightarrow>
     client_step W (update_session h s (W\<lparr> cw_tasks := ts @ (h, Streaming stream_id None) # us \<rparr>))"
| step_finish:
    "cw_tasks W = ts @ (h, Streaming stream_id pending) # us \<Longrightarrow>
     s = registration_finish rnd timed_out stream_id (cw_sessions W ! h) \<Longrightarrow>
     client_step W (update_session h s (W\<lparr> cw_tasks := ts @ (h, Finished) # us \<rparr>))"
| step_release:
    "cw_tasks W = ts @ (h, Finished) # us \<Longrightarrow>
     client_step W (client_release now h (W\<lparr> cw_tasks := ts @ us \<rparr>))"
| step_drop:
    "cw_tasks W = ts @ (h, t) # us \<Longrightarrow>
     client_step W (update_session h (task_drop t (cw_sessions W ! h)) (W\<lparr> cw_tasks := ts @ us \<rparr>))"
| step_sweep: "client_step W (sweep_idle_client_sessions now W)"
| step_frame:
    "h < length (cw_sessions W) \<Longrightarrow>
     read_session_frame describe md5hex rnd r (cw_sessions W ! h) (cw_padding W) = (s, padding) \<Longrightarrow>
     client_step W (update_session h s (W\<lparr> cw_padding := padding \<rparr>))"
| step_heartbeat:
    "h < length (cw_sessions W) \<Longrightarrow>
     client_step W (update_session h (run_heartbeat describe rnd (cw_sessions W ! h)) W)"
| step_close:
    "h < length (cw_sessions W) \<Longrightarrow>
     client_step W (update_session h (client_close reason (cw_sessions W ! h)) W)"
| step_listener_drop: "client_step W (shared_client_drop W)"

definition client_world_new :: "padding_scheme \<Rightarrow> client_world" where
  "client_world_new padding = \<lparr> cw_padding = padding, cw_idle = [], cw_sessions = [], cw_tasks = [] \<rparr>"

section \<open>Lemmas: writing\<close>

lemma session_write_frame:
  assumes "writer_progress (pw_inner (cs_writer s))" "wire_safe (pw_padding (cs_writer s))"
    "\<forall>i. is_ok (rnd i)" "length payload \<le> MAX_FRAME_PAYLOAD_LEN" "cmd \<noteq> CMD_WASTE"
  shows "\<exists>w ws. session_write s (\<lambda>w. write_frame_with_flush rnd w cmd i payload) =
      Inr (s\<lparr> cs_writer := w, cs_wire := cs_wire s @ ws \<rparr>) \<and> carries ws [mk_frame cmd i payload] \<and>
    pw_inner w = pw_inner (cs_writer s) \<and> pw_padding w = pw_padding (cs_writer s)"
proof -
  from write_frame_carries [OF assms] obtain w ws where
    "write_frame_with_flush rnd (cs_writer s) cmd i payload = Inr (w, ws)" "carries ws [mk_frame cmd i payload]"
    "pw_inner w = pw_inner (cs_writer s)" "pw_padding w = pw_padding (cs_writer s)" by blast
  then show ?thesis by (intro exI [of _ w] exI [of _ ws]) (simp add: session_write_def)
qed

lemma session_write_chunks:
  assumes "writer_progress (pw_inner (cs_writer s))" "wire_safe (pw_padding (cs_writer s))"
    "\<forall>j i. is_ok (rnds j i)"
  shows "\<exists>w ws. session_write s (\<lambda>w. padded_write_payload_chunks rnds w i payload) =
      Inr (s\<lparr> cs_writer := w, cs_wire := cs_wire s @ ws \<rparr>) \<and>
    carries ws (map (mk_frame CMD_PSH i) (chunks MAX_FRAME_PAYLOAD_LEN payload)) \<and>
    pw_inner w = pw_inner (cs_writer s) \<and> pw_padding w = pw_padding (cs_writer s)"
proof -
  have "list_all (\<lambda>c. length c \<le> MAX_FRAME_PAYLOAD_LEN) (chunks MAX_FRAME_PAYLOAD_LEN payload)"
    by (auto simp: list_all_iff dest: chunks_bounds)
  from write_chunks_carries [OF assms this] obtain w ws where
    "padded_write_payload_chunks rnds (cs_writer s) i payload = Inr (w, ws)"
    "carries ws (map (mk_frame CMD_PSH i) (chunks MAX_FRAME_PAYLOAD_LEN payload))"
    "pw_inner w = pw_inner (cs_writer s)" "pw_padding w = pw_padding (cs_writer s)"
    unfolding padded_write_payload_chunks_def by blast
  then show ?thesis by (intro exI [of _ w] exI [of _ ws]) (simp add: session_write_def)
qed

lemma write_auth_preface_total:
  assumes "wire_safe (pw_padding w)" "\<forall>i. is_ok (rnd i)"
  shows "\<exists>preface. write_auth_preface sha rnd w password = Inr preface"
proof -
  obtain sizes where sizes: "record_payload_sizes rnd (pw_padding w) 0 = Inr sizes"
    using record_payload_sizes_total [OF assms(2), of "pw_padding w" 0] by (auto simp: is_ok_iff)
  have "(case find (\<lambda>sz. sz \<ge> 0) sizes of None \<Rightarrow> 0 | Some sz \<Rightarrow> sz) \<le> 65535"
    using record_payload_sizes_small [OF assms(1) sizes]
    by (auto simp: list_all_length size_small_def find_Some_iff split: option.splits)
  then show ?thesis using sizes by (simp add: write_auth_preface_def preface_padding_len_def Let_def)
qed

definition connected_session ::
  "padded_frame_writer \<Rightarrow> bytes list \<Rightarrow> client_session" where
  "connected_session w ws =
     \<lparr> cs_writer = w, cs_streams = [], cs_events = (\<lambda>_. []), cs_next_stream_id = 1,
       cs_closed = None, cs_abort = False, cs_first_packet = True, cs_server_v2 = False,
       cs_wire = ws, cs_shutdown = False \<rparr>"

lemma client_connect_ok:
  assumes "writer_progress inner" "wire_safe padding" "\<forall>j i. is_ok (rnds j i)"
    "length (settings_text padding) \<le> MAX_FRAME_PAYLOAD_LEN"
  shows "\<exists>w preface ws. client_connect sha (Inr inner) rnds password padding =
      Inr (connected_session w (preface @ ws)) \<and>
    write_auth_preface sha (rnds 0) (padded_frame_writer_new inner padding) password = Inr preface \<and>
    carries ws [mk_frame CMD_SETTINGS 0 (as_bytes (settings_text padding))] \<and>
    pw_inner w = inner \<and> pw_padding w = padding"
proof -
  let ?w = "padded_frame_writer_new inner padding"
  have w: "pw_inner ?w = inner" "pw_padding ?w = padding" by (simp_all add: padded_frame_writer_new_def)
  obtain preface where "write_auth_preface sha (rnds 0) ?w password = Inr preface"
    using write_auth_preface_total [of ?w "rnds 0" sha password] assms(2,3) w by auto
  moreover obtain w' ws where "padded_write_client_settings (rnds 1) ?w = Inr (w', ws)"
    "carries ws [mk_frame CMD_SETTINGS 0 (as_bytes (settings_text padding))]"
    "pw_inner w' = inner" "pw_padding w' = padding"
    using write_frame_carries [of ?w "rnds 1" "as_bytes (settings_text padding)" CMD_SETTINGS 0] assms w
    by (auto simp: padded_write_client_settings_def)
  ultimately show ?thesis by (auto simp: client_connect_def connected_session_def)
qed

lemma client_open_stream_ok:
  assumes "cs_closed s = None" "encode_target target = Inr t" "cs_next_stream_id s \<noteq> - 1"
    "writer_progress (pw_inner (cs_writer s))" "wire_safe (pw_padding (cs_writer s))"
    "\<forall>i. is_ok (rnd i)" "\<forall>j i. is_ok (rnds j i)"
  shows "\<exists>w ws. client_open_stream rnd rnds s target initial =
     (s\<lparr> cs_writer := w, cs_wire := cs_wire s @ ws, cs_next_stream_id := cs_next_stream_id s + 1,
         cs_streams := List.insert (cs_next_stream_id s) (cs_streams s),
         cs_events := (cs_events s)(cs_next_stream_id s := []), cs_first_packet := False \<rparr>,
      Inr (cs_next_stream_id s)) \<and>
    carries ws (mk_frame CMD_SYN (cs_next_stream_id s) [] #
      map (mk_frame CMD_PSH (cs_next_stream_id s)) (chunks MAX_FRAME_PAYLOAD_LEN (t @ initial))) \<and>
    pw_inner w = pw_inner (cs_writer s) \<and> pw_padding w = pw_padding (cs_writer s)"
proof -
  let ?i = "cs_next_stream_id s"
  let ?s = "s\<lparr> cs_next_stream_id := ?i + 1, cs_streams := List.insert ?i (cs_streams s),
               cs_events := (cs_events s)(?i := []), cs_first_packet := False \<rparr>"
  obtain w1 ws1 where 1: "session_write ?s (\<lambda>w. write_frame_with_flush rnd w CMD_SYN ?i []) =
      Inr (?s\<lparr> cs_writer := w1, cs_wire := cs_wire s @ ws1 \<rparr>)" "carries ws1 [mk_frame CMD_SYN ?i []]"
    "pw_inner w1 = pw_inner (cs_writer s)" "pw_padding w1 = pw_padding (cs_writer s)"
    using session_write_frame [of ?s rnd "[]" CMD_SYN ?i] assms by auto
  let ?s1 = "?s\<lparr> cs_writer := w1, cs_wire := cs_wire s @ ws1 \<rparr>"
  obtain w2 ws2 where 2: "session_write ?s1 (\<lambda>w. padded_write_payload_chunks rnds w ?i (t @ initial)) =
      Inr (?s1\<lparr> cs_writer := w2, cs_wire := cs_wire s @ ws1 @ ws2 \<rparr>)"
    "carries ws2 (map (mk_frame CMD_PSH ?i) (chunks MAX_FRAME_PAYLOAD_LEN (t @ initial)))"
    "pw_inner w2 = pw_inner (cs_writer s)" "pw_padding w2 = pw_padding (cs_writer s)"
    using session_write_chunks [of ?s1 rnds ?i "t @ initial"] assms 1 by auto
  have "client_open_stream rnd rnds s target initial =
      (?s1\<lparr> cs_writer := w2, cs_wire := cs_wire s @ ws1 @ ws2 \<rparr>, Inr ?i)"
    using assms(1-3) 1(1) 2(1) by (simp add: client_open_stream_def Let_def)
  then show ?thesis
    using carries_append [OF 1(2) 2(2)] 2(3,4) by (intro exI [of _ w2] exI [of _ "ws1 @ ws2"]) simp
qed

section \<open>Lemmas: sessions\<close>

text \<open>What an operation may do to the registry: take streams out of it.\<close>

definition streams_shrink :: "client_session \<Rightarrow> client_session \<Rightarrow> bool" where
  "streams_shrink s s' \<longleftrightarrow>
     set (cs_streams s') \<subseteq> set (cs_streams s) \<and> (distinct (cs_streams s) \<longrightarrow> distinct (cs_streams s'))"

named_theorems shrinks

lemma streams_shrink_refl [shrinks]: "streams_shrink s s"
  by (simp add: streams_shrink_def)

lemma streams_shrink_trans: "streams_shrink s s' \<Longrightarrow> streams_shrink s' s'' \<Longrightarrow> streams_shrink s s''"
  by (auto simp: streams_shrink_def)

lemma streams_shrink_same: "cs_streams s' = cs_streams s \<Longrightarrow> streams_shrink s s'"
  by (simp add: streams_shrink_def)

lemma client_close_shrink [shrinks]: "streams_shrink s (client_close reason s)"
  by (simp add: streams_shrink_def client_close_def fail_open_streams_def Let_def)

lemma unregister_shrink [shrinks]: "streams_shrink s (unregister i s)"
  by (auto simp: streams_shrink_def unregister_def distinct_removeAll)

lemma registration_drop_shrink [shrinks]: "streams_shrink s (registration_drop b i s)"
  by (auto simp: streams_shrink_def registration_drop_def unregister_def distinct_removeAll Let_def)

lemma registration_drop_streams: "cs_streams (registration_drop b i s) = removeAll i (cs_streams s)"
  by (simp add: registration_drop_def unregister_def Let_def)

lemma session_write_streams: "session_write s wr = Inr s' \<Longrightarrow> cs_streams s' = cs_streams s"
  by (auto simp: session_write_def and_then_Inr_iff)

lemma registration_finish_shrink [shrinks]:
  "streams_shrink s (registration_finish rnd b i s)"
  unfolding registration_finish_def Let_def
  by (auto split: sum.splits dest!: session_write_streams
      intro: streams_shrink_trans [OF unregister_shrink] client_close_shrink streams_shrink_same)

lemma registration_finish_streams: "i \<notin> set (cs_streams (registration_finish rnd b i s))"
  unfolding registration_finish_def Let_def
  by (auto split: sum.splits dest!: session_write_streams
      simp: unregister_def client_close_def fail_open_streams_def Let_def)

lemma poll_open_shrink:
  "poll_open s i pending = (s', r) \<Longrightarrow> streams_shrink s s'"
  unfolding poll_open_def Let_def
  by (auto split: list.splits if_splits open_progress.splits
      simp: streams_shrink_def registration_drop_streams distinct_removeAll)

lemma poll_open_failed:
  "poll_open s i pending = (s', OpenFailed e) \<Longrightarrow> i \<notin> set (cs_streams s')"
  unfolding poll_open_def Let_def
  by (auto split: list.splits if_splits open_progress.splits simp: registration_drop_streams)

lemma read_payload_shrink: "read_payload s i pending = Some (s', r) \<Longrightarrow> streams_shrink s s'"
  unfolding read_payload_def by (auto split: option.splits intro: streams_shrink_same)

lemma relay_uplink_shrink: "relay_uplink rnds s i data recorded = Inr s' \<Longrightarrow> streams_shrink s s'"
  unfolding relay_uplink_def
  by (auto split: if_splits simp: and_then_Inr_iff intro: shrinks streams_shrink_same dest: session_write_streams)

lemma udp_to_stream_shrink: "udp_to_stream rnds s i d rec = Inr s' \<Longrightarrow> streams_shrink s s'"
  unfolding udp_to_stream_def
  by (auto simp: and_then_Inr_iff intro: streams_shrink_same dest: session_write_streams)

lemma send_stream_event_streams [simp]: "cs_streams (send_stream_event i ev s) = cs_streams s"
  by (simp add: send_stream_event_def)

lemma handle_session_frame_shrink:
  "handle_session_frame md5hex rnd f s p = Inr (s', p') \<Longrightarrow> streams_shrink s s'"
  unfolding handle_session_frame_def Let_def
  by (auto split: if_splits simp: and_then_Inr_iff dest: session_write_streams
      intro: streams_shrink_same streams_shrink_trans [OF streams_shrink_same unregister_shrink])

lemma read_session_frame_shrink:
  "read_session_frame describe md5hex rnd r s p = (s', p') \<Longrightarrow> streams_shrink s s'"
  unfolding read_session_frame_def
  by (auto split: if_splits sum.splits simp: and_then_Inr_iff intro: shrinks handle_session_frame_shrink)

lemma run_heartbeat_shrink [shrinks]: "streams_shrink s (run_heartbeat describe rnd s)"
  unfolding run_heartbeat_def
  by (auto split: sum.splits intro: shrinks streams_shrink_same dest: session_write_streams)

lemma task_drop_shrink [shrinks]: "streams_shrink s (task_drop t s)"
  by (cases t) (auto intro: shrinks)

text \<open>Opening a stream registers at most the stream it returns.\<close>

lemma client_open_stream_streams:
  assumes "client_open_stream rnd rnds s target initial = (s', r)"
  shows "set (cs_streams s') \<subseteq> set (cs_streams s) \<union> (case r of Inl e \<Rightarrow> {} | Inr i \<Rightarrow> {i}) \<and>
         (distinct (cs_streams s) \<longrightarrow> distinct (cs_streams s'))"
  using assms unfolding client_open_stream_def
  by (auto split: if_splits sum.splits simp: Let_def and_then_Inr_iff registration_drop_streams
      distinct_removeAll client_close_def fail_open_streams_def dest!: session_write_streams)

section \<open>Lemmas: the pool\<close>

lemma take_expired_eq:
  "take_expired_idle_sessions now idle =
     (filter (\<lambda>(_, since). now - since < IDLE_SESSION_TIMEOUT) idle,
      map fst (filter (\<lambda>(_, since). \<not> now - since < IDLE_SESSION_TIMEOUT) idle))"
  by (induction now idle rule: take_expired_idle_sessions.induct) auto

lemma pop_alive_spec:
  "pop_alive alive idle = (found, dead, rest) \<Longrightarrow>
     (case found of
        None \<Rightarrow> dead = map fst idle \<and> rest = []
      | Some h \<Rightarrow> alive h \<and> (\<exists>pre since. idle = pre @ (h, since) # rest \<and> dead = map fst pre)) \<and>
     list_all (\<lambda>h. \<not> alive h) dead"
proof (induction alive idle arbitrary: found dead rest rule: pop_alive.induct)
  case (2 alive session since idle)
  show ?case
  proof (cases "alive session")
    case True
    then show ?thesis using "2.prems" by (auto intro: exI [of _ "[]"])
  next
    case False
    obtain d where d: "pop_alive alive idle = (found, d, rest)" "dead = session # d"
      using "2.prems" False by (auto split: prod.splits)
    from "2.IH" [OF False d(1)] show ?thesis
      using d(2) False by (auto split: option.splits intro: exI [of _ "(session, since) # pre" for pre])
  qed
qed simp

text \<open>The pool holds no session that is in use, and a stream is registered only for the task that
  opened it.\<close>

fun task_stream :: "socks_task \<Rightarrow> u32 option" where
  "task_stream (Opening i pending) = Some i"
| "task_stream (Streaming i pending) = Some i"
| "task_stream Acquired = None"
| "task_stream Finished = None"

definition registered_ok :: "client_session list \<Rightarrow> (nat \<times> socks_task) list \<Rightarrow> bool" where
  "registered_ok ss ts \<longleftrightarrow>
     (\<forall>h < length ss. distinct (cs_streams (ss ! h)) \<and>
        (\<forall>i \<in> set (cs_streams (ss ! h)). \<exists>t. (h, t) \<in> set ts \<and> task_stream t = Some i))"

definition pool_ok :: "client_world \<Rightarrow> bool" where
  "pool_ok W \<longleftrightarrow>
     length (cw_idle W) \<le> MAX_IDLE_SESSIONS \<and>
     distinct (map fst (cw_idle W) @ map fst (cw_tasks W)) \<and>
     (\<forall>h \<in> fst ` set (cw_idle W) \<union> fst ` set (cw_tasks W). h < length (cw_sessions W)) \<and>
     registered_ok (cw_sessions W) (cw_tasks W)"

lemma update_session_sel [simp]:
  "cw_idle (update_session h s W) = cw_idle W" "cw_tasks (update_session h s W) = cw_tasks W"
  "cw_padding (update_session h s W) = cw_padding W"
  "cw_sessions (update_session h s W) = (cw_sessions W)[h := s]"
  by (simp_all add: update_session_def)

lemma pool_ok_new: "pool_ok (client_world_new padding)"
  by (simp add: pool_ok_def client_world_new_def registered_ok_def)

lemma registered_ok_update:
  assumes "registered_ok ss ts" "h < length ss \<Longrightarrow> distinct (cs_streams s)"
    "h < length ss \<Longrightarrow> \<forall>i \<in> set (cs_streams s). \<exists>t. (h, t) \<in> set ts' \<and> task_stream t = Some i"
    "\<And>g t. g \<noteq> h \<Longrightarrow> (g, t) \<in> set ts \<Longrightarrow> (g, t) \<in> set ts'"
  shows "registered_ok (ss[h := s]) ts'"
  unfolding registered_ok_def
proof (intro allI impI)
  fix g assume g: "g < length (ss[h := s])"
  show "distinct (cs_streams (ss[h := s] ! g)) \<and>
    (\<forall>i \<in> set (cs_streams (ss[h := s] ! g)). \<exists>t. (g, t) \<in> set ts' \<and> task_stream t = Some i)"
  proof (cases "g = h")
    case True
    then show ?thesis using assms(2,3) g by simp
  next
    case False
    then have "\<forall>i \<in> set (cs_streams (ss ! g)). \<exists>t. (g, t) \<in> set ts' \<and> task_stream t = Some i"
      using assms(1) assms(4) [of g] g unfolding registered_ok_def by fastforce
    then show ?thesis using False assms(1) g by (simp add: registered_ok_def)
  qed
qed

lemma pool_ok_registered: "pool_ok W \<Longrightarrow> registered_ok (cw_sessions W) (cw_tasks W)"
  by (simp add: pool_ok_def)

lemma pool_ok_shrink:
  assumes "pool_ok W" "streams_shrink (cw_sessions W ! h) s"
  shows "pool_ok (update_session h s W)"
proof -
  note reg = pool_ok_registered [OF assms(1)]
  have "registered_ok ((cw_sessions W)[h := s]) (cw_tasks W)"
    by (rule registered_ok_update [OF reg])
       (use reg assms(2) in \<open>auto simp: registered_ok_def streams_shrink_def\<close>)
  then show ?thesis using assms(1) by (simp add: pool_ok_def)
qed

lemma pool_ok_close:
  "pool_ok W \<Longrightarrow> pool_ok (close_idle_sessions hs reason W)"
  by (induction hs reason W rule: close_idle_sessions.induct) (auto intro: pool_ok_shrink shrinks)

lemma subset_disjoint: "A \<subseteq> B \<Longrightarrow> B \<inter> C = {} \<Longrightarrow> A \<inter> C = {}"
  by blast

lemma subset_ball: "A \<subseteq> B \<Longrightarrow> \<forall>x \<in> B \<union> C. P x \<Longrightarrow> \<forall>x \<in> A \<union> C. P x"
  by blast

lemma pool_ok_idle:
  assumes "pool_ok W" "length idle \<le> MAX_IDLE_SESSIONS" "distinct (map fst idle)"
    "fst ` set idle \<subseteq> fst ` set (cw_idle W)"
  shows "pool_ok (W\<lparr> cw_idle := idle \<rparr>)"
proof -
  have "fst ` set (cw_idle W) \<inter> fst ` set (cw_tasks W) = {}"
    "\<forall>h \<in> fst ` set (cw_idle W) \<union> fst ` set (cw_tasks W). h < length (cw_sessions W)"
    using assms(1) by (simp_all add: pool_ok_def)
  from subset_disjoint [OF assms(4) this(1)] subset_ball [OF assms(4) this(2)]
  show ?thesis using assms(1-3) unfolding pool_ok_def by simp
qed

text \<open>A session that is in use carries at most the stream of its task.\<close>

lemma task_registered:
  assumes "pool_ok W" "cw_tasks W = ts @ (h, t) # us"
  shows "set (cs_streams (cw_sessions W ! h)) \<subseteq> set_option (task_stream t)"
    "distinct (cs_streams (cw_sessions W ! h))" "h < length (cw_sessions W)"
proof -
  note reg = pool_ok_registered [OF assms(1)]
  have "(h, t) \<in> set (cw_tasks W)" using assms(2) by simp
  then show h: "h < length (cw_sessions W)" using assms(1) unfolding pool_ok_def by (metis UnI2 fst_conv imageI)
  then show "distinct (cs_streams (cw_sessions W ! h))" using reg by (simp add: registered_ok_def)
  have "distinct (map fst (cw_tasks W))" using assms(1) by (simp add: pool_ok_def)
  then have only: "t' = t" if "(h, t') \<in> set (cw_tasks W)" for t'
    using that \<open>(h, t) \<in> set (cw_tasks W)\<close> by (metis map_of_is_SomeI option.inject)
  show "set (cs_streams (cw_sessions W ! h)) \<subseteq> set_option (task_stream t)"
  proof
    fix i assume "i \<in> set (cs_streams (cw_sessions W ! h))"
    then obtain t' where "(h, t') \<in> set (cw_tasks W)" "task_stream t' = Some i"
      using reg h unfolding registered_ok_def by blast
    then show "i \<in> set_option (task_stream t)" using only by simp
  qed
qed

lemma pool_ok_task:
  assumes "pool_ok W" "cw_tasks W = ts @ (h, t) # us" "distinct (cs_streams s)"
    "set (cs_streams s) \<subseteq> set_option (task_stream t')"
  shows "pool_ok (update_session h s (W\<lparr> cw_tasks := ts @ (h, t') # us \<rparr>))"
proof -
  have "registered_ok ((cw_sessions W)[h := s]) (ts @ (h, t') # us)"
    by (rule registered_ok_update [OF pool_ok_registered [OF assms(1)]]) (use assms(2-4) in auto)
  then show ?thesis using assms(1,2) by (simp add: pool_ok_def)
qed

lemma pool_ok_untask:
  assumes "pool_ok W" "cw_tasks W = ts @ (h, t) # us" "cs_streams s = []"
  shows "pool_ok (update_session h s (W\<lparr> cw_tasks := ts @ us \<rparr>))"
proof -
  have "registered_ok ((cw_sessions W)[h := s]) (ts @ us)"
    by (rule registered_ok_update [OF pool_ok_registered [OF assms(1)]]) (use assms(2,3) in auto)
  then show ?thesis using assms(1,2) by (simp add: pool_ok_def)
qed

lemma pool_ok_expire:
  assumes "pool_ok W" "take_expired_idle_sessions now (cw_idle W) = (keep, expired)"
  shows "pool_ok (W\<lparr> cw_idle := keep \<rparr>)" "length keep \<le> length (cw_idle W)"
    "fst ` set keep \<subseteq> fst ` set (cw_idle W)" "distinct (map fst keep)"
proof -
  have keep: "keep = filter (\<lambda>(_, since). now - since < IDLE_SESSION_TIMEOUT) (cw_idle W)"
    using assms(2) by (simp add: take_expired_eq)
  then show 1: "length keep \<le> length (cw_idle W)" "fst ` set keep \<subseteq> fst ` set (cw_idle W)" by auto
  show 2: "distinct (map fst keep)" using assms(1) unfolding keep by (simp add: pool_ok_def distinct_map_filter)
  show "pool_ok (W\<lparr> cw_idle := keep \<rparr>)"
    using 1 2 assms(1) by (intro pool_ok_idle) (auto simp: pool_ok_def)
qed

lemma pool_ok_release:
  assumes "pool_ok W" "h < length (cw_sessions W)" "h \<notin> fst ` set (cw_idle W)" "h \<notin> fst ` set (cw_tasks W)"
  shows "pool_ok (client_release now h W)"
proof -
  obtain keep expired where e: "take_expired_idle_sessions now (cw_idle W) = (keep, expired)" by force
  note k = pool_ok_expire [OF assms(1) e]
  have "pool_ok (W\<lparr> cw_idle := keep @ [(h, now)] \<rparr>)" if "length keep < MAX_IDLE_SESSIONS"
    using that k assms by (auto simp: pool_ok_def)
  then show ?thesis
    using k(1) assms(1) e unfolding client_release_def by (auto intro!: pool_ok_close pool_ok_shrink shrinks)
qed

lemma close_idle_sessions_sel [simp]:
  "cw_idle (close_idle_sessions hs reason W) = cw_idle W"
  "cw_tasks (close_idle_sessions hs reason W) = cw_tasks W"
  "cw_padding (close_idle_sessions hs reason W) = cw_padding W"
  "length (cw_sessions (close_idle_sessions hs reason W)) = length (cw_sessions W)"
  by (induction hs reason W rule: close_idle_sessions.induct) simp_all

text \<open>What \<open>acquire\<close> takes out of the pool.\<close>

lemma acquire_idle_spec:
  assumes "acquire_idle alive now idle = (found, to_close, rest)"
  shows "\<exists>keep pre. take_expired_idle_sessions now idle = (keep, map fst (filter (\<lambda>(_, since). \<not> now - since < IDLE_SESSION_TIMEOUT) idle)) \<and>
    keep = pre @ rest \<and>
    (case found of None \<Rightarrow> rest = []
     | Some h \<Rightarrow> alive h \<and> (\<exists>dead since. pre = dead @ [(h, since)] \<and> now - since < IDLE_SESSION_TIMEOUT))"
proof -
  obtain keep expired where e: "take_expired_idle_sessions now idle = (keep, expired)" by force
  obtain f d r where pop: "pop_alive alive keep = (f, d, r)" by (cases "pop_alive alive keep") auto
  then have fr: "found = f" "rest = r" using assms e by (simp_all add: acquire_idle_def)
  have fresh: "\<forall>(h, since) \<in> set keep. now - since < IDLE_SESSION_TIMEOUT"
    using e by (auto simp: take_expired_eq)
  show ?thesis
  proof (cases f)
    case None
    then show ?thesis using pop_alive_spec [OF pop] e fr by (auto simp: take_expired_eq)
  next
    case (Some h)
    then obtain pre since where "alive h" "keep = pre @ (h, since) # r" using pop_alive_spec [OF pop] by auto
    then show ?thesis
      using e fr Some fresh by (intro exI [of _ keep] exI [of _ "pre @ [(h, since)]"]) (auto simp: take_expired_eq)
  qed
qed

lemma client_connect_streams: "client_connect sha dial rnds password padding = Inr s \<Longrightarrow> cs_streams s = []"
  by (auto simp: client_connect_def and_then_Inr_iff Let_def)

lemma pool_ok_acquire:
  assumes "pool_ok W" "client_acquire now (client_connect sha dial rnds password) W = (r, W')"
  shows "pool_ok W' \<and> cw_tasks W' = cw_tasks W \<and>
    (case r of Inl _ \<Rightarrow> True
     | Inr h \<Rightarrow> h < length (cw_sessions W') \<and> h \<notin> fst ` set (cw_idle W') \<and> h \<notin> fst ` set (cw_tasks W'))"
proof -
  let ?alive = "\<lambda>h. is_alive (cw_sessions W ! h)"
  obtain found to_close rest where a: "acquire_idle ?alive now (cw_idle W) = (found, to_close, rest)"
    by (cases "acquire_idle ?alive now (cw_idle W)") auto
  from acquire_idle_spec [OF a] obtain keep pre expired where k:
    "take_expired_idle_sessions now (cw_idle W) = (keep, expired)" "keep = pre @ rest"
    "case found of None \<Rightarrow> rest = [] | Some h \<Rightarrow> ?alive h \<and> (\<exists>dead since. pre = dead @ [(h, since)])"
    by (cases found) auto
  note e = pool_ok_expire [OF assms(1) k(1)]
  let ?W = "W\<lparr> cw_idle := rest \<rparr>"
  have "pool_ok ?W"
    using pool_ok_idle [OF e(1), of rest] e(2,4) k(2) assms(1) by (auto simp: pool_ok_def image_Un)
  then have ok: "pool_ok (close_idle_sessions to_close ''idle timeout'' ?W)" (is "pool_ok ?W1") by (rule pool_ok_close)
  show ?thesis
  proof (cases found)
    case (Some h)
    then obtain dead since where "keep = dead @ (h, since) # rest" using k by auto
    then have "h \<notin> fst ` set rest" "h \<in> fst ` set (cw_idle W)" using e(3,4) by auto
    moreover from this(2) have "h < length (cw_sessions W)" "h \<notin> fst ` set (cw_tasks W)"
      using assms(1) unfolding pool_ok_def by (blast, simp add: disjoint_iff)
    ultimately show ?thesis
      using assms(2) a Some ok by (auto simp: client_acquire_def Let_def)
  next
    case None
    show ?thesis
    proof (cases "client_connect sha dial rnds password (cw_padding W)")
      case (Inl err)
      then show ?thesis using assms(2) a None ok by (auto simp: client_acquire_def Let_def)
    next
      case (Inr s)
      have r: "r = Inr (length (cw_sessions W))" "W' = ?W1\<lparr> cw_sessions := cw_sessions ?W1 @ [s] \<rparr>"
        using assms(2) a None Inr by (auto simp: client_acquire_def Let_def)
      have rest: "rest = []" using k(3) None by simp
      have reg: "registered_ok (cw_sessions ?W1 @ [s]) (cw_tasks W)"
        using pool_ok_registered [OF ok] client_connect_streams [OF Inr]
        by (auto simp: registered_ok_def nth_append less_Suc_eq)
      have lt: "\<forall>h \<in> fst ` set (cw_tasks W). h < length (cw_sessions W)" using assms(1) by (simp add: pool_ok_def)
      then have "length (cw_sessions W) \<notin> fst ` set (cw_tasks W)" by blast
      then show ?thesis using r rest reg lt assms(1) by (auto simp: pool_ok_def less_Suc_eq)
    qed
  qed
qed

lemma pool_ok_add_task:
  assumes "pool_ok W" "h < length (cw_sessions W)" "h \<notin> fst ` set (cw_idle W)" "h \<notin> fst ` set (cw_tasks W)"
  shows "pool_ok (W\<lparr> cw_tasks := cw_tasks W @ [(h, Acquired)] \<rparr>)"
proof -
  have "registered_ok (cw_sessions W) (cw_tasks W @ [(h, Acquired)])"
    using pool_ok_registered [OF assms(1)] unfolding registered_ok_def by fastforce
  then show ?thesis using assms by (simp add: pool_ok_def)
qed

lemma map_eq_nth: "map f xs = map f ys \<Longrightarrow> n < length ys \<Longrightarrow> f (xs ! n) = f (ys ! n)"
  by (metis length_map nth_map)

lemma pool_ok_listener_drop:
  assumes "pool_ok W"
  shows "pool_ok (shared_client_drop W)"
proof -
  let ?f = "\<lambda>h ss. ss[h := (ss ! h)\<lparr> cs_abort := True \<rparr>]"
  have same: "length (fold ?f hs ss) = length ss \<and> map cs_streams (fold ?f hs ss) = map cs_streams ss" for hs ss
  proof (induction hs arbitrary: ss)
    case (Cons h hs)
    have "map cs_streams (?f h ss) = map cs_streams ss"
      by (cases "h < length ss") (simp_all add: map_update list_update_same_conv list_update_beyond)
    then show ?case using Cons [of "?f h ss"] by simp
  qed simp
  let ?ss = "fold ?f (map fst (cw_idle W)) (cw_sessions W)"
  note ss = same [of "map fst (cw_idle W)" "cw_sessions W"]
  have "cs_streams (?ss ! h) = cs_streams (cw_sessions W ! h)" if "h < length (cw_sessions W)" for h
    by (rule map_eq_nth [OF conjunct2 [OF ss] that])
  then have "registered_ok ?ss (cw_tasks W)"
    using pool_ok_registered [OF assms] ss unfolding registered_ok_def by simp
  then show ?thesis using assms ss by (simp add: shared_client_drop_def pool_ok_def)
qed

lemma pool_ok_open:
  assumes "pool_ok W" "cw_tasks W = ts @ (h, Acquired) # us"
    "client_open_stream rnd rnds (cw_sessions W ! h) target initial = (s, r)"
  shows "pool_ok (update_session h s
    (W\<lparr> cw_tasks := ts @ (h, case r of Inl e \<Rightarrow> Finished | Inr i \<Rightarrow> Opening i None) # us \<rparr>))"
  using task_registered [OF assms(1,2)] client_open_stream_streams [OF assms(3)]
  by (intro pool_ok_task [OF assms(1,2)]) (auto split: sum.splits)

lemma pool_ok_task_shrink:
  assumes "pool_ok W" "cw_tasks W = ts @ (h, t) # us" "streams_shrink (cw_sessions W ! h) s"
    "task_stream t' = task_stream t \<or> set_option (task_stream t) \<inter> set (cs_streams s) = {}"
  shows "pool_ok (update_session h s (W\<lparr> cw_tasks := ts @ (h, t') # us \<rparr>))"
  using task_registered [OF assms(1,2)] assms(3,4)
  by (intro pool_ok_task [OF assms(1,2)]) (fastforce simp: streams_shrink_def)+

lemma task_drop_streams: "set_option (task_stream t) \<inter> set (cs_streams (task_drop t s)) = {}"
  by (cases t) (simp_all add: registration_drop_streams)

lemma client_step_ok:
  assumes "pool_ok W" "client_step W W'"
  shows "pool_ok W'"
  using assms(2)
proof cases
  case (step_acquire now sha dial rnds password h W1)
  have "pool_ok W1" "h < length (cw_sessions W1)" "h \<notin> fst ` set (cw_idle W1)" "h \<notin> fst ` set (cw_tasks W1)"
    using pool_ok_acquire [OF assms(1) step_acquire(2)] unfolding sum.case by satx+
  then show ?thesis unfolding step_acquire(1) by (rule pool_ok_add_task)
next
  case (step_acquire_failed now sha dial rnds password e)
  then show ?thesis using pool_ok_acquire [OF assms(1) step_acquire_failed(1)] by simp
next
  case (step_open ts h us rnd rnds target initial s r t)
  then show ?thesis using pool_ok_open [OF assms(1)] by simp
next
  case (step_give_up ts h us)
  show ?thesis
    using pool_ok_task_shrink [OF assms(1) step_give_up(2) streams_shrink_refl, of Finished]
    unfolding step_give_up(1) by (simp add: update_session_def)
next
  case (step_poll ts h i pending us s r t)
  show ?thesis
    unfolding step_poll(1)
    by (rule pool_ok_task_shrink [OF assms(1) step_poll(2) poll_open_shrink [OF step_poll(3)]])
       (use step_poll(3,4) poll_open_failed in \<open>auto split: open_progress.splits\<close>)
next
  case (step_uplink ts h i pending us rnds data recorded s)
  then show ?thesis using pool_ok_shrink [OF assms(1)] relay_uplink_shrink by blast
next
  case (step_udp_uplink ts h i pending us rnds datagram upload s)
  then show ?thesis using pool_ok_shrink [OF assms(1)] udp_to_stream_shrink by blast
next
  case (step_read ts h i pending us s r)
  show ?thesis
    unfolding step_read(1)
    by (rule pool_ok_task_shrink [OF assms(1) step_read(2) read_payload_shrink [OF step_read(3)]]) simp
next
  case (step_finish ts h i pending us s rnd timed_out)
  show ?thesis
    unfolding step_finish(1,3)
    by (rule pool_ok_task_shrink [OF assms(1) step_finish(2) registration_finish_shrink])
       (simp add: registration_finish_streams)
next
  case (step_release ts h us now)
  have "cs_streams (cw_sessions W ! h) = []" using task_registered(1) [OF assms(1) step_release(2)] by simp
  then have "pool_ok (W\<lparr> cw_tasks := ts @ us \<rparr>)"
    using pool_ok_untask [OF assms(1) step_release(2), of "cw_sessions W ! h"] by (simp add: update_session_def)
  moreover have "h \<notin> fst ` set (cw_idle W)" "h \<notin> fst ` set ts" "h \<notin> fst ` set us"
    using assms(1) step_release(2) by (simp_all add: pool_ok_def)
  ultimately show ?thesis
    unfolding step_release(1)
    using task_registered(3) [OF assms(1) step_release(2)] by (intro pool_ok_release) auto
next
  case (step_drop ts h t us)
  have "cs_streams (task_drop t (cw_sessions W ! h)) = []"
    using task_registered(1) [OF assms(1) step_drop(2)] task_drop_streams [of t "cw_sessions W ! h"]
      task_drop_shrink [of "cw_sessions W ! h" t]
    by (cases "task_stream t") (auto simp: streams_shrink_def subset_singleton_iff)
  then show ?thesis unfolding step_drop(1) by (rule pool_ok_untask [OF assms(1) step_drop(2)])
next
  case (step_sweep now)
  then show ?thesis
    using pool_ok_expire(1) [OF assms(1)]
    by (auto simp: sweep_idle_client_sessions_def intro: pool_ok_close split: prod.splits)
next
  case (step_frame h describe md5hex rnd r s padding)
  have "pool_ok (W\<lparr> cw_padding := padding \<rparr>)" using assms(1) by (simp add: pool_ok_def)
  then show ?thesis
    unfolding step_frame(1) using read_session_frame_shrink [OF step_frame(3)] by (intro pool_ok_shrink) simp_all
qed (use assms(1) in \<open>auto intro: pool_ok_shrink shrinks pool_ok_listener_drop\<close>)

interpretation client_pool: step_invariant "\<lambda>W. \<exists>padding. W = client_world_new padding" client_step pool_ok
  by unfold_locales (auto intro: pool_ok_new client_step_ok)

lemma no_task_no_streams:
  assumes "pool_ok W" "h < length (cw_sessions W)" "h \<notin> fst ` set (cw_tasks W)"
  shows "cs_streams (cw_sessions W ! h) = []"
proof (rule ccontr)
  assume "cs_streams (cw_sessions W ! h) \<noteq> []"
  then obtain t where "(h, t) \<in> set (cw_tasks W)"
    using pool_ok_registered [OF assms(1)] assms(2) unfolding registered_ok_def by (meson last_in_set)
  then show False using assms(3) by force
qed

lemma one_stream:
  assumes "pool_ok W" "h < length (cw_sessions W)"
  shows "length (cs_streams (cw_sessions W ! h)) \<le> 1"
proof (cases "h \<in> fst ` set (cw_tasks W)")
  case True
  then obtain t ts us where t: "cw_tasks W = ts @ (h, t) # us" by (metis imageE prod.collapse split_list)
  have "card (set (cs_streams (cw_sessions W ! h))) \<le> card (set_option (task_stream t))"
    using task_registered(1) [OF assms(1) t] by (intro card_mono) (cases "task_stream t", auto)
  also have "\<dots> \<le> 1" by (cases "task_stream t") auto
  finally show ?thesis using task_registered(2) [OF assms(1) t] by (simp add: distinct_card)
qed (use assms no_task_no_streams in simp)

section \<open>Properties\<close>

text \<open>C6: a session serves one stream at a time. In every state the client can reach, at most 16
  sessions are idle, no session is both idle and in use or in use twice, no session carries
  more than one registered stream, and an idle one carries none. What \<open>acquire\<close> takes from the
  pool is alive, was idle for less than 30 seconds and is in nobody's hands.\<close>

theorem client_pool_exclusive:
  assumes "reachable (\<lambda>W. \<exists>padding. W = client_world_new padding) client_step W"
  shows "length (cw_idle W) \<le> MAX_IDLE_SESSIONS \<and>
    distinct (map fst (cw_idle W) @ map fst (cw_tasks W)) \<and>
    list_all (\<lambda>s. length (cs_streams s) \<le> 1) (cw_sessions W) \<and>
    list_all (\<lambda>(h, since). cs_streams (cw_sessions W ! h) = []) (cw_idle W) \<and>
    (case acquire_idle (\<lambda>h. is_alive (cw_sessions W ! h)) now (cw_idle W) of
       (None, to_close, idle) \<Rightarrow> idle = []
     | (Some h, to_close, idle) \<Rightarrow>
         is_alive (cw_sessions W ! h) \<and> h \<notin> fst ` set (cw_tasks W) \<and> h \<notin> fst ` set idle \<and>
         (\<exists>since. (h, since) \<in> set (cw_idle W) \<and> now - since < IDLE_SESSION_TIMEOUT))"
proof -
  have ok: "pool_ok W" by (rule client_pool.reachable_inv [OF assms])
  have idle: "h < length (cw_sessions W)" "h \<notin> fst ` set (cw_tasks W)" if "h \<in> fst ` set (cw_idle W)" for h
    using that ok unfolding pool_ok_def by (blast, simp add: disjoint_iff)
  have "list_all (\<lambda>s. length (cs_streams s) \<le> 1) (cw_sessions W)"
    using one_stream [OF ok] by (auto simp: list_all_length)
  moreover have "list_all (\<lambda>(h, since). cs_streams (cw_sessions W ! h) = []) (cw_idle W)"
    using no_task_no_streams [OF ok] idle by (force simp: list_all_iff)
  moreover obtain found to_close rest where
    a: "acquire_idle (\<lambda>h. is_alive (cw_sessions W ! h)) now (cw_idle W) = (found, to_close, rest)"
    by (cases "acquire_idle (\<lambda>h. is_alive (cw_sessions W ! h)) now (cw_idle W)") auto
  have "case found of None \<Rightarrow> rest = []
     | Some h \<Rightarrow> is_alive (cw_sessions W ! h) \<and> h \<notin> fst ` set (cw_tasks W) \<and> h \<notin> fst ` set rest \<and>
         (\<exists>since. (h, since) \<in> set (cw_idle W) \<and> now - since < IDLE_SESSION_TIMEOUT)"
  proof (cases found)
    case None
    then show ?thesis using acquire_idle_spec [OF a] by auto
  next
    case (Some h)
    then obtain expired dead since where k: "is_alive (cw_sessions W ! h)" "now - since < IDLE_SESSION_TIMEOUT"
      "take_expired_idle_sessions now (cw_idle W) = (dead @ (h, since) # rest, expired)"
      using acquire_idle_spec [OF a] by auto
    note e = pool_ok_expire [OF ok k(3)]
    have "set (dead @ (h, since) # rest) \<subseteq> set (cw_idle W)"
      using k(3) unfolding take_expired_eq by (metis filter_is_subset prod.inject)
    then have "(h, since) \<in> set (cw_idle W)" by simp
    moreover from this have "h \<notin> fst ` set (cw_tasks W)" using idle by force
    moreover have "h \<notin> fst ` set rest" using e(4) by simp
    ultimately show ?thesis using Some k(1,2) by auto
  qed
  ultimately show ?thesis using ok a by (simp add: pool_ok_def split: option.splits)
qed

theorem client_pool_exclusive_witness:
  "\<exists>W :: client_world. cw_tasks W = [(0, Opening 1 None)] \<and> map cs_streams (cw_sessions W) = [[1]] \<and>
     length (cw_idle W) \<le> MAX_IDLE_SESSIONS \<and>
     list_all (\<lambda>s. length (cs_streams s) \<le> 1) (cw_sessions W)"
proof -
  let ?pad = "\<lparr> ps_raw = [], ps_md5 = [], ps_stop = 1, ps_rules = [] \<rparr>"
  let ?connect = "client_connect (\<lambda>b. b) (Inr one_byte_writer) (\<lambda>_ _. Inr 0) ''pw''"
  let ?t = "Ip (SocketV4 0 80)"
  have safe: "wire_safe ?pad" by (simp add: wire_safe_def)
  have "length (settings_text ?pad) \<le> MAX_FRAME_PAYLOAD_LEN" by (simp add: settings_text_def)
  then obtain w ws where c: "?connect ?pad = Inr (connected_session w ws)"
    "pw_inner w = one_byte_writer" "pw_padding w = ?pad"
    using client_connect_ok [OF writer_progress_one_byte safe, of "\<lambda>_ _. Inr 0" "\<lambda>b. b" "''pw''"] by auto
  let ?s = "connected_session w ws"
  let ?W1 = "\<lparr> cw_padding = ?pad, cw_idle = [], cw_sessions = [?s], cw_tasks = [(0, Acquired)] \<rparr>"
  obtain t where t: "encode_target ?t = Inr t" by simp
  obtain w2 ws2 where o: "client_open_stream (\<lambda>_. Inr 0) (\<lambda>_ _. Inr 0) ?s ?t [] =
      (?s\<lparr> cs_writer := w2, cs_wire := ws2, cs_next_stream_id := 2, cs_streams := [1],
           cs_events := \<lambda>_. [], cs_first_packet := False \<rparr>, Inr 1)" (is "_ = (?s2, _)")
    using client_open_stream_ok [of ?s ?t t "\<lambda>_. Inr 0" "\<lambda>_ _. Inr 0" "[]"] t c safe writer_progress_one_byte
    by (auto simp: connected_session_def fun_upd_def)
  let ?W2 = "\<lparr> cw_padding = ?pad, cw_idle = [], cw_sessions = [?s2], cw_tasks = [(0, Opening 1 None)] \<rparr>"
  have "client_acquire 0 ?connect (client_world_new ?pad) = (Inr 0, ?W1\<lparr> cw_tasks := [] \<rparr>)"
    using c(1) by (simp add: client_acquire_def acquire_idle_def client_world_new_def)
  from step_acquire [OF this] have 1: "client_step (client_world_new ?pad) ?W1" by simp
  have 2: "client_step ?W1 ?W2"
    using step_open [of ?W1 "[]" 0 "[]" _ _ ?t "[]" ?s2 "Inr 1", OF _ _ refl] o by (simp add: update_session_def)
  have "reachable (\<lambda>W. \<exists>padding. W = client_world_new padding) client_step (client_world_new ?pad)"
    by (rule reachable_init) blast
  from client_pool_exclusive [OF reachable_step [OF reachable_step [OF this 1] 2]]
  show ?thesis by (intro exI [of _ ?W2]) simp
qed

end
