(* ===== verification/Limiter.thy ===== *)
theory Limiter
  imports Prelude
begin

text \<open>
  The byte rate limiter (\<open>src/src/core/limiter.rs\<close>). Instants and durations are numbers of clock
  ticks. \<open>dur bytes rate\<close> is the duration that the floating-point expression
  \<open>Duration::from_secs_f64(bytes as f64 / rate as f64)\<close> yields; it is a parameter, and the
  theorems hold for every such function.

  \<open>limiter_reserve\<close> is \<open>wait\<close> up to its sleep: it loads the rate and, under the lock, advances the
  schedule and returns the moment to sleep until, or nothing when there is no limit.
\<close>

record limiter =
  lim_bytes_per_second :: u64
  lim_next :: nat

definition rate_value :: "u64 option \<Rightarrow> u64" where
  "rate_value bps = (case bps of Some rate \<Rightarrow> (if rate > 0 then rate else 0) | None \<Rightarrow> 0)"

definition limiter_new :: "u64 option \<Rightarrow> nat \<Rightarrow> limiter" where
  "limiter_new bps now = \<lparr> lim_bytes_per_second = rate_value bps, lim_next = now \<rparr>"

definition limiter_set_rate :: "u64 option \<Rightarrow> nat \<Rightarrow> limiter \<Rightarrow> limiter" where
  "limiter_set_rate bps now l =
     (let rate = rate_value bps; previous = lim_bytes_per_second l;
          l = l\<lparr> lim_bytes_per_second := rate \<rparr> in
      if previous \<noteq> rate then l\<lparr> lim_next := now \<rparr> else l)"

definition limiter_reserve ::
  "(u64 \<Rightarrow> u64 \<Rightarrow> nat) \<Rightarrow> nat \<Rightarrow> u64 \<Rightarrow> limiter \<Rightarrow> nat option \<times> limiter" where
  "limiter_reserve dur now bytes l =
     (let rate = lim_bytes_per_second l in
      if bytes = 0 \<or> rate = 0 then (None, l)
      else
        (let start = (if lim_next l < now then now else lim_next l);
             wait_until = start + dur bytes rate in
         (Some wait_until, l\<lparr> lim_next := wait_until \<rparr>)))"

text \<open>A sequence of reservations, each at its moment: the moments they may go on.\<close>

fun reserve_all ::
  "(u64 \<Rightarrow> u64 \<Rightarrow> nat) \<Rightarrow> limiter \<Rightarrow> (nat \<times> u64) list \<Rightarrow> nat option list \<times> limiter" where
  "reserve_all dur l [] = ([], l)"
| "reserve_all dur l ((now, bytes) # reqs) =
     (case limiter_reserve dur now bytes l of
        (w, l') \<Rightarrow> (case reserve_all dur l' reqs of (ws, l'') \<Rightarrow> (w # ws, l'')))"

lemma reserve_all_length [simp]: "length (fst (reserve_all dur l reqs)) = length reqs"
  by (induction dur l reqs rule: reserve_all.induct) (auto split: prod.splits)

lemma reserve_all_rate: "lim_bytes_per_second (snd (reserve_all dur l reqs)) = lim_bytes_per_second l"
  by (induction dur l reqs rule: reserve_all.induct)
     (auto simp: limiter_reserve_def Let_def split: prod.splits if_splits)

lemma reserve_Some:
  assumes "bytes \<noteq> 0" "lim_bytes_per_second l \<noteq> 0"
  shows "limiter_reserve dur now bytes l =
    (Some (max now (lim_next l) + dur bytes (lim_bytes_per_second l)),
     l\<lparr> lim_next := max now (lim_next l) + dur bytes (lim_bytes_per_second l) \<rparr>)"
  using assms by (auto simp: limiter_reserve_def Let_def max_def)

text \<open>A request made after others may go on only after the time for all of them has passed.\<close>

lemma reserve_all_bound:
  assumes "lim_bytes_per_second l \<noteq> 0" "\<forall>(_, bytes) \<in> set reqs. bytes \<noteq> 0" "j < length reqs"
  shows "\<exists>w. fst (reserve_all dur l reqs) ! j = Some w \<and>
    lim_next l + (\<Sum>i\<leftarrow>[0..<Suc j]. dur (snd (reqs ! i)) (lim_bytes_per_second l)) \<le> w \<and>
    (\<forall>i \<le> j. fst (reqs ! i) + (\<Sum>k\<leftarrow>[i..<Suc j]. dur (snd (reqs ! k)) (lim_bytes_per_second l)) \<le> w)"
  using assms
proof (induction reqs arbitrary: l j)
  case (Cons req reqs)
  obtain now bytes where req: "req = (now, bytes)" by force
  let ?r = "lim_bytes_per_second l"
  let ?w = "max now (lim_next l) + dur bytes ?r"
  let ?l = "l\<lparr> lim_next := ?w \<rparr>"
  let ?f = "\<lambda>i. dur (snd ((req # reqs) ! i)) ?r"
  have step: "limiter_reserve dur now bytes l = (Some ?w, ?l)"
    using Cons.prems req by (intro reserve_Some) auto
  show ?case
  proof (cases j)
    case 0
    then show ?thesis using step req by (simp split: prod.splits)
  next
    case (Suc k)
    obtain w where w: "fst (reserve_all dur ?l reqs) ! k = Some w"
      "lim_next ?l + (\<Sum>i\<leftarrow>[0..<Suc k]. dur (snd (reqs ! i)) ?r) \<le> w"
      "\<forall>i \<le> k. fst (reqs ! i) + (\<Sum>m\<leftarrow>[i..<Suc k]. dur (snd (reqs ! m)) ?r) \<le> w"
      using Cons.IH [of ?l k] Cons.prems Suc by auto
    have shift: "(\<Sum>m\<leftarrow>[Suc i..<Suc (Suc k)]. ?f m) = (\<Sum>m\<leftarrow>[i..<Suc k]. dur (snd (reqs ! m)) ?r)" for i
      unfolding map_Suc_upt [symmetric] map_map by (simp add: comp_def del: upt_Suc)
    have first: "(\<Sum>m\<leftarrow>[0..<Suc j]. ?f m) = dur bytes ?r + (\<Sum>m\<leftarrow>[0..<Suc k]. dur (snd (reqs ! m)) ?r)"
      using shift [of 0] Suc req by (simp add: upt_conv_Cons del: upt_Suc)
    have res: "fst (reserve_all dur l (req # reqs)) ! j = Some w"
      using step w(1) Suc req by (cases "reserve_all dur ?l reqs") simp
    have "fst ((req # reqs) ! i) + (\<Sum>m\<leftarrow>[i..<Suc j]. ?f m) \<le> w" if "i \<le> j" for i
    proof (cases i)
      case 0
      then show ?thesis using first w(2) req by simp
    next
      case (Suc i')
      then show ?thesis using w(3) that \<open>j = Suc k\<close> shift [of i'] by simp
    qed
    then show ?thesis using res first w(2) by auto
  qed
qed simp

section \<open>Properties\<close>

text \<open>C21: the limiter spaces traffic out. When a rate is set, every reservation is scheduled, and
  whatever earlier request one starts counting from, the scheduled moment lies behind that
  request by at least the time due for all bytes reserved from then on: concurrent transfers
  share one budget, and idle time is not saved up.\<close>

theorem limiter_enforces_rate:
  assumes "lim_bytes_per_second l \<noteq> 0" "\<forall>(_, bytes) \<in> set reqs. bytes \<noteq> 0" "i \<le> j" "j < length reqs"
  shows "\<exists>w. fst (reserve_all dur l reqs) ! j = Some w \<and>
    fst (reqs ! i) + (\<Sum>k\<leftarrow>[i..<Suc j]. dur (snd (reqs ! k)) (lim_bytes_per_second l)) \<le> w"
  using reserve_all_bound [OF assms(1,2,4), of dur] assms(3) by blast

theorem limiter_enforces_rate_witness:
  "\<exists>w. fst (reserve_all (\<lambda>b r. unat b * 1000 div unat r) (limiter_new (Some 100) 0)
          [(0, 50), (10, 100), (20, 50)]) ! 2 = Some w \<and> 10 + 1500 \<le> w"
proof -
  have "lim_bytes_per_second (limiter_new (Some 100) 0) = 100"
    by (simp add: limiter_new_def rate_value_def word_gt_0)
  then show ?thesis
    using limiter_enforces_rate [of "limiter_new (Some 100) 0" "[(0, 50), (10, 100), (20, 50)]" 1 2
        "\<lambda>b r. unat b * 1000 div unat r"]
    by (simp add: upt_rec)
qed

end
