(* ===== verification/EventBus.thy ===== *)
theory EventBus
  imports Prelude
begin

text \<open>
  The event bus of the core (\<open>src/src/core/events.rs\<close>). A channel is an unbounded queue with a
  flag that says whether its receiver still exists; a subscriber is the index of its channel.
  Sending to a channel whose receiver is gone fails, and the bus then forgets the subscriber.
\<close>

record 'e channel =
  ch_open :: bool
  ch_queue :: "'e list"

record 'e event_bus =
  eb_subscribers :: "nat list"
  eb_subscriber_count :: nat
  eb_channels :: "'e channel list"

definition event_bus_default :: "'e event_bus" where
  "event_bus_default = \<lparr> eb_subscribers = [], eb_subscriber_count = 0, eb_channels = [] \<rparr>"

definition bus_subscribe :: "'e event_bus \<Rightarrow> nat \<times> 'e event_bus" where
  "bus_subscribe b =
     (let tx = length (eb_channels b);
          subscribers = eb_subscribers b @ [tx] in
      (tx, b\<lparr> eb_subscribers := subscribers, eb_subscriber_count := length subscribers,
              eb_channels := eb_channels b @ [\<lparr> ch_open = True, ch_queue = [] \<rparr>] \<rparr>))"

text \<open>\<open>Vec::retain\<close> with the sends it performs.\<close>

fun retain_send ::
  "'e \<Rightarrow> nat list \<Rightarrow> 'e channel list \<Rightarrow> nat list \<times> 'e channel list" where
  "retain_send event [] chans = ([], chans)"
| "retain_send event (tx # txs) chans =
     (if ch_open (chans ! tx)
      then (case retain_send event txs
                   (chans[tx := (chans ! tx)\<lparr> ch_queue := ch_queue (chans ! tx) @ [event] \<rparr>]) of
              (kept, chans') \<Rightarrow> (tx # kept, chans'))
      else retain_send event txs chans)"

definition bus_send :: "'e event_bus \<Rightarrow> 'e \<Rightarrow> 'e event_bus" where
  "bus_send b event =
     (case retain_send event (eb_subscribers b) (eb_channels b) of
        (subscribers, chans) \<Rightarrow>
          b\<lparr> eb_subscribers := subscribers, eb_subscriber_count := length subscribers,
             eb_channels := chans \<rparr>)"

definition bus_dispatch :: "'e event_bus \<Rightarrow> (unit \<Rightarrow> 'e) \<Rightarrow> 'e event_bus" where
  "bus_dispatch b mk = (if eb_subscriber_count b = 0 then b else bus_send b (mk ()))"

text \<open>The receiver end: taking the next event, and being dropped.\<close>

definition chan_drop :: "nat \<Rightarrow> 'e event_bus \<Rightarrow> 'e event_bus" where
  "chan_drop i b = b\<lparr> eb_channels := (eb_channels b)[i := (eb_channels b ! i)\<lparr> ch_open := False \<rparr>] \<rparr>"

section \<open>Invariant\<close>

definition bus_ok :: "'e event_bus \<Rightarrow> bool" where
  "bus_ok b \<longleftrightarrow>
     distinct (eb_subscribers b) \<and> (\<forall>tx \<in> set (eb_subscribers b). tx < length (eb_channels b)) \<and>
     (\<forall>i < length (eb_channels b). ch_open (eb_channels b ! i) \<longrightarrow> i \<in> set (eb_subscribers b)) \<and>
     eb_subscriber_count b = length (eb_subscribers b)"

text \<open>What every live receiver must observe of an event.\<close>

definition deliver :: "'e \<Rightarrow> 'e channel \<Rightarrow> 'e channel" where
  "deliver event c = (if ch_open c then c\<lparr> ch_queue := ch_queue c @ [event] \<rparr> else c)"

lemma deliver_open [simp]: "ch_open (deliver event c) = ch_open c"
  by (simp add: deliver_def)

lemma retain_send_spec:
  assumes "distinct txs" "\<forall>tx \<in> set txs. tx < length chans"
  shows "retain_send event txs chans =
    (filter (\<lambda>tx. ch_open (chans ! tx)) txs,
     map (\<lambda>i. if i \<in> set txs then deliver event (chans ! i) else chans ! i) [0..<length chans])"
  using assms
proof (induction event txs chans rule: retain_send.induct)
  case (1 event chans)
  show ?case by (simp add: map_nth)
next
  case (2 event tx txs chans)
  let ?chans = "chans[tx := (chans ! tx)\<lparr> ch_queue := ch_queue (chans ! tx) @ [event] \<rparr>]"
  have tx: "tx < length chans" "tx \<notin> set txs" using "2.prems" by auto
  show ?case
  proof (cases "ch_open (chans ! tx)")
    case True
    have "filter (\<lambda>tx. ch_open (?chans ! tx)) txs = filter (\<lambda>tx. ch_open (chans ! tx)) txs"
      using tx by (intro filter_cong) (auto simp: nth_list_update)
    moreover have "map (\<lambda>i. if i \<in> set txs then deliver event (?chans ! i) else ?chans ! i) [0..<length chans]
        = map (\<lambda>i. if i \<in> set (tx # txs) then deliver event (chans ! i) else chans ! i) [0..<length chans]"
      using tx True by (intro map_cong) (auto simp: nth_list_update deliver_def)
    ultimately show ?thesis using "2.IH"(1) [OF True] "2.prems" True by simp
  next
    case False
    have "map (\<lambda>i. if i \<in> set txs then deliver event (chans ! i) else chans ! i) [0..<length chans]
        = map (\<lambda>i. if i \<in> set (tx # txs) then deliver event (chans ! i) else chans ! i) [0..<length chans]"
      using False by (intro map_cong) (auto simp: deliver_def)
    then show ?thesis using "2.IH"(2) [OF False] "2.prems" False by simp
  qed
qed

lemma bus_send_channels:
  assumes "bus_ok b"
  shows "eb_channels (bus_send b event) = map (deliver event) (eb_channels b)"
    "eb_subscribers (bus_send b event) = filter (\<lambda>tx. ch_open (eb_channels b ! tx)) (eb_subscribers b)"
    "eb_subscriber_count (bus_send b event) = length (eb_subscribers (bus_send b event))"
proof -
  have spec: "retain_send event (eb_subscribers b) (eb_channels b) =
    (filter (\<lambda>tx. ch_open (eb_channels b ! tx)) (eb_subscribers b),
     map (\<lambda>i. if i \<in> set (eb_subscribers b) then deliver event (eb_channels b ! i)
              else eb_channels b ! i) [0..<length (eb_channels b)])"
    using assms by (intro retain_send_spec) (auto simp: bus_ok_def)
  have "map (\<lambda>i. if i \<in> set (eb_subscribers b) then deliver event (eb_channels b ! i)
              else eb_channels b ! i) [0..<length (eb_channels b)] = map (deliver event) (eb_channels b)"
    using assms by (intro nth_equalityI) (auto simp: bus_ok_def deliver_def)
  with spec show "eb_channels (bus_send b event) = map (deliver event) (eb_channels b)"
    "eb_subscribers (bus_send b event) = filter (\<lambda>tx. ch_open (eb_channels b ! tx)) (eb_subscribers b)"
    "eb_subscriber_count (bus_send b event) = length (eb_subscribers (bus_send b event))"
    by (simp_all add: bus_send_def)
qed

lemma bus_send_ok: "bus_ok b \<Longrightarrow> bus_ok (bus_send b event)"
  by (simp add: bus_ok_def [of "bus_send b event"] bus_send_channels) (simp add: bus_ok_def)

lemma bus_default_ok [simp]: "bus_ok event_bus_default"
  by (simp add: bus_ok_def event_bus_default_def)

lemma bus_subscribe_ok: "bus_ok b \<Longrightarrow> bus_ok (snd (bus_subscribe b))"
  by (auto simp: bus_ok_def bus_subscribe_def Let_def nth_append)

lemma chan_drop_ok: "bus_ok b \<Longrightarrow> bus_ok (chan_drop i b)"
proof -
  assume ok: "bus_ok b"
  have "ch_open (eb_channels b ! j)"
    if "j < length (eb_channels b)" "ch_open ((eb_channels b)[i := (eb_channels b ! i)\<lparr> ch_open := False \<rparr>] ! j)" for j
    using that by (cases "i = j") auto
  with ok show ?thesis by (simp add: bus_ok_def chan_drop_def)
qed

lemma bus_dispatch_eq_send_channels:
  assumes "bus_ok b"
  shows "eb_channels (bus_dispatch b mk) = map (deliver (mk ())) (eb_channels b)"
proof (cases "eb_subscriber_count b = 0")
  case True
  then have "\<not> ch_open c" if "c \<in> set (eb_channels b)" for c
    using assms that by (auto simp: bus_ok_def in_set_conv_nth)
  then have "map (deliver (mk ())) (eb_channels b) = eb_channels b"
    by (intro map_idI) (simp add: deliver_def)
  then show ?thesis using True by (simp add: bus_dispatch_def)
next
  case False
  then show ?thesis using bus_send_channels(1) [OF assms] by (simp add: bus_dispatch_def)
qed

lemma bus_dispatch_ok: "bus_ok b \<Longrightarrow> bus_ok (bus_dispatch b mk)"
  by (simp add: bus_dispatch_def bus_send_ok)

section \<open>Properties\<close>

text \<open>C20: an event reaches the queue of every live receiver exactly once, on the ordinary path
  and on the fast path that skips the work when the cached number of subscribers is zero;
  queues of dropped receivers are left alone, dropped subscribers are forgotten, and the
  cached number stays exact.\<close>

theorem events_reach_live_receivers:
  assumes "bus_ok b"
  shows "eb_channels (bus_send b event) = map (deliver event) (eb_channels b)
       \<and> eb_channels (bus_dispatch b (\<lambda>_. event)) = map (deliver event) (eb_channels b)
       \<and> bus_ok (bus_send b event) \<and> bus_ok (bus_dispatch b (\<lambda>_. event))
       \<and> (\<forall>tx \<in> set (eb_subscribers (bus_send b event)). ch_open (eb_channels (bus_send b event) ! tx))"
proof (intro conjI)
  show "\<forall>tx \<in> set (eb_subscribers (bus_send b event)). ch_open (eb_channels (bus_send b event) ! tx)"
    using assms by (simp add: bus_send_channels) (simp add: bus_ok_def)
qed (simp_all add: assms bus_send_channels(1) bus_dispatch_eq_send_channels bus_send_ok bus_dispatch_ok)

theorem events_reach_live_receivers_witness:
  "eb_channels (bus_send (chan_drop 0 (snd (bus_subscribe (snd (bus_subscribe event_bus_default))))) (7 :: nat))
     = [\<lparr> ch_open = False, ch_queue = [] \<rparr>, \<lparr> ch_open = True, ch_queue = [7] \<rparr>]"
  using events_reach_live_receivers
    [of "chan_drop 0 (snd (bus_subscribe (snd (bus_subscribe event_bus_default))))" "7 :: nat"]
  by (simp add: bus_subscribe_ok chan_drop_ok)
     (simp add: chan_drop_def bus_subscribe_def event_bus_default_def deliver_def)

end
