(* ===== verification/UserState.thy ===== *)
theory UserState
  imports NetAddr Limiter EventBus "HOL-Library.AList" "HOL-Library.Char_ord"
    "HOL-Library.List_Lexorder"
begin

text \<open>
  The state of one user of the core (\<open>UserState\<close> and its types in \<open>src/src/core.rs\<close>): limits,
  counters and the sessions that are online.

  \<^item> A \<open>SessionControl\<close> is shared between the session handle and the slot in the table; it is
    represented by its address in the core, which holds the flag.
  \<^item> A \<open>HashMap\<close> that the code iterates is an association list with distinct keys; its order
    stands for the unspecified order of iteration.
  \<^item> \<open>usize\<close> has 64 bits, so \<open>len() as u64\<close> keeps the length; counters are 64-bit words.
  \<^item> The operations return the events to be sent, in order.
\<close>

section \<open>Data\<close>

record core_user_limits =
  cl_upload_limit_bps :: "u64 option"
  cl_download_limit_bps :: "u64 option"
  cl_quota_bytes :: "u64 option"
  cl_max_online_sessions :: "u64 option"
  cl_max_online_ips :: "u64 option"

record core_user =
  cu_id :: string
  cu_credential :: string
  cu_upload_limit_bps :: "u64 option"
  cu_download_limit_bps :: "u64 option"
  cu_quota_bytes :: "u64 option"
  cu_max_online_sessions :: "u64 option"
  cu_max_online_ips :: "u64 option"

datatype traffic_direction = Upload | Download

datatype core_event =
    UsersReplaced "string list"
  | SessionOpened string u64 "string option"
  | SessionClosed string u64 "string option"
  | SessionCancelled string u64 "string option"
  | TrafficRecorded string u64 traffic_direction u64 u64 u64

record session_slot =
  slot_control :: nat
  slot_source_ip :: "string option"

record user_state =
  us_id :: string
  us_credentials :: "string set"
  us_upload :: u64
  us_download :: u64
  us_total :: u64
  us_online :: u64
  us_online_ips :: u64
  us_limits :: core_user_limits
  us_upload_limiter :: limiter
  us_download_limiter :: limiter
  us_sessions :: "(u64 \<times> session_slot) list"

record traffic_snapshot =
  ts_user_id :: string
  ts_upload_bytes :: u64
  ts_download_bytes :: u64
  ts_online_sessions :: u64
  ts_online_ips :: u64
  ts_online_ip_list :: "string list"
  ts_quota_bytes :: "u64 option"
  ts_quota_remaining_bytes :: "u64 option"
  ts_max_online_sessions :: "u64 option"
  ts_max_online_ips :: "u64 option"

definition core_user_password :: "string \<Rightarrow> string \<Rightarrow> core_user" where
  "core_user_password user_id credential =
     \<lparr> cu_id = user_id, cu_credential = credential, cu_upload_limit_bps = None,
       cu_download_limit_bps = None, cu_quota_bytes = None, cu_max_online_sessions = None,
       cu_max_online_ips = None \<rparr>"

definition limits_of :: "core_user \<Rightarrow> core_user_limits" where
  "limits_of u =
     \<lparr> cl_upload_limit_bps = cu_upload_limit_bps u, cl_download_limit_bps = cu_download_limit_bps u,
       cl_quota_bytes = cu_quota_bytes u, cl_max_online_sessions = cu_max_online_sessions u,
       cl_max_online_ips = cu_max_online_ips u \<rparr>"

section \<open>Operations\<close>

definition user_state_new :: "core_user \<Rightarrow> string set \<Rightarrow> nat \<Rightarrow> user_state" where
  "user_state_new user credentials now =
     \<lparr> us_id = cu_id user, us_credentials = credentials, us_upload = 0, us_download = 0,
       us_total = 0, us_online = 0, us_online_ips = 0, us_limits = limits_of user,
       us_upload_limiter = limiter_new (cu_upload_limit_bps user) now,
       us_download_limiter = limiter_new (cu_download_limit_bps user) now,
       us_sessions = [] \<rparr>"

text \<open>The addresses in a table of sessions.\<close>

definition session_ips :: "(u64 \<times> session_slot) list \<Rightarrow> string set" where
  "session_ips sessions = set (List.map_filter (\<lambda>(_, slot). slot_source_ip slot) sessions)"

definition update_online_counts :: "user_state \<Rightarrow> user_state" where
  "update_online_counts us =
     us\<lparr> us_online := of_nat (length (us_sessions us)),
         us_online_ips := of_nat (card (session_ips (us_sessions us))) \<rparr>"

function trim_start_matches :: "string \<Rightarrow> string \<Rightarrow> string" where
  "trim_start_matches pat s =
     (if pat = [] then s
      else case strip_prefix pat s of None \<Rightarrow> s | Some t \<Rightarrow> trim_start_matches pat t)"
  by pat_completeness auto
termination
  by (relation "measure (\<lambda>(pat, s). length s)") (auto simp: strip_prefix_Some_iff)

declare trim_start_matches.simps [simp del]

definition normalize_ip :: "ip_addr \<Rightarrow> string" where
  "normalize_ip ip = trim_start_matches ''::ffff:'' (show_ip ip)"

text \<open>\<open>limit.filter(|limit| *limit > 0)\<close>: a limit of zero is no limit.\<close>

definition positive_limit :: "u64 option \<Rightarrow> u64 option" where
  "positive_limit l = (case l of Some n \<Rightarrow> (if n > 0 then Some n else None) | None \<Rightarrow> None)"

definition check_session_limit :: "core_user_limits \<Rightarrow> user_state \<Rightarrow> unit result" where
  "check_session_limit limits us =
     (case positive_limit (cl_max_online_sessions limits) of
        Some limit \<Rightarrow> if length (us_sessions us) < unat limit then Inr () else Inl LimitExceeded
      | None \<Rightarrow> Inr ())"

definition check_ip_limit :: "core_user_limits \<Rightarrow> user_state \<Rightarrow> string option \<Rightarrow> unit result" where
  "check_ip_limit limits us source_ip =
     (case (positive_limit (cl_max_online_ips limits), source_ip) of
        (Some limit, Some ip) \<Rightarrow>
          (let online_ips = session_ips (us_sessions us) in
           if ip \<notin> online_ips
           then (if card (insert ip online_ips) \<le> unat limit then Inr () else Inl LimitExceeded)
           else Inr ())
      | _ \<Rightarrow> Inr ())"

text \<open>\<open>open_session\<close> copies the limits and then works under the lock of the session table, with
  the limits it copied. \<open>control\<close> is the address of the new \<open>SessionControl\<close>.\<close>

definition open_session_locked ::
  "core_user_limits \<Rightarrow> user_state \<Rightarrow> u64 \<Rightarrow> ip_addr option \<Rightarrow> nat \<Rightarrow> (user_state \<times> core_event) result" where
  "open_session_locked limits us session_id source_ip control =
     and_then (check_session_limit limits us) (\<lambda>_.
     let source_ip = map_option normalize_ip source_ip in
     and_then (check_ip_limit limits us source_ip) (\<lambda>_.
     let slot = \<lparr> slot_control = control, slot_source_ip = source_ip \<rparr>;
         us = update_online_counts
                (us\<lparr> us_sessions := AList.update session_id slot (us_sessions us) \<rparr>) in
     Inr (us, SessionOpened (us_id us) session_id source_ip)))"

definition user_open_session ::
  "user_state \<Rightarrow> u64 \<Rightarrow> ip_addr option \<Rightarrow> nat \<Rightarrow> (user_state \<times> core_event) result" where
  "user_open_session us session_id source_ip control =
     open_session_locked (us_limits us) us session_id source_ip control"

definition user_close_session :: "user_state \<Rightarrow> u64 \<Rightarrow> user_state \<times> core_event list" where
  "user_close_session us session_id =
     (let slot = map_of (us_sessions us) session_id;
          us = update_online_counts (us\<lparr> us_sessions := AList.delete session_id (us_sessions us) \<rparr>) in
      (us, case slot of
             None \<Rightarrow> []
           | Some slot \<Rightarrow> [SessionClosed (us_id us) session_id (slot_source_ip slot)]))"

text \<open>The sessions that were online, whose controls the caller cancels, and the cleared state.\<close>

definition user_clear_sessions :: "user_state \<Rightarrow> (u64 \<times> session_slot) list \<times> user_state" where
  "user_clear_sessions us =
     (us_sessions us, us\<lparr> us_sessions := [], us_online := 0, us_online_ips := 0 \<rparr>)"

text \<open>The part of \<open>apply_user_update\<close> and \<open>set_limits\<close> that installs new limits.\<close>

definition user_install_limits :: "core_user_limits \<Rightarrow> nat \<Rightarrow> user_state \<Rightarrow> user_state" where
  "user_install_limits limits now us =
     us\<lparr> us_limits := limits,
         us_upload_limiter := limiter_set_rate (cl_upload_limit_bps limits) now (us_upload_limiter us),
         us_download_limiter := limiter_set_rate (cl_download_limit_bps limits) now (us_download_limiter us) \<rparr>"

text \<open>\<open>checked_add\<close> on \<open>u64\<close>.\<close>

definition checked_add_u64 :: "u64 \<Rightarrow> u64 \<Rightarrow> u64 option" where
  "checked_add_u64 a b = (if unat a + unat b < 2 ^ 64 then Some (a + b) else None)"

text \<open>The reservation of \<open>record_traffic\<close> against the quota: one atomic update of \<open>total\<close>.\<close>

definition user_reserve_quota :: "user_state \<Rightarrow> u64 \<Rightarrow> user_state result" where
  "user_reserve_quota us n =
     (case checked_add_u64 (us_total us) n of
        None \<Rightarrow> Inl QuotaExceeded
      | Some used \<Rightarrow>
          (if (case cl_quota_bytes (us_limits us) of None \<Rightarrow> True | Some quota \<Rightarrow> used \<le> quota)
           then Inr (us\<lparr> us_total := used \<rparr>) else Inl QuotaExceeded))"

text \<open>The counters of \<open>record_traffic\<close>, with the values that the event reports.\<close>

fun user_count_traffic ::
  "user_state \<Rightarrow> traffic_direction \<Rightarrow> u64 \<Rightarrow> user_state \<times> u64 \<times> u64" where
  "user_count_traffic us Upload n =
     (us\<lparr> us_upload := us_upload us + n \<rparr>, us_upload us + n, us_download us)"
| "user_count_traffic us Download n =
     (us\<lparr> us_download := us_download us + n \<rparr>, us_upload us, us_download us + n)"

definition online_ip_list :: "user_state \<Rightarrow> string list" where
  "online_ip_list us = sorted_list_of_set (session_ips (us_sessions us))"

definition saturating_sub_u64 :: "u64 \<Rightarrow> u64 \<Rightarrow> u64" where
  "saturating_sub_u64 a b = (if b \<le> a then a - b else 0)"

definition user_snapshot :: "user_state \<Rightarrow> traffic_snapshot" where
  "user_snapshot us =
     (let limits = us_limits us in
      \<lparr> ts_user_id = us_id us, ts_upload_bytes = us_upload us, ts_download_bytes = us_download us,
        ts_online_sessions = us_online us, ts_online_ips = us_online_ips us,
        ts_online_ip_list = online_ip_list us, ts_quota_bytes = cl_quota_bytes limits,
        ts_quota_remaining_bytes =
          map_option (\<lambda>quota. saturating_sub_u64 quota (us_total us)) (cl_quota_bytes limits),
        ts_max_online_sessions = cl_max_online_sessions limits,
        ts_max_online_ips = cl_max_online_ips limits \<rparr>)"

section \<open>Invariant\<close>

text \<open>The table has one slot per session, and the published numbers are those of the table.\<close>

definition user_ok :: "user_state \<Rightarrow> bool" where
  "user_ok us \<longleftrightarrow>
     distinct (map fst (us_sessions us)) \<and>
     us_online us = of_nat (length (us_sessions us)) \<and>
     us_online_ips us = of_nat (card (session_ips (us_sessions us)))"

lemma finite_session_ips [simp]: "finite (session_ips sessions)"
  by (simp add: session_ips_def)

lemma session_ips_Nil [simp]: "session_ips [] = {}"
  by (simp add: session_ips_def map_filter_def)

lemma user_state_new_ok: "user_ok (user_state_new user credentials now)"
  by (simp add: user_ok_def user_state_new_def)

lemma update_online_counts_ok: "distinct (map fst (us_sessions us)) \<Longrightarrow> user_ok (update_online_counts us)"
  by (simp add: user_ok_def update_online_counts_def)

lemma user_clear_sessions_ok: "user_ok (snd (user_clear_sessions us))"
  by (simp add: user_ok_def user_clear_sessions_def)

lemma user_install_limits_ok: "user_ok us \<Longrightarrow> user_ok (user_install_limits limits now us)"
  by (simp add: user_ok_def user_install_limits_def)

lemma open_session_locked_Inr:
  assumes "open_session_locked limits us session_id source_ip control = Inr (us', ev)"
  shows "us' = update_online_counts (us\<lparr> us_sessions := AList.update session_id
           \<lparr> slot_control = control, slot_source_ip = map_option normalize_ip source_ip \<rparr> (us_sessions us) \<rparr>)
    \<and> ev = SessionOpened (us_id us) session_id (map_option normalize_ip source_ip)"
  using assms
  by (auto simp: open_session_locked_def Let_def and_then_Inr_iff update_online_counts_def)

lemma open_session_locked_ok:
  assumes "user_ok us" "open_session_locked limits us session_id source_ip control = Inr (us', ev)"
  shows "user_ok us'"
proof -
  have "distinct (map fst (AList.update session_id s (us_sessions us)))" for s
    using assms(1) by (intro distinct_update) (simp add: user_ok_def)
  then show ?thesis
    using open_session_locked_Inr [OF assms(2)] by (simp add: update_online_counts_ok)
qed

lemma user_close_session_sessions [simp]:
  "us_sessions (fst (user_close_session us session_id)) = AList.delete session_id (us_sessions us)"
  by (simp add: user_close_session_def Let_def update_online_counts_def)

lemma user_close_session_ok: "user_ok us \<Longrightarrow> user_ok (fst (user_close_session us session_id))"
proof -
  assume "user_ok us"
  then have "distinct (map fst (AList.delete session_id (us_sessions us)))"
    by (simp add: user_ok_def distinct_delete)
  then show ?thesis by (simp add: user_close_session_def Let_def update_online_counts_ok)
qed

text \<open>The counters, the identity and the limits are untouched by session management.\<close>

definition same_account :: "user_state \<Rightarrow> user_state \<Rightarrow> bool" where
  "same_account us us' \<longleftrightarrow>
     us_id us' = us_id us \<and> us_upload us' = us_upload us \<and> us_download us' = us_download us \<and>
     us_total us' = us_total us"

lemma same_account_refl [simp]: "same_account us us"
  by (simp add: same_account_def)

lemma same_account_open:
  "open_session_locked limits us session_id source_ip control = Inr (us', ev) \<Longrightarrow> same_account us us'"
  using open_session_locked_Inr by (fastforce simp: same_account_def update_online_counts_def)

lemma same_account_simps [simp]:
  "same_account us (fst (user_close_session us session_id))"
  "same_account us (snd (user_clear_sessions us))"
  "same_account us (user_install_limits limits now us)"
  by (simp_all add: same_account_def user_close_session_def Let_def update_online_counts_def
      user_clear_sessions_def user_install_limits_def)

lemma update_fresh: "map_of al k = None \<Longrightarrow> AList.update k v al = al @ [(k, v)]"
  by (induction al) (auto split: if_splits)

lemma session_ips_append [simp]: "session_ips (xs @ ys) = session_ips xs \<union> session_ips ys"
  by (simp add: session_ips_def map_filter_def)

lemma session_ips_single:
  "session_ips [(i, slot)] = (case slot_source_ip slot of None \<Rightarrow> {} | Some ip \<Rightarrow> {ip})"
  by (simp add: session_ips_def map_filter_def split: option.split)

section \<open>Properties\<close>

text \<open>C22: the limits on simultaneous sessions and addresses hold. Opening a session succeeds only
  if afterwards the table has at most the allowed number of sessions (when that limit is
  positive), and, for a client address that was not online before, at most the allowed number
  of distinct addresses; the session is then in the table with the client's address.\<close>

theorem session_limits_enforced:
  assumes "user_ok us" "map_of (us_sessions us) session_id = None"
    "user_open_session us session_id source_ip control = Inr (us', ev)"
  shows "(\<forall>n. cl_max_online_sessions (us_limits us) = Some n \<and> n > 0 \<longrightarrow>
            length (us_sessions us') \<le> unat n) \<and>
         (\<forall>n ip. cl_max_online_ips (us_limits us) = Some n \<and> n > 0 \<and> source_ip = Some ip \<and>
            normalize_ip ip \<notin> session_ips (us_sessions us) \<longrightarrow>
            card (session_ips (us_sessions us')) \<le> unat n) \<and>
         map_of (us_sessions us') session_id =
           Some \<lparr> slot_control = control, slot_source_ip = map_option normalize_ip source_ip \<rparr> \<and>
         unat (us_online us') = length (us_sessions us') mod 2 ^ 64"
proof -
  let ?slot = "\<lparr> slot_control = control, slot_source_ip = map_option normalize_ip source_ip \<rparr>"
  have new: "us_sessions us' = us_sessions us @ [(session_id, ?slot)]"
    "us_online us' = of_nat (length (us_sessions us'))"
    using open_session_locked_Inr [OF assms(3) [unfolded user_open_session_def]] update_fresh [OF assms(2)]
    by (simp_all add: update_online_counts_def)
  have checks: "check_session_limit (us_limits us) us = Inr ()"
    "check_ip_limit (us_limits us) us (map_option normalize_ip source_ip) = Inr ()"
    using assms(3) by (auto simp: user_open_session_def open_session_locked_def and_then_Inr_iff Let_def)
  have sessions: "length (us_sessions us) < unat n"
    if "cl_max_online_sessions (us_limits us) = Some n" "n > 0" for n
    using checks(1) that by (simp add: check_session_limit_def positive_limit_def split: if_splits)
  have ips: "card (insert (normalize_ip ip) (session_ips (us_sessions us))) \<le> unat n"
    if "cl_max_online_ips (us_limits us) = Some n" "n > 0" "source_ip = Some ip"
      "normalize_ip ip \<notin> session_ips (us_sessions us)" for n ip
    using checks(2) that by (simp add: check_ip_limit_def positive_limit_def Let_def split: if_splits)
  have "map_of (us_sessions us') session_id = Some ?slot"
    using assms(2) by (simp add: new(1) map_add_Some_iff)
  moreover have "unat (us_online us') = length (us_sessions us') mod 2 ^ 64"
    by (simp add: new(2) unat_of_nat)
  ultimately show ?thesis
    using sessions ips by (auto simp: new(1) session_ips_single Suc_le_eq)
qed

definition sample_user :: user_state where
  "sample_user = user_state_new
     ((core_user_password ''alice'' ''secret'')\<lparr> cu_max_online_sessions := Some 1 \<rparr>) {''secret''} 0"

theorem session_limits_enforced_witness:
  "\<exists>us' ev. user_open_session sample_user 1 None 0 = Inr (us', ev) \<and> length (us_sessions us') \<le> 1"
proof -
  obtain us' ev where o: "user_open_session sample_user 1 None 0 = Inr (us', ev)"
    by (simp add: user_open_session_def open_session_locked_def check_session_limit_def check_ip_limit_def sample_user_def
        user_state_new_def core_user_password_def limits_of_def positive_limit_def Let_def)
  have "user_ok sample_user" "map_of (us_sessions sample_user) 1 = None"
    "cl_max_online_sessions (us_limits sample_user) = Some 1"
    by (simp_all add: sample_user_def user_state_new_ok)
       (simp_all add: user_state_new_def core_user_password_def limits_of_def)
  then show ?thesis using session_limits_enforced [of sample_user 1 None 0 us' ev] o by auto
qed

end
