(* ===== verification/Core.thy ===== *)
theory Core
  imports UserState Protocol
begin

text \<open>
  The proxy core (\<open>ProxyCore\<close>, \<open>CoreSession\<close> in \<open>src/src/core.rs\<close>): users, credentials,
  sessions and traffic accounting.

  \<^item> The objects behind \<open>Arc\<close> that several parties hold are kept in the core: \<open>core_heap\<close> has
    the user states and \<open>core_controls\<close> the cancellation flags of the sessions; an \<open>Arc\<close> is an
    index into them. Objects are never freed.
  \<^item> Each function below is one critical section or a composition of critical sections in the
    order of the code. \<open>now\<close> is the time a section reads, \<open>sha\<close> is SHA-256.
  \<^item> \<open>CoreSteps\<close> interleaves the sections of concurrent calls.
\<close>

section \<open>State\<close>

record core =
  core_users :: "(string \<times> nat) list"
  core_cred_users :: "(string \<times> string) list"
  core_password_hashes :: "(bytes \<times> string) list"
  core_session_seq :: u64
  core_events :: "core_event event_bus"
  core_heap :: "user_state list"
  core_controls :: "bool list"

definition core_empty :: core where
  "core_empty = \<lparr> core_users = [], core_cred_users = [], core_password_hashes = [],
     core_session_seq = 0, core_events = event_bus_default, core_heap = [], core_controls = [] \<rparr>"

record active_session =
  as_user :: nat
  as_session_id :: u64
  as_control :: nat

type_synonym core_session = "active_session option"

definition core_send :: "core_event \<Rightarrow> core \<Rightarrow> core" where
  "core_send ev c = c\<lparr> core_events := bus_send (core_events c) ev \<rparr>"

definition core_put :: "nat \<Rightarrow> user_state \<Rightarrow> core \<Rightarrow> core" where
  "core_put a us c = c\<lparr> core_heap := (core_heap c)[a := us] \<rparr>"

section \<open>Sessions of one user\<close>

text \<open>\<open>UserState::cancel_sessions\<close>: clear the table under its lock, then announce and cancel
  every session that was in it.\<close>

definition cancel_control :: "nat \<Rightarrow> core \<Rightarrow> core" where
  "cancel_control control c = c\<lparr> core_controls := (core_controls c)[control := True] \<rparr>"

definition cancel_slot :: "string \<Rightarrow> u64 \<times> session_slot \<Rightarrow> core \<Rightarrow> core" where
  "cancel_slot user_id s c =
     cancel_control (slot_control (snd s))
       (core_send (SessionCancelled user_id (fst s) (slot_source_ip (snd s))) c)"

definition cancel_sessions :: "nat \<Rightarrow> core \<Rightarrow> core" where
  "cancel_sessions a c =
     (case user_clear_sessions (core_heap c ! a) of
        (sessions, us) \<Rightarrow> fold (cancel_slot (us_id us)) sessions (core_put a us c))"

definition apply_user_update :: "nat \<Rightarrow> core_user \<Rightarrow> string set \<Rightarrow> nat \<Rightarrow> core \<Rightarrow> core" where
  "apply_user_update a user credentials now c =
     (let c = (if us_credentials (core_heap c ! a) \<noteq> credentials
               then (let c = cancel_sessions a c in
                     core_put a ((core_heap c ! a)\<lparr> us_credentials := credentials \<rparr>) c)
               else c) in
      core_put a (user_install_limits (limits_of user) now (core_heap c ! a)) c)"

text \<open>Opening a session of the user at \<open>a\<close>: with the number drawn and the limits copied, the table
  is locked and gets a slot with a new control.\<close>

definition open_numbered ::
  "nat \<Rightarrow> u64 \<Rightarrow> core_user_limits \<Rightarrow> ip_addr option \<Rightarrow> core \<Rightarrow> core_session result \<times> core" where
  "open_numbered a session_id limits source_ip c =
     (let control = length (core_controls c) in
      case open_session_locked limits (core_heap c ! a) session_id source_ip control of
        Inl e \<Rightarrow> (Inl e, c)
      | Inr (us, ev) \<Rightarrow>
          (Inr (Some \<lparr> as_user = a, as_session_id = session_id, as_control = control \<rparr>),
           core_send ev (core_put a us (c\<lparr> core_controls := core_controls c @ [False] \<rparr>))))"

definition open_session_at ::
  "nat \<Rightarrow> ip_addr option \<Rightarrow> core \<Rightarrow> core_session result \<times> core" where
  "open_session_at a source_ip c =
     (let session_id = core_session_seq c + 1;
          c = c\<lparr> core_session_seq := session_id \<rparr> in
      open_numbered a session_id (us_limits (core_heap c ! a)) source_ip c)"

text \<open>Dropping the last handle of a session.\<close>

definition drop_session :: "active_session \<Rightarrow> core \<Rightarrow> core" where
  "drop_session s c =
     (case user_close_session (core_heap c ! as_user s) (as_session_id s) of
        (us, evs) \<Rightarrow> fold core_send evs (core_put (as_user s) us c))"

section \<open>Replacing the users\<close>

text \<open>The local variables of the validation loop.\<close>

record validated =
  v_credentials :: "string set"
  v_users_by_id :: "(string \<times> core_user) list"
  v_credentials_by_id :: "string \<rightharpoonup> string set"
  v_credential_map :: "(string \<times> string) list"
  v_password_hashes :: "(bytes \<times> string) list"
  v_event_user_ids :: "string list"

definition validated_init :: validated where
  "validated_init = \<lparr> v_credentials = {}, v_users_by_id = [], v_credentials_by_id = Map.empty,
     v_credential_map = [], v_password_hashes = [], v_event_user_ids = [] \<rparr>"

definition validate_user ::
  "(bytes \<Rightarrow> bytes) \<Rightarrow> core_user \<Rightarrow> validated \<Rightarrow> validated result" where
  "validate_user sha user v =
     (if trim (cu_id user) = [] then Inl Empty
      else if trim (cu_credential user) = [] then Inl Empty
      else if cu_credential user \<in> v_credentials v then Inl Duplicate
      else
        (let grouped = (case v_credentials_by_id v (cu_id user) of None \<Rightarrow> {} | Some g \<Rightarrow> g);
             v = v\<lparr> v_credentials := insert (cu_credential user) (v_credentials v),
                    v_credential_map := AList.update (cu_credential user) (cu_id user) (v_credential_map v),
                    v_password_hashes := AList.update (password_hash sha (cu_credential user))
                                           (cu_credential user) (v_password_hashes v),
                    v_credentials_by_id := (v_credentials_by_id v)
                      (cu_id user \<mapsto> insert (cu_credential user) grouped) \<rparr> in
         case map_of (v_users_by_id v) (cu_id user) of
           Some existing \<Rightarrow>
             (if limits_of existing = limits_of user then Inr v else Inl Conflict)
         | None \<Rightarrow>
             Inr (v\<lparr> v_event_user_ids := v_event_user_ids v @ [cu_id user],
                     v_users_by_id := AList.update (cu_id user) user (v_users_by_id v) \<rparr>)))"

fun validate_users ::
  "(bytes \<Rightarrow> bytes) \<Rightarrow> core_user list \<Rightarrow> validated \<Rightarrow> validated result" where
  "validate_users sha [] v = Inr v"
| "validate_users sha (user # users) v =
     and_then (validate_user sha user v) (validate_users sha users)"

text \<open>One iteration of the loop that builds the new table of users.\<close>

definition build_user ::
  "(string \<times> nat) list \<Rightarrow> validated \<Rightarrow> nat \<Rightarrow> string \<times> core_user \<Rightarrow>
     (string \<times> nat) list \<times> core \<Rightarrow> (string \<times> nat) list \<times> core" where
  "build_user current_users v now entry acc =
     (let user = snd entry; credentials = the (v_credentials_by_id v (fst entry));
          user_map = fst acc; c = snd acc in
      case map_of current_users (cu_id user) of
        Some a \<Rightarrow> (AList.update (cu_id user) a user_map, apply_user_update a user credentials now c)
      | None \<Rightarrow>
          (AList.update (cu_id user) (length (core_heap c)) user_map,
           c\<lparr> core_heap := core_heap c @ [user_state_new user credentials now] \<rparr>))"

definition cancel_removed :: "string set \<Rightarrow> string \<times> nat \<Rightarrow> core \<Rightarrow> core" where
  "cancel_removed active_ids entry c =
     (if fst entry \<notin> active_ids then cancel_sessions (snd entry) c else c)"

definition replace_users ::
  "(bytes \<Rightarrow> bytes) \<Rightarrow> nat \<Rightarrow> core_user list \<Rightarrow> core \<Rightarrow> unit result \<times> core" where
  "replace_users sha now users c =
     (case validate_users sha users validated_init of
        Inl e \<Rightarrow> (Inl e, c)
      | Inr v \<Rightarrow>
          (let current_users = core_users c;
               active_ids = fst ` set (v_users_by_id v);
               (user_map, c) = fold (build_user current_users v now) (v_users_by_id v) ([], c);
               c = fold (cancel_removed active_ids) current_users c;
               c = c\<lparr> core_users := user_map \<rparr>;
               c = c\<lparr> core_cred_users := v_credential_map v,
                      core_password_hashes := v_password_hashes v \<rparr>
           in (Inr (), core_send (UsersReplaced (v_event_user_ids v)) c)))"

definition core_new :: "(bytes \<Rightarrow> bytes) \<Rightarrow> nat \<Rightarrow> core_user list \<Rightarrow> core result" where
  "core_new sha now users =
     (case replace_users sha now users core_empty of
        (Inl e, _) \<Rightarrow> Inl e
      | (Inr _, c) \<Rightarrow> Inr c)"

definition with_limits :: "core_user_limits \<Rightarrow> core_user \<Rightarrow> core_user" where
  "with_limits limits u =
     u\<lparr> cu_upload_limit_bps := cl_upload_limit_bps limits,
        cu_download_limit_bps := cl_download_limit_bps limits,
        cu_quota_bytes := cl_quota_bytes limits,
        cu_max_online_sessions := cl_max_online_sessions limits,
        cu_max_online_ips := cl_max_online_ips limits \<rparr>"

fun credential_entries ::
  "core_user_limits \<Rightarrow> string set \<Rightarrow> string list \<Rightarrow> core_user list" where
  "credential_entries limits seen [] = []"
| "credential_entries limits seen (credential # users) =
     (if credential = [] \<or> credential \<in> seen then credential_entries limits seen users
      else with_limits limits (core_user_password credential credential)
           # credential_entries limits (insert credential seen) users)"

text \<open>\<open>expect\<close> panics when the credentials are refused.\<close>

definition from_credentials_with_limits ::
  "(bytes \<Rightarrow> bytes) \<Rightarrow> nat \<Rightarrow> string \<Rightarrow> string list \<Rightarrow> core_user_limits \<Rightarrow> core result" where
  "from_credentials_with_limits sha now password users limits =
     (let entries =
            (if password \<noteq> []
             then with_limits limits (core_user_password ''default'' password)
                  # credential_entries limits {password} users
             else credential_entries limits {} users) in
      case core_new sha now entries of Inl _ \<Rightarrow> Inl Panic | Inr c \<Rightarrow> Inr c)"

definition core_user_limits_default :: core_user_limits where
  "core_user_limits_default = \<lparr> cl_upload_limit_bps = None, cl_download_limit_bps = None,
     cl_quota_bytes = None, cl_max_online_sessions = None, cl_max_online_ips = None \<rparr>"

definition from_credentials ::
  "(bytes \<Rightarrow> bytes) \<Rightarrow> nat \<Rightarrow> string \<Rightarrow> string list \<Rightarrow> core result" where
  "from_credentials sha now password users =
     from_credentials_with_limits sha now password users core_user_limits_default"

section \<open>Authentication\<close>

definition open_session_with_source ::
  "string \<Rightarrow> ip_addr option \<Rightarrow> core \<Rightarrow> core_session result \<times> core" where
  "open_session_with_source user_id source_ip c =
     (case map_of (core_users c) user_id of
        None \<Rightarrow> (Inl NotFound, c)
      | Some a \<Rightarrow> open_session_at a source_ip c)"

definition authenticate_with_source ::
  "string \<Rightarrow> ip_addr option \<Rightarrow> core \<Rightarrow> core_session result \<times> core" where
  "authenticate_with_source credential source_ip c =
     (case map_of (core_cred_users c) (trim credential) of
        None \<Rightarrow> (Inl AuthFailed, c)
      | Some user_id \<Rightarrow> open_session_with_source user_id source_ip c)"

definition authenticate :: "string \<Rightarrow> core \<Rightarrow> core_session result \<times> core" where
  "authenticate credential c = authenticate_with_source credential None c"

definition authenticate_from ::
  "string \<Rightarrow> socket_addr \<Rightarrow> core \<Rightarrow> core_session result \<times> core" where
  "authenticate_from credential source c = authenticate_with_source credential (Some (sa_ip source)) c"

definition authenticate_password_hash_from ::
  "bytes \<Rightarrow> socket_addr \<Rightarrow> core \<Rightarrow> core_session result \<times> core" where
  "authenticate_password_hash_from hash source c =
     (case map_of (core_password_hashes c) hash of
        None \<Rightarrow> (Inl AuthFailed, c)
      | Some credential \<Rightarrow> authenticate_from credential source c)"

definition open_session :: "string \<Rightarrow> core \<Rightarrow> core_session result \<times> core" where
  "open_session user_id c = open_session_with_source user_id None c"

definition open_session_from ::
  "string \<Rightarrow> socket_addr \<Rightarrow> core \<Rightarrow> core_session result \<times> core" where
  "open_session_from user_id source c = open_session_with_source user_id (Some (sa_ip source)) c"

definition known_credentials :: "core \<Rightarrow> string list" where
  "known_credentials c = map fst (core_cred_users c)"

section \<open>Administration\<close>

definition cancel_user_sessions :: "string \<Rightarrow> core \<Rightarrow> unit result \<times> core" where
  "cancel_user_sessions user_id c =
     (case map_of (core_users c) user_id of
        None \<Rightarrow> (Inl NotFound, c)
      | Some a \<Rightarrow> (Inr (), cancel_sessions a c))"

definition cancel_all_sessions :: "core \<Rightarrow> core" where
  "cancel_all_sessions c = fold cancel_sessions (map snd (core_users c)) c"

definition core_set_limits :: "string \<Rightarrow> core_user_limits \<Rightarrow> nat \<Rightarrow> core \<Rightarrow> unit result \<times> core" where
  "core_set_limits user_id limits now c =
     (case map_of (core_users c) user_id of
        None \<Rightarrow> (Inl NotFound, c)
      | Some a \<Rightarrow> (Inr (), core_put a (user_install_limits limits now (core_heap c ! a)) c))"

definition core_snapshot :: "core \<Rightarrow> traffic_snapshot list" where
  "core_snapshot c =
     sort_key ts_user_id (map (\<lambda>(_, a). user_snapshot (core_heap c ! a)) (core_users c))"

definition subscribe_events :: "core \<Rightarrow> nat \<times> core" where
  "subscribe_events c =
     (case bus_subscribe (core_events c) of (rx, b) \<Rightarrow> (rx, c\<lparr> core_events := b \<rparr>))"

section \<open>Traffic\<close>

definition is_cancelled :: "core \<Rightarrow> nat \<Rightarrow> bool" where
  "is_cancelled c control = core_controls c ! control"

definition ensure_active :: "core \<Rightarrow> nat \<Rightarrow> unit result" where
  "ensure_active c control = (if is_cancelled c control then Inl Cancelled else Inr ())"

text \<open>
  \<open>record_traffic\<close> in its sections. The session must be active; then the limiter of the direction
  schedules the bytes, and the call sleeps until the moment returned. After the sleep the session
  must still be active, and then the bytes are charged if they fit the quota.
\<close>

definition traffic_schedule ::
  "(u64 \<Rightarrow> u64 \<Rightarrow> nat) \<Rightarrow> nat \<Rightarrow> active_session \<Rightarrow> traffic_direction \<Rightarrow> u64 \<Rightarrow> core \<Rightarrow>
     nat option \<times> core" where
  "traffic_schedule dur now s dir n c =
     (let us = core_heap c ! as_user s in
      case dir of
        Upload \<Rightarrow>
          (case limiter_reserve dur now n (us_upload_limiter us) of
             (w, l) \<Rightarrow> (w, core_put (as_user s) (us\<lparr> us_upload_limiter := l \<rparr>) c))
      | Download \<Rightarrow>
          (case limiter_reserve dur now n (us_download_limiter us) of
             (w, l) \<Rightarrow> (w, core_put (as_user s) (us\<lparr> us_download_limiter := l \<rparr>) c)))"

definition traffic_charge :: "active_session \<Rightarrow> u64 \<Rightarrow> core \<Rightarrow> core result" where
  "traffic_charge s n c =
     and_then (user_reserve_quota (core_heap c ! as_user s) n) (\<lambda>us.
     Inr (core_put (as_user s) us c))"

definition traffic_count ::
  "active_session \<Rightarrow> traffic_direction \<Rightarrow> u64 \<Rightarrow> core \<Rightarrow> (u64 \<times> u64) \<times> core" where
  "traffic_count s dir n c =
     (case user_count_traffic (core_heap c ! as_user s) dir n of
        (us, up, down) \<Rightarrow> ((up, down), core_put (as_user s) us c))"

definition traffic_emit ::
  "active_session \<Rightarrow> traffic_direction \<Rightarrow> u64 \<Rightarrow> u64 \<times> u64 \<Rightarrow> core \<Rightarrow> core" where
  "traffic_emit s dir n counters c =
     c\<lparr> core_events := bus_dispatch (core_events c)
          (\<lambda>_. TrafficRecorded (us_id (core_heap c ! as_user s)) (as_session_id s) dir n
                 (fst counters) (snd counters)) \<rparr>"

text \<open>What a handle says about itself; a disabled session has no user.\<close>

definition session_user_id :: "core \<Rightarrow> core_session \<Rightarrow> string" where
  "session_user_id c session =
     (case session of Some s \<Rightarrow> us_id (core_heap c ! as_user s) | None \<Rightarrow> ''disabled'')"

definition session_is_cancelled :: "core \<Rightarrow> core_session \<Rightarrow> bool" where
  "session_is_cancelled c session =
     (case session of Some s \<Rightarrow> is_cancelled c (as_control s) | None \<Rightarrow> False)"

text \<open>The whole call, when nothing else runs in between.\<close>

definition record_traffic ::
  "(u64 \<Rightarrow> u64 \<Rightarrow> nat) \<Rightarrow> nat \<Rightarrow> core_session \<Rightarrow> traffic_direction \<Rightarrow> u64 \<Rightarrow> core \<Rightarrow>
     unit result \<times> core" where
  "record_traffic dur now session dir n c =
     (case session of
        None \<Rightarrow> (Inr (), c)
      | Some s \<Rightarrow>
          (if n = 0 then (Inr (), c)
           else case ensure_active c (as_control s) of
             Inl e \<Rightarrow> (Inl e, c)
           | Inr _ \<Rightarrow>
               (let c = snd (traffic_schedule dur now s dir n c) in
                case and_then (ensure_active c (as_control s)) (\<lambda>_. traffic_charge s n c) of
                  Inl e \<Rightarrow> (Inl e, c)
                | Inr c \<Rightarrow>
                    (case traffic_count s dir n c of
                       (counters, c) \<Rightarrow> (Inr (), traffic_emit s dir n counters c)))))"

end
