(* ===== verification/CoreInv.thy ===== *)
theory CoreInv
  imports Core
begin

text \<open>
  The invariant of the core (\<open>src/src/core.rs\<close>): what every critical section of \<open>Core\<close> keeps of the
  users, their counters, the session tables and the session handles.
\<close>

section \<open>Effects of the sections\<close>

text \<open>The fields that a section leaves alone.\<close>

lemma core_send_sel [simp]:
  "core_users (core_send ev c) = core_users c" "core_cred_users (core_send ev c) = core_cred_users c"
  "core_password_hashes (core_send ev c) = core_password_hashes c"
  "core_session_seq (core_send ev c) = core_session_seq c"
  "core_heap (core_send ev c) = core_heap c" "core_controls (core_send ev c) = core_controls c"
  by (simp_all add: core_send_def)

lemma core_put_sel [simp]:
  "core_users (core_put a us c) = core_users c" "core_cred_users (core_put a us c) = core_cred_users c"
  "core_password_hashes (core_put a us c) = core_password_hashes c"
  "core_session_seq (core_put a us c) = core_session_seq c"
  "core_heap (core_put a us c) = (core_heap c)[a := us]" "core_controls (core_put a us c) = core_controls c"
  "core_events (core_put a us c) = core_events c"
  by (simp_all add: core_put_def)

lemma fold_core_send_sel [simp]:
  "core_users (fold core_send evs c) = core_users c"
  "core_session_seq (fold core_send evs c) = core_session_seq c"
  "core_heap (fold core_send evs c) = core_heap c" "core_controls (fold core_send evs c) = core_controls c"
  by (induction evs arbitrary: c) simp_all

lemma core_send_bus_ok: "bus_ok (core_events c) \<Longrightarrow> bus_ok (core_events (core_send ev c))"
  by (simp add: core_send_def bus_send_ok)

lemma fold_core_send_bus_ok: "bus_ok (core_events c) \<Longrightarrow> bus_ok (core_events (fold core_send evs c))"
  by (induction evs arbitrary: c) (simp_all add: core_send_bus_ok)

lemma cancel_control_sel [simp]:
  "core_users (cancel_control k c) = core_users c"
  "core_cred_users (cancel_control k c) = core_cred_users c"
  "core_password_hashes (cancel_control k c) = core_password_hashes c"
  "core_session_seq (cancel_control k c) = core_session_seq c"
  "core_heap (cancel_control k c) = core_heap c" "core_events (cancel_control k c) = core_events c"
  "core_controls (cancel_control k c) = (core_controls c)[k := True]"
  by (simp_all add: cancel_control_def)

lemma cancel_slot_sel [simp]:
  "core_users (cancel_slot i s c) = core_users c"
  "core_cred_users (cancel_slot i s c) = core_cred_users c"
  "core_password_hashes (cancel_slot i s c) = core_password_hashes c"
  "core_session_seq (cancel_slot i s c) = core_session_seq c"
  "core_heap (cancel_slot i s c) = core_heap c"
  "core_controls (cancel_slot i s c) = (core_controls c)[slot_control (snd s) := True]"
  by (simp_all add: cancel_slot_def)

lemma cancel_slot_bus_ok: "bus_ok (core_events c) \<Longrightarrow> bus_ok (core_events (cancel_slot i s c))"
  using core_send_bus_ok by (simp add: cancel_slot_def)

lemma fold_cancel_slot:
  "core_users (fold (cancel_slot i) ss c) = core_users c"
  "core_cred_users (fold (cancel_slot i) ss c) = core_cred_users c"
  "core_password_hashes (fold (cancel_slot i) ss c) = core_password_hashes c"
  "core_session_seq (fold (cancel_slot i) ss c) = core_session_seq c"
  "core_heap (fold (cancel_slot i) ss c) = core_heap c"
  "length (core_controls (fold (cancel_slot i) ss c)) = length (core_controls c)"
  "bus_ok (core_events c) \<Longrightarrow> bus_ok (core_events (fold (cancel_slot i) ss c))"
  by (induction ss arbitrary: c) (simp_all add: cancel_slot_bus_ok)

lemma fold_cancel_slot_controls:
  "k < length (core_controls c) \<Longrightarrow>
     core_controls (fold (cancel_slot i) ss c) ! k \<longleftrightarrow>
       core_controls c ! k \<or> k \<in> slot_control ` snd ` set ss"
  by (induction ss arbitrary: c) (auto simp: nth_update_le)

lemma cancel_sessions_sel [simp]:
  "core_users (cancel_sessions a c) = core_users c"
  "core_cred_users (cancel_sessions a c) = core_cred_users c"
  "core_password_hashes (cancel_sessions a c) = core_password_hashes c"
  "core_session_seq (cancel_sessions a c) = core_session_seq c"
  "core_heap (cancel_sessions a c) = (core_heap c)[a := snd (user_clear_sessions (core_heap c ! a))]"
  "length (core_controls (cancel_sessions a c)) = length (core_controls c)"
  by (simp_all add: cancel_sessions_def user_clear_sessions_def fold_cancel_slot)

lemma cancel_sessions_bus_ok: "bus_ok (core_events c) \<Longrightarrow> bus_ok (core_events (cancel_sessions a c))"
  by (simp add: cancel_sessions_def user_clear_sessions_def fold_cancel_slot)

lemma cancel_sessions_controls:
  "k < length (core_controls c) \<Longrightarrow>
     core_controls (cancel_sessions a c) ! k \<longleftrightarrow>
       core_controls c ! k \<or> k \<in> slot_control ` snd ` set (us_sessions (core_heap c ! a))"
  by (simp add: cancel_sessions_def user_clear_sessions_def fold_cancel_slot_controls)

section \<open>The invariant of a core and its sessions\<close>

text \<open>A session handle is registered when the table of its user has a slot with its control.\<close>

definition registered :: "core \<Rightarrow> active_session \<Rightarrow> bool" where
  "registered c s \<longleftrightarrow>
     (\<exists>slot. map_of (us_sessions (core_heap c ! as_user s)) (as_session_id s) = Some slot \<and>
             slot_control slot = as_control s)"

text \<open>
  \<open>H\<close> are the handles that exist and \<open>pending a\<close> the bytes that are reserved for the user at
  \<open>a\<close> but not yet counted.
  \<^item> every user is well formed, and its total is what was counted plus what is pending;
  \<^item> handles refer to existing objects and do not share a control or a session number;
  \<^item> the registered sessions are exactly the handles that are not cancelled.
\<close>

definition core_inv :: "active_session set \<Rightarrow> (nat \<Rightarrow> nat) \<Rightarrow> core \<Rightarrow> bool" where
  "core_inv H pending c \<longleftrightarrow>
     (\<forall>a < length (core_heap c). user_ok (core_heap c ! a) \<and>
        unat (us_total (core_heap c ! a)) =
          unat (us_upload (core_heap c ! a)) + unat (us_download (core_heap c ! a)) + pending a) \<and>
     (\<forall>s \<in> H. as_user s < length (core_heap c) \<and> as_control s < length (core_controls c) \<and>
        as_session_id s \<le> core_session_seq c) \<and>
     (\<forall>s \<in> H. \<forall>s' \<in> H. as_control s = as_control s' \<or> as_session_id s = as_session_id s' \<longrightarrow> s = s') \<and>
     (\<forall>s. as_user s < length (core_heap c) \<longrightarrow>
        (registered c s \<longleftrightarrow> s \<in> H \<and> \<not> core_controls c ! as_control s)) \<and>
     bus_ok (core_events c)"

lemma core_inv_empty: "core_inv {} (\<lambda>_. 0) core_empty"
  by (simp add: core_inv_def core_empty_def)

lemma core_inv_send: "core_inv H pending c \<Longrightarrow> core_inv H pending (core_send ev c)"
  by (simp add: core_inv_def registered_def core_send_bus_ok)

lemma core_inv_fold_send: "core_inv H pending c \<Longrightarrow> core_inv H pending (fold core_send evs c)"
  by (induction evs arbitrary: c) (simp_all add: core_inv_send)

text \<open>Replacing a user state by one with the same sessions.\<close>

lemma core_inv_put:
  assumes "core_inv H pending c" "a < length (core_heap c)" "user_ok us"
    "us_sessions us = us_sessions (core_heap c ! a)"
    "unat (us_total us) = unat (us_upload us) + unat (us_download us) + pending' a"
    "\<And>b. b \<noteq> a \<Longrightarrow> pending' b = pending b"
  shows "core_inv H pending' (core_put a us c)"
proof -
  have sessions: "us_sessions ((core_heap c)[a := us] ! b) = us_sessions (core_heap c ! b)" for b
    using assms(2,4) by (cases "b = a") auto
  have "registered (core_put a us c) s = registered c s" for s
    by (simp add: registered_def sessions)
  then show ?thesis
    using assms unfolding core_inv_def by (auto simp: nth_list_update)
qed

lemma slot_registered:
  assumes "core_inv H pending c" "a < length (core_heap c)"
    "(sid, slot) \<in> set (us_sessions (core_heap c ! a))"
  shows "\<lparr> as_user = a, as_session_id = sid, as_control = slot_control slot \<rparr> \<in> H"
proof -
  have "distinct (map fst (us_sessions (core_heap c ! a)))"
    using assms(1,2) by (auto simp: core_inv_def user_ok_def)
  then have "registered c \<lparr> as_user = a, as_session_id = sid, as_control = slot_control slot \<rparr>"
    using assms(3) by (auto simp: registered_def)
  then show ?thesis using assms(1,2) unfolding core_inv_def
    by (metis active_session.select_convs(1))
qed

lemma core_inv_cancel_sessions:
  assumes inv: "core_inv H pending c" and a: "a < length (core_heap c)"
  shows "core_inv H pending (cancel_sessions a c)"
proof -
  let ?c = "cancel_sessions a c" and ?ss = "us_sessions (core_heap c ! a)"
  have after: "registered ?c s \<longleftrightarrow> as_user s \<noteq> a \<and> registered c s"
    if "as_user s < length (core_heap c)" for s
    using that by (simp add: registered_def nth_update_le user_clear_sessions_def)
  have "registered ?c s \<longleftrightarrow> s \<in> H \<and> \<not> core_controls ?c ! as_control s"
    if s: "as_user s < length (core_heap c)" for s
  proof (cases "s \<in> H")
    case False
    then have "\<not> registered c s" using inv s unfolding core_inv_def by blast
    then show ?thesis using False s by (simp add: after)
  next
    case True
    have k: "as_control s < length (core_controls c)" using inv True unfolding core_inv_def by blast
    have reg: "registered c s \<longleftrightarrow> \<not> core_controls c ! as_control s"
      using inv True s unfolding core_inv_def by blast
    have mine: "as_control s \<in> slot_control ` snd ` set ?ss \<longleftrightarrow> as_user s = a \<and> registered c s"
    proof
      assume "as_control s \<in> slot_control ` snd ` set ?ss"
      then obtain sid slot where sl: "(sid, slot) \<in> set ?ss" "slot_control slot = as_control s" by auto
      have "\<lparr> as_user = a, as_session_id = sid, as_control = slot_control slot \<rparr> = s"
        using slot_registered [OF inv a sl(1)] True sl(2) inv unfolding core_inv_def
        by (metis active_session.select_convs(3))
      moreover have "registered c \<lparr> as_user = a, as_session_id = sid, as_control = slot_control slot \<rparr>"
        using sl inv a by (auto simp: registered_def core_inv_def user_ok_def)
      ultimately show "as_user s = a \<and> registered c s" by auto
    next
      assume "as_user s = a \<and> registered c s"
      then show "as_control s \<in> slot_control ` snd ` set ?ss"
        by (force simp: registered_def dest: map_of_SomeD)
    qed
    show ?thesis
      using mine reg cancel_sessions_controls [OF k, of a] s True by (auto simp: after)
  qed
  moreover have "user_ok (core_heap ?c ! b) \<and>
      unat (us_total (core_heap ?c ! b)) =
        unat (us_upload (core_heap ?c ! b)) + unat (us_download (core_heap ?c ! b)) + pending b"
    if "b < length (core_heap c)" for b
    using that inv user_clear_sessions_ok [of "core_heap c ! a"]
    by (auto simp: nth_update_le core_inv_def) (simp add: user_clear_sessions_def)
  ultimately show ?thesis
    using inv cancel_sessions_bus_ok [of c a] unfolding core_inv_def by auto
qed

section \<open>The other sections keep the invariant\<close>

text \<open>Identity and counters of the users that exist are not touched.\<close>

definition accounts_kept :: "core \<Rightarrow> core \<Rightarrow> bool" where
  "accounts_kept c c' \<longleftrightarrow>
     length (core_heap c) \<le> length (core_heap c') \<and>
     (\<forall>b < length (core_heap c). same_account (core_heap c ! b) (core_heap c' ! b))"

lemma accounts_kept_refl [simp]: "accounts_kept c c"
  by (simp add: accounts_kept_def)

lemma accounts_kept_trans: "accounts_kept c c' \<Longrightarrow> accounts_kept c' c'' \<Longrightarrow> accounts_kept c c''"
  by (fastforce simp: accounts_kept_def same_account_def)

lemma accounts_kept_put:
  "a < length (core_heap c) \<Longrightarrow> same_account (core_heap c ! a) us \<Longrightarrow> accounts_kept c (core_put a us c)"
  by (auto simp: accounts_kept_def nth_update_le)

lemma accounts_kept_cancel: "a < length (core_heap c) \<Longrightarrow> accounts_kept c (cancel_sessions a c)"
  by (auto simp: accounts_kept_def nth_update_le)

lemma heap_cancel_sessions:
  "a < length (core_heap c) \<Longrightarrow> core_heap (cancel_sessions a c) ! a = snd (user_clear_sessions (core_heap c ! a))"
  by simp

text \<open>What \<open>apply_user_update\<close> does to the user state.\<close>

definition updated_user :: "core_user \<Rightarrow> string set \<Rightarrow> nat \<Rightarrow> user_state \<Rightarrow> user_state" where
  "updated_user user credentials now us =
     user_install_limits (limits_of user) now
       (if us_credentials us \<noteq> credentials
        then (snd (user_clear_sessions us))\<lparr> us_credentials := credentials \<rparr> else us)"

lemma updated_user_sel [simp]:
  "us_limits (updated_user user credentials now us) = limits_of user"
  "us_credentials (updated_user user credentials now us) = credentials"
  "us_sessions (updated_user user credentials now us) =
     (if us_credentials us \<noteq> credentials then [] else us_sessions us)"
  by (simp_all add: updated_user_def user_install_limits_def user_clear_sessions_def)

lemma same_account_updated [simp]: "same_account us (updated_user user credentials now us)"
  by (simp add: same_account_def updated_user_def user_install_limits_def user_clear_sessions_def)

lemma apply_user_update_sel [simp]:
  "core_users (apply_user_update a user credentials now c) = core_users c"
  "length (core_heap (apply_user_update a user credentials now c)) = length (core_heap c)"
  by (simp_all add: apply_user_update_def Let_def)

lemma apply_user_update_heap:
  "b < length (core_heap c) \<Longrightarrow>
     core_heap (apply_user_update a user credentials now c) ! b =
       (if b = a then updated_user user credentials now (core_heap c ! a) else core_heap c ! b)"
  by (auto simp: apply_user_update_def Let_def nth_update_le updated_user_def)

lemma core_inv_apply_user_update:
  assumes "core_inv H pending c" "a < length (core_heap c)"
  shows "core_inv H pending (apply_user_update a user credentials now c)"
proof -
  define c' where "c' = (if us_credentials (core_heap c ! a) \<noteq> credentials
      then core_put a ((core_heap (cancel_sessions a c) ! a)\<lparr> us_credentials := credentials \<rparr>) (cancel_sessions a c)
      else c)"
  have put: "core_inv H pending (core_put a us' d)"
    if "core_inv H pending d" "a < length (core_heap d)" "us_sessions us' = us_sessions (core_heap d ! a)"
      "user_ok us'" "same_account (core_heap d ! a) us'" for d us'
    using that by (intro core_inv_put [OF that(1)]) (auto simp: core_inv_def same_account_def)
  have inv': "core_inv H pending c'"
  proof (cases "us_credentials (core_heap c ! a) \<noteq> credentials")
    case True
    have ok: "user_ok ((snd (user_clear_sessions (core_heap c ! a)))\<lparr> us_credentials := credentials \<rparr>)"
      by (simp add: user_ok_def user_clear_sessions_def)
    show ?thesis
      unfolding c'_def if_P [OF True] using assms ok
      by (intro put core_inv_cancel_sessions) (simp_all add: same_account_def)
  qed (use assms in \<open>simp add: c'_def\<close>)
  have len: "a < length (core_heap c')" using assms by (simp add: c'_def)
  then have "user_ok (core_heap c' ! a)" using inv' by (simp add: core_inv_def)
  then have "core_inv H pending (core_put a (user_install_limits (limits_of user) now (core_heap c' ! a)) c')"
    using inv' len by (intro put) (simp_all add: user_install_limits_ok, simp add: user_install_limits_def)
  then show ?thesis unfolding apply_user_update_def Let_def c'_def .
qed

lemma core_inv_new_user:
  assumes inv: "core_inv H pending c" and "pending (length (core_heap c)) = 0"
  shows "core_inv H pending (c\<lparr> core_heap := core_heap c @ [user_state_new user credentials now] \<rparr>)"
    (is "core_inv H pending ?c")
proof -
  let ?new = "user_state_new user credentials now"
  have new: "user_ok ?new" "us_total ?new = 0" "us_upload ?new = 0" "us_download ?new = 0"
    "us_sessions ?new = []"
    using user_state_new_ok by (simp_all add: user_state_new_def)
  have "registered ?c s \<longleftrightarrow> s \<in> H \<and> \<not> core_controls ?c ! as_control s"
    if "as_user s < length (core_heap ?c)" for s
  proof (cases "as_user s < length (core_heap c)")
    case True
    then show ?thesis using inv by (simp add: core_inv_def registered_def nth_append)
  next
    case False
    then have "s \<notin> H" using inv unfolding core_inv_def by blast
    then show ?thesis using False that new(5) by (simp add: registered_def nth_append)
  qed
  then show ?thesis
    using inv assms(2) new unfolding core_inv_def by (auto simp: nth_append less_Suc_eq)
qed

text \<open>Opening a session adds its handle, as long as the session counter does not wrap around.\<close>

lemma open_session_at_cases:
  obtains (fail) e where "open_session_at a source_ip c = (Inl e, c\<lparr> core_session_seq := core_session_seq c + 1 \<rparr>)"
  | (ok) us ev where
    "open_session_locked (us_limits (core_heap c ! a)) (core_heap c ! a) (core_session_seq c + 1) source_ip
      (length (core_controls c)) = Inr (us, ev)"
    "open_session_at a source_ip c =
       (Inr (Some \<lparr> as_user = a, as_session_id = core_session_seq c + 1, as_control = length (core_controls c) \<rparr>),
        core_send ev (core_put a us (c\<lparr> core_session_seq := core_session_seq c + 1,
                                        core_controls := core_controls c @ [False] \<rparr>)))"
  by (cases "open_session_locked (us_limits (core_heap c ! a)) (core_heap c ! a) (core_session_seq c + 1) source_ip
        (length (core_controls c))")
     (auto simp: open_session_at_def open_numbered_def Let_def)

lemma core_inv_seq:
  assumes "core_inv H pending c" "core_session_seq c \<le> n"
  shows "core_inv H pending (c\<lparr> core_session_seq := n \<rparr>)"
  using assms unfolding core_inv_def registered_def by (auto intro: order_trans)

lemma seq_increases: "(w :: u64) + 1 \<noteq> 0 \<Longrightarrow> w < w + 1"
  by (metis unatSuc add.commute lessI word_less_nat_alt)

lemma core_inv_handle:
  assumes "core_inv H pending c" "s \<in> H"
  shows "as_user s < length (core_heap c)" "as_control s < length (core_controls c)"
    "as_session_id s \<le> core_session_seq c"
  using assms unfolding core_inv_def by blast+

lemma core_inv_unique:
  assumes "core_inv H pending c" "s \<in> H" "s' \<in> H"
    "as_control s = as_control s' \<or> as_session_id s = as_session_id s'"
  shows "s = s'"
  using assms unfolding core_inv_def by blast

lemma core_inv_registered:
  assumes "core_inv H pending c" "as_user s < length (core_heap c)"
  shows "registered c s \<longleftrightarrow> s \<in> H \<and> \<not> core_controls c ! as_control s"
  using assms unfolding core_inv_def by blast

lemma core_inv_user:
  assumes "core_inv H pending c" "a < length (core_heap c)"
  shows "user_ok (core_heap c ! a)"
    "unat (us_total (core_heap c ! a)) =
       unat (us_upload (core_heap c ! a)) + unat (us_download (core_heap c ! a)) + pending a"
  using assms unfolding core_inv_def by blast+

lemma core_inv_bus: "core_inv H pending c \<Longrightarrow> bus_ok (core_events c)"
  by (simp add: core_inv_def)

lemma core_invI:
  assumes "\<And>a. a < length (core_heap c) \<Longrightarrow> user_ok (core_heap c ! a) \<and>
        unat (us_total (core_heap c ! a)) =
          unat (us_upload (core_heap c ! a)) + unat (us_download (core_heap c ! a)) + pending a"
    and "\<And>s. s \<in> H \<Longrightarrow> as_user s < length (core_heap c) \<and> as_control s < length (core_controls c) \<and>
        as_session_id s \<le> core_session_seq c"
    and "\<And>s s'. s \<in> H \<Longrightarrow> s' \<in> H \<Longrightarrow> as_control s = as_control s' \<or> as_session_id s = as_session_id s' \<Longrightarrow> s = s'"
    and "\<And>s. as_user s < length (core_heap c) \<Longrightarrow>
        registered c s \<longleftrightarrow> s \<in> H \<and> \<not> core_controls c ! as_control s"
    and "bus_ok (core_events c)"
  shows "core_inv H pending c"
  using assms unfolding core_inv_def by blast

lemma core_inv_open_numbered:
  assumes inv: "core_inv H pending c" and a: "a < length (core_heap c)"
    and n: "n \<le> core_session_seq c" "\<forall>s \<in> H. as_session_id s \<noteq> n"
    and us: "open_session_locked limits (core_heap c ! a) n source_ip (length (core_controls c)) = Inr (us, ev)"
  shows "core_inv (insert \<lparr> as_user = a, as_session_id = n, as_control = length (core_controls c) \<rparr> H) pending
    (core_send ev (core_put a us (c\<lparr> core_controls := core_controls c @ [False] \<rparr>)))"
    (is "core_inv (insert ?s H) pending (core_send ev ?d)")
proof (rule core_inv_send, rule core_invI)
  let ?n = n and ?k = "length (core_controls c)"
  have ids: "as_session_id s \<noteq> ?n" "as_control s < ?k" if "s \<in> H" for s
    using n(2) core_inv_handle(2) [OF inv that] that by auto
  let ?slot = "\<lparr> slot_control = ?k, slot_source_ip = map_option normalize_ip source_ip \<rparr>"
  have sess: "us_sessions us = AList.update ?n ?slot (us_sessions (core_heap c ! a))"
    using open_session_locked_Inr [OF us] by (simp add: update_online_counts_def)
  have user: "user_ok us" "same_account (core_heap c ! a) us"
    using open_session_locked_ok [OF core_inv_user(1) [OF inv a] us] same_account_open [OF us] .
  have new: "s = ?s \<longleftrightarrow> as_user s = a \<and> as_session_id s = ?n \<and> as_control s = ?k" for s
    by (cases s) auto
  have fresh: "?s \<notin> H" using ids by fastforce
  show "bus_ok (core_events ?d)" using core_inv_bus [OF inv] by simp
  show "user_ok (core_heap ?d ! b) \<and> unat (us_total (core_heap ?d ! b)) =
      unat (us_upload (core_heap ?d ! b)) + unat (us_download (core_heap ?d ! b)) + pending b"
    if "b < length (core_heap ?d)" for b
    using that core_inv_user [OF inv, of b] user by (cases "a = b") (simp_all add: same_account_def)
  show "as_user s < length (core_heap ?d) \<and> as_control s < length (core_controls ?d) \<and>
      as_session_id s \<le> core_session_seq ?d" if "s \<in> insert ?s H" for s
  proof (cases "s = ?s")
    case True
    then show ?thesis using a n(1) by simp
  next
    case False
    then have "s \<in> H" using that by simp
    then show ?thesis using ids [of s] core_inv_handle [OF inv, of s] by simp
  qed
  show "s = s'" if "s \<in> insert ?s H" "s' \<in> insert ?s H"
    "as_control s = as_control s' \<or> as_session_id s = as_session_id s'" for s s'
  proof -
    have clash: "as_control t \<noteq> as_control ?s \<and> as_session_id t \<noteq> as_session_id ?s" if "t \<in> H" for t
      using ids [OF that] by auto
    show ?thesis using that core_inv_unique [OF inv, of s s'] clash by (metis insert_iff)
  qed
  show "registered ?d s \<longleftrightarrow> s \<in> insert ?s H \<and> \<not> core_controls ?d ! as_control s"
    if s: "as_user s < length (core_heap ?d)" for s
  proof (cases "as_user s = a \<and> as_session_id s = ?n")
    case True
    then have "registered ?d s \<longleftrightarrow> as_control s = ?k"
      using a by (auto simp: registered_def sess update_conv')
    moreover have "s \<notin> H" using ids(1) [of s] True by auto
    ultimately show ?thesis using True new [of s] by auto
  next
    case False
    then have "registered ?d s \<longleftrightarrow> registered c s"
      using s by (auto simp: registered_def nth_update_le sess update_conv')
    moreover have "registered c s \<longleftrightarrow> s \<in> H \<and> \<not> core_controls c ! as_control s"
      using core_inv_registered [OF inv] s by simp
    moreover have "s \<noteq> ?s" using False new by blast
    moreover have "core_controls ?d ! as_control s = core_controls c ! as_control s" if "s \<in> H"
      using ids(2) [OF that] by (simp add: nth_append)
    ultimately show ?thesis by blast
  qed
qed

lemma open_session_at_inv:
  assumes inv: "core_inv H pending c" and a: "a < length (core_heap c)"
    and no_wrap: "core_session_seq c + 1 \<noteq> 0"
    and o: "open_session_at a source_ip c = (r, c')"
  shows "core_inv (case r of Inr (Some s) \<Rightarrow> insert s H | _ \<Rightarrow> H) pending c'"
proof (rule open_session_at_cases [of a source_ip c])
  fix e assume "open_session_at a source_ip c = (Inl e, c\<lparr> core_session_seq := core_session_seq c + 1 \<rparr>)"
  moreover have "core_inv H pending (c\<lparr> core_session_seq := core_session_seq c + 1 \<rparr>)"
    by (rule core_inv_seq [OF inv less_imp_le [OF seq_increases [OF no_wrap]]])
  ultimately show ?thesis using o by simp
next
  fix us ev
  assume us: "open_session_locked (us_limits (core_heap c ! a)) (core_heap c ! a) (core_session_seq c + 1) source_ip
      (length (core_controls c)) = Inr (us, ev)"
    and "open_session_at a source_ip c =
       (Inr (Some \<lparr> as_user = a, as_session_id = core_session_seq c + 1, as_control = length (core_controls c) \<rparr>),
        core_send ev (core_put a us (c\<lparr> core_session_seq := core_session_seq c + 1,
                                        core_controls := core_controls c @ [False] \<rparr>)))"
  moreover have "\<forall>s \<in> H. as_session_id s \<noteq> core_session_seq c + 1"
    using le_less_trans [OF core_inv_handle(3) [OF inv] seq_increases [OF no_wrap]] by (metis less_irrefl)
  then have "core_inv (insert \<lparr> as_user = a, as_session_id = core_session_seq c + 1,
                              as_control = length (core_controls c) \<rparr> H) pending
    (core_send ev (core_put a us (c\<lparr> core_session_seq := core_session_seq c + 1,
                                     core_controls := core_controls c @ [False] \<rparr>)))"
    using core_inv_open_numbered [of H pending "c\<lparr> core_session_seq := core_session_seq c + 1 \<rparr>"] a us
      core_inv_seq [OF inv less_imp_le [OF seq_increases [OF no_wrap]]] by simp
  ultimately show ?thesis using o by auto
qed

lemma core_inv_drop:
  assumes inv: "core_inv H pending c" and s: "s \<in> H"
  shows "core_inv (H - {s}) pending (drop_session s c)"
proof -
  let ?a = "as_user s" and ?i = "as_session_id s"
  let ?us = "fst (user_close_session (core_heap c ! ?a) ?i)"
  let ?d = "core_put ?a ?us c"
  have a: "?a < length (core_heap c)" by (rule core_inv_handle(1) [OF inv s])
  have "core_inv (H - {s}) pending ?d"
  proof (rule core_invI)
    show "bus_ok (core_events ?d)" using core_inv_bus [OF inv] by simp
    show "user_ok (core_heap ?d ! b) \<and> unat (us_total (core_heap ?d ! b)) =
        unat (us_upload (core_heap ?d ! b)) + unat (us_download (core_heap ?d ! b)) + pending b"
      if "b < length (core_heap ?d)" for b
      using that core_inv_user [OF inv, of b] user_close_session_ok [of "core_heap c ! ?a" ?i]
        same_account_simps(1) [of "core_heap c ! ?a" ?i]
      by (cases "?a = b") (simp_all add: same_account_def)
    show "as_user t < length (core_heap ?d) \<and> as_control t < length (core_controls ?d) \<and>
        as_session_id t \<le> core_session_seq ?d" if "t \<in> H - {s}" for t
      using core_inv_handle [OF inv, of t] that by simp
    show "t = t'" if "t \<in> H - {s}" "t' \<in> H - {s}"
      "as_control t = as_control t' \<or> as_session_id t = as_session_id t'" for t t'
      using core_inv_unique [OF inv, of t t'] that by blast
    show "registered ?d t \<longleftrightarrow> t \<in> H - {s} \<and> \<not> core_controls ?d ! as_control t"
      if t: "as_user t < length (core_heap ?d)" for t
    proof -
      have rt: "registered c t \<longleftrightarrow> t \<in> H \<and> \<not> core_controls c ! as_control t"
        using core_inv_registered [OF inv] t by simp
      show ?thesis
      proof (cases "as_user t = ?a \<and> as_session_id t = ?i")
        case True
        then have "\<not> registered ?d t" using a by (simp add: registered_def delete_conv')
        moreover have "t = s" if "t \<in> H" using core_inv_unique [OF inv that s] True by blast
        ultimately show ?thesis by blast
      next
        case False
        then have "registered ?d t \<longleftrightarrow> registered c t"
          using t by (auto simp: registered_def nth_update_le delete_conv')
        moreover have "t \<noteq> s" using False by blast
        ultimately show ?thesis using rt by simp
      qed
    qed
  qed
  then show ?thesis using core_inv_fold_send by (simp add: drop_session_def split_beta)
qed

section \<open>Traffic\<close>

lemma core_inv_traffic_schedule:
  assumes "core_inv H pending c" "s \<in> H" "traffic_schedule dur now s dir n c = (w, c')"
  shows "core_inv H pending c'"
proof -
  let ?us = "core_heap c ! as_user s"
  have a: "as_user s < length (core_heap c)" by (rule core_inv_handle(1) [OF assms(1,2)])
  obtain l where "c' = core_put (as_user s) (?us\<lparr> us_upload_limiter := l \<rparr>) c
      \<or> c' = core_put (as_user s) (?us\<lparr> us_download_limiter := l \<rparr>) c"
    using assms(3)
    by (auto simp: traffic_schedule_def Let_def
        split: traffic_direction.splits prod.splits)
  moreover have "core_inv H pending (core_put (as_user s) us' c)"
    if "user_ok us'" "us_sessions us' = us_sessions ?us" "us_total us' = us_total ?us"
      "us_upload us' = us_upload ?us" "us_download us' = us_download ?us" for us'
    using that core_inv_user(2) [OF assms(1) a] by (intro core_inv_put [OF assms(1) a]) auto
  moreover have "user_ok ?us" by (rule core_inv_user(1) [OF assms(1) a])
  ultimately show ?thesis by (auto simp: user_ok_def)
qed

text \<open>A reservation moves bytes into \<open>pending\<close>, counting moves them out again.\<close>

lemma user_reserve_quota_Inr:
  assumes "user_reserve_quota us n = Inr us'"
  shows "us' = us\<lparr> us_total := us_total us + n \<rparr> \<and> unat (us_total us + n) = unat (us_total us) + unat n
    \<and> (\<forall>q. cl_quota_bytes (us_limits us) = Some q \<longrightarrow> us_total us + n \<le> q)"
  using assms
  by (auto simp: user_reserve_quota_def checked_add_u64_def unat_word_ariths split: option.splits if_splits)

lemma core_inv_traffic_charge:
  assumes "core_inv H pending c" "s \<in> H" "traffic_charge s n c = Inr c'"
  shows "core_inv H (pending(as_user s := pending (as_user s) + unat n)) c'"
proof -
  let ?us = "core_heap c ! as_user s"
  have a: "as_user s < length (core_heap c)" by (rule core_inv_handle(1) [OF assms(1,2)])
  obtain us' where us': "user_reserve_quota ?us n = Inr us'" "c' = core_put (as_user s) us' c"
    using assms(3) by (auto simp: traffic_charge_def and_then_Inr_iff)
  from user_reserve_quota_Inr [OF us'(1)] core_inv_user [OF assms(1) a] show ?thesis
    unfolding us'(2) by (intro core_inv_put [OF assms(1) a]) (auto simp: user_ok_def)
qed

lemma unat_add_le_total:
  assumes "unat (t :: u64) = unat (a :: u64) + b + c" "unat (n :: u64) \<le> c"
  shows "unat (a + n) = unat a + unat n"
proof -
  have "unat a + unat n < 2 ^ 64" using assms unsigned_less [of t, where 'a = nat] by simp
  then show ?thesis by (simp add: unat_word_ariths)
qed

lemma core_inv_traffic_count:
  assumes "core_inv H pending c" "s \<in> H" "unat n \<le> pending (as_user s)"
    "traffic_count s dir n c = (counters, c')"
  shows "core_inv H (pending(as_user s := pending (as_user s) - unat n)) c'"
proof -
  let ?us = "core_heap c ! as_user s"
  have a: "as_user s < length (core_heap c)" by (rule core_inv_handle(1) [OF assms(1,2)])
  note us = core_inv_user [OF assms(1) a]
  have up: "unat (us_upload ?us + n) = unat (us_upload ?us) + unat n"
    using unat_add_le_total [OF us(2) assms(3)] .
  have down: "unat (us_download ?us + n) = unat (us_download ?us) + unat n"
    by (rule unat_add_le_total [of "us_total ?us" _ "unat (us_upload ?us)" "pending (as_user s)"])
       (use us(2) assms(3) in simp_all)
  show ?thesis
  proof (cases dir)
    case Upload
    then have "c' = core_put (as_user s) (?us\<lparr> us_upload := us_upload ?us + n \<rparr>) c"
      using assms(4) by (simp add: traffic_count_def)
    then show ?thesis
      using us up assms(3) by (auto intro!: core_inv_put [OF assms(1) a] simp: user_ok_def)
  next
    case Download
    then have "c' = core_put (as_user s) (?us\<lparr> us_download := us_download ?us + n \<rparr>) c"
      using assms(4) by (simp add: traffic_count_def)
    then show ?thesis
      using us down assms(3) by (auto intro!: core_inv_put [OF assms(1) a] simp: user_ok_def)
  qed
qed

lemma core_inv_events:
  "core_inv H pending c \<Longrightarrow> bus_ok b \<Longrightarrow> core_inv H pending (c\<lparr> core_events := b \<rparr>)"
  by (simp add: core_inv_def registered_def)

lemma core_inv_traffic_emit:
  "core_inv H pending c \<Longrightarrow> core_inv H pending (traffic_emit s dir n counters c)"
  unfolding traffic_emit_def by (intro core_inv_events bus_dispatch_ok core_inv_bus)

end
