(* ===== verification/CoreUsers.thy ===== *)
theory CoreUsers
  imports CoreInv
begin

text \<open>
  \<open>ProxyCore::replace_users\<close> (\<open>src/src/core.rs\<close>): the validation loop, the loop that builds the new
  table of users and the one that cancels the sessions of users that are gone.
\<close>

section \<open>Replacing the users: validation\<close>

text \<open>What the variables of the loop hold after the users in \<open>us\<close>.\<close>

definition validated_inv :: "(bytes \<Rightarrow> bytes) \<Rightarrow> core_user list \<Rightarrow> validated \<Rightarrow> bool" where
  "validated_inv sha us v \<longleftrightarrow>
     v_credentials v = cu_credential ` set us \<and> distinct (map cu_credential us) \<and>
     (\<forall>u \<in> set us. trim (cu_id u) \<noteq> [] \<and> trim (cu_credential u) \<noteq> []) \<and>
     distinct (map fst (v_credential_map v)) \<and>
     set (v_credential_map v) = (\<lambda>u. (cu_credential u, cu_id u)) ` set us \<and>
     distinct (map fst (v_users_by_id v)) \<and> fst ` set (v_users_by_id v) = cu_id ` set us \<and>
     (\<forall>(i, u) \<in> set (v_users_by_id v). u \<in> set us \<and> cu_id u = i) \<and>
     (\<forall>u \<in> set us. \<forall>u' \<in> set us. cu_id u = cu_id u' \<longrightarrow> limits_of u = limits_of u') \<and>
     (\<forall>i. v_credentials_by_id v i =
        (if i \<in> cu_id ` set us then Some (cu_credential ` {u \<in> set us. cu_id u = i}) else None)) \<and>
     v_event_user_ids v = map fst (v_users_by_id v) \<and>
     (\<forall>h x. map_of (v_password_hashes v) h = Some x \<longrightarrow>
        (\<exists>u \<in> set us. cu_credential u = x \<and> password_hash sha x = h)) \<and>
     (\<forall>u \<in> set us. map_of (v_password_hashes v) (password_hash sha (cu_credential u)) \<noteq> None)"

lemma validated_inv_init: "validated_inv sha [] validated_init"
  by (simp add: validated_inv_def validated_init_def)

text \<open>One user, in the two cases of the loop body.\<close>

definition grouped_credentials :: "core_user \<Rightarrow> validated \<Rightarrow> string set" where
  "grouped_credentials u v = (case v_credentials_by_id v (cu_id u) of None \<Rightarrow> {} | Some g \<Rightarrow> g)"

lemma validate_user_Inr:
  assumes "validate_user sha u v = Inr v'"
  shows "trim (cu_id u) \<noteq> []" "trim (cu_credential u) \<noteq> []" "cu_credential u \<notin> v_credentials v"
    "v_credentials v' = insert (cu_credential u) (v_credentials v)"
    "v_credential_map v' = AList.update (cu_credential u) (cu_id u) (v_credential_map v)"
    "v_password_hashes v' = AList.update (password_hash sha (cu_credential u)) (cu_credential u) (v_password_hashes v)"
    "v_credentials_by_id v' =
       (v_credentials_by_id v)(cu_id u \<mapsto> insert (cu_credential u) (grouped_credentials u v))"
    "v_users_by_id v' = (case map_of (v_users_by_id v) (cu_id u) of
        Some _ \<Rightarrow> v_users_by_id v | None \<Rightarrow> v_users_by_id v @ [(cu_id u, u)])"
    "v_event_user_ids v' = (case map_of (v_users_by_id v) (cu_id u) of
        Some _ \<Rightarrow> v_event_user_ids v | None \<Rightarrow> v_event_user_ids v @ [cu_id u])"
    "\<forall>existing. map_of (v_users_by_id v) (cu_id u) = Some existing \<longrightarrow> limits_of existing = limits_of u"
  using assms
  by (auto simp: validate_user_def Let_def grouped_credentials_def update_fresh
      split: if_splits option.splits)

lemma set_update_fresh:
  "k \<notin> fst ` set al \<Longrightarrow> set (AList.update k v al) = insert (k, v) (set al)"
  by (induction al) (auto split: if_splits)

lemma validated_invD:
  assumes "validated_inv sha us v"
  shows "v_credentials v = cu_credential ` set us" "distinct (map cu_credential us)"
    "\<forall>u \<in> set us. trim (cu_id u) \<noteq> [] \<and> trim (cu_credential u) \<noteq> []"
    "distinct (map fst (v_credential_map v))"
    "set (v_credential_map v) = (\<lambda>u. (cu_credential u, cu_id u)) ` set us"
    "distinct (map fst (v_users_by_id v))" "fst ` set (v_users_by_id v) = cu_id ` set us"
    "\<forall>(i, u) \<in> set (v_users_by_id v). u \<in> set us \<and> cu_id u = i"
    "\<forall>u \<in> set us. \<forall>u' \<in> set us. cu_id u = cu_id u' \<longrightarrow> limits_of u = limits_of u'"
    "\<forall>i. v_credentials_by_id v i =
        (if i \<in> cu_id ` set us then Some (cu_credential ` {u \<in> set us. cu_id u = i}) else None)"
    "v_event_user_ids v = map fst (v_users_by_id v)"
    "\<forall>h x. map_of (v_password_hashes v) h = Some x \<longrightarrow>
        (\<exists>u \<in> set us. cu_credential u = x \<and> password_hash sha x = h)"
    "\<forall>u \<in> set us. map_of (v_password_hashes v) (password_hash sha (cu_credential u)) \<noteq> None"
  using assms unfolding validated_inv_def
  by satx+

lemma validated_users_step:
  assumes inv: "validated_inv sha us v" and step: "validate_user sha u v = Inr v'"
  shows "distinct (map fst (v_users_by_id v'))"
    "fst ` set (v_users_by_id v') = cu_id ` set (us @ [u])"
    "\<forall>(i, w) \<in> set (v_users_by_id v'). w \<in> set (us @ [u]) \<and> cu_id w = i"
    "v_event_user_ids v' = map fst (v_users_by_id v')"
proof -
  note I = validated_invD [OF inv] and S = validate_user_Inr [OF step]
  have ids: "map_of (v_users_by_id v) (cu_id u) = None \<longleftrightarrow> cu_id u \<notin> cu_id ` set us"
    using I(7) by (simp add: map_of_eq_None_iff)
  show "distinct (map fst (v_users_by_id v'))"
    using I(6,7) ids unfolding S(8) by (simp split: option.split)
  show "fst ` set (v_users_by_id v') = cu_id ` set (us @ [u])"
    using I(7) ids unfolding S(8) by (auto split: option.split)
  show "\<forall>(i, w) \<in> set (v_users_by_id v'). w \<in> set (us @ [u]) \<and> cu_id w = i"
    using I(8) unfolding S(8) by (auto split: option.split)
  show "v_event_user_ids v' = map fst (v_users_by_id v')"
    using I(11) unfolding S(8,9) by (simp split: option.split)
qed

lemma validated_limits_step:
  assumes inv: "validated_inv sha us v" and step: "validate_user sha u v = Inr v'"
    and u': "u' \<in> set us" "cu_id u' = cu_id u"
  shows "limits_of u' = limits_of u"
proof -
  note I = validated_invD [OF inv] and S = validate_user_Inr [OF step]
  have "cu_id u \<in> fst ` set (v_users_by_id v)" using u' I(7) by (metis image_eqI)
  then obtain e where e: "map_of (v_users_by_id v) (cu_id u) = Some e"
    by (metis map_of_eq_None_iff not_None_eq)
  then have "e \<in> set us" "cu_id e = cu_id u" using I(8) by (auto dest!: map_of_SomeD)
  then have "limits_of u' = limits_of e" using I(9) u' by metis
  then show ?thesis using S(10) e by simp
qed

lemma validated_groups_step:
  assumes inv: "validated_inv sha us v" and step: "validate_user sha u v = Inr v'"
  shows "v_credentials_by_id v' i =
      (if i \<in> cu_id ` set (us @ [u]) then Some (cu_credential ` {w \<in> set (us @ [u]). cu_id w = i}) else None)"
proof -
  note I = validated_invD [OF inv] and S = validate_user_Inr [OF step]
  have grp: "{w \<in> set (us @ [u]). cu_id w = i} =
      (if cu_id u = i then insert u {w \<in> set us. cu_id w = i} else {w \<in> set us. cu_id w = i})" by auto
  have new: "grouped_credentials u v = cu_credential ` {w \<in> set us. cu_id w = cu_id u}"
    unfolding grouped_credentials_def I(10) [rule_format] by (auto simp: image_iff)
  show ?thesis
  proof (cases "cu_id u = i")
    case True
    then show ?thesis using grp new by (simp add: S(7))
  next
    case False
    then have "(i \<in> cu_id ` set (us @ [u])) = (i \<in> cu_id ` set us)" by auto
    then show ?thesis using grp False by (simp only: S(7) I(10) [rule_format] fun_upd_other if_False not_sym)
  qed
qed

lemma validated_inv_step:
  assumes inv: "validated_inv sha us v" and step: "validate_user sha u v = Inr v'"
  shows "validated_inv sha (us @ [u]) v'"
proof -
  note I = validated_invD [OF inv] and S = validate_user_Inr [OF step]
  have fresh: "cu_credential u \<notin> cu_credential ` set us" using S(3) I(1) by simp
  have "fst ` set (v_credential_map v) = cu_credential ` set us"
    unfolding I(5) by (simp add: image_image)
  then have fresh_map: "cu_credential u \<notin> fst ` set (v_credential_map v)" using fresh by simp
  show ?thesis
    unfolding validated_inv_def
  proof (intro conjI)
    show "v_credentials v' = cu_credential ` set (us @ [u])" using I(1) S(4) by simp
    show "distinct (map cu_credential (us @ [u]))" using I(2) fresh by simp
    show "\<forall>w \<in> set (us @ [u]). trim (cu_id w) \<noteq> [] \<and> trim (cu_credential w) \<noteq> []"
      using I(3) S(1,2) by simp
    show "distinct (map fst (v_credential_map v'))" using I(4) by (simp add: S(5) distinct_update)
    show "set (v_credential_map v') = (\<lambda>u. (cu_credential u, cu_id u)) ` set (us @ [u])"
      using I(5) by (simp add: S(5) set_update_fresh [OF fresh_map])
    show "\<forall>w \<in> set (us @ [u]). \<forall>w' \<in> set (us @ [u]). cu_id w = cu_id w' \<longrightarrow> limits_of w = limits_of w'"
    proof (intro ballI impI)
      fix w w' assume w: "w \<in> set (us @ [u])" "w' \<in> set (us @ [u])" and eq: "cu_id w = cu_id w'"
      note step_eq = validated_limits_step [OF inv step]
      show "limits_of w = limits_of w'"
      proof (cases "w \<in> set us"; cases "w' \<in> set us")
        assume "w \<in> set us" "w' \<in> set us"
        then show ?thesis using I(9) eq by metis
      next
        assume "w \<in> set us" "w' \<notin> set us"
        then show ?thesis using step_eq [of w] w(2) eq by simp
      next
        assume "w \<notin> set us" "w' \<in> set us"
        then show ?thesis using step_eq [of w'] w(1) eq by simp
      next
        assume "w \<notin> set us" "w' \<notin> set us"
        then show ?thesis using w by simp
      qed
    qed
    show "\<forall>h x. map_of (v_password_hashes v') h = Some x \<longrightarrow>
        (\<exists>w \<in> set (us @ [u]). cu_credential w = x \<and> password_hash sha x = h)"
    proof (intro allI impI)
      fix h x assume "map_of (v_password_hashes v') h = Some x"
      then have "h = password_hash sha (cu_credential u) \<and> x = cu_credential u \<or>
          map_of (v_password_hashes v) h = Some x"
        unfolding S(6) update_conv' by (simp split: if_splits)
      then show "\<exists>w \<in> set (us @ [u]). cu_credential w = x \<and> password_hash sha x = h"
        using I(12) by (elim disjE) (simp, force)
    qed
    show "\<forall>w \<in> set (us @ [u]). map_of (v_password_hashes v') (password_hash sha (cu_credential w)) \<noteq> None"
      using I(13) by (simp add: S(6) update_conv')
    show "\<forall>i. v_credentials_by_id v' i = (if i \<in> cu_id ` set (us @ [u])
        then Some (cu_credential ` {w \<in> set (us @ [u]). cu_id w = i}) else None)"
      using validated_groups_step [OF inv step] by blast
  qed (rule validated_users_step [OF inv step])+
qed

lemma validate_users_inv:
  "validated_inv sha us v \<Longrightarrow> validate_users sha users v = Inr v' \<Longrightarrow> validated_inv sha (us @ users) v'"
proof (induction users arbitrary: us v)
  case (Cons u users)
  then obtain w where "validate_user sha u v = Inr w" "validate_users sha users w = Inr v'"
    by (auto simp: and_then_Inr_iff)
  then show ?case using Cons.IH [of "us @ [u]" w] validated_inv_step [OF Cons.prems(1)] by simp
qed simp

lemma validate_users_Inr:
  "validate_users sha users validated_init = Inr v \<Longrightarrow> validated_inv sha users v"
  using validate_users_inv [OF validated_inv_init] by fastforce

section \<open>Replacing the users: the new table\<close>

text \<open>The table of users names existing objects, each with the identity it is listed under.\<close>

definition users_ok :: "core \<Rightarrow> bool" where
  "users_ok c \<longleftrightarrow> distinct (map fst (core_users c)) \<and>
     (\<forall>(i, a) \<in> set (core_users c). a < length (core_heap c) \<and> us_id (core_heap c ! a) = i)"

lemma users_ok_entry:
  assumes "users_ok c" "map_of (core_users c) i = Some a"
  shows "a < length (core_heap c)" "us_id (core_heap c ! a) = i"
  using assms by (auto simp: users_ok_def dest!: map_of_SomeD)

lemma users_ok_inj:
  "users_ok c \<Longrightarrow> map_of (core_users c) i = Some a \<Longrightarrow> map_of (core_users c) j = Some a \<Longrightarrow> i = j"
  using users_ok_entry(2) by metis

text \<open>The state that the loop leaves for the entry of one user.\<close>

definition new_state :: "core \<Rightarrow> validated \<Rightarrow> nat \<Rightarrow> string \<Rightarrow> core_user \<Rightarrow> user_state" where
  "new_state c v now i u =
     (case map_of (core_users c) i of
        Some a \<Rightarrow> updated_user u (the (v_credentials_by_id v i)) now (core_heap c ! a)
      | None \<Rightarrow> user_state_new u (the (v_credentials_by_id v i)) now)"

definition build_address :: "core \<Rightarrow> string \<Rightarrow> core \<Rightarrow> nat" where
  "build_address c i d = (case map_of (core_users c) i of Some a \<Rightarrow> a | None \<Rightarrow> length (core_heap d))"

lemma build_user_step:
  assumes ok: "users_ok c" and fresh: "\<forall>a \<ge> length (core_heap c). pending a = 0"
    and inv: "core_inv H pending d" and len: "length (core_heap c) \<le> length (core_heap d)"
    and same: "\<forall>a. map_of (core_users c) i = Some a \<longrightarrow> core_heap d ! a = core_heap c ! a"
    and u: "cu_id u = i"
    and step: "build_user (core_users c) v now (i, u) (m, d) = (m1, d1)"
  shows "m1 = AList.update i (build_address c i d) m" "core_inv H pending d1"
    "length (core_heap d) \<le> length (core_heap d1)" "build_address c i d < length (core_heap d1)"
    "core_heap d1 ! build_address c i d = new_state c v now i u"
    "\<forall>b < length (core_heap d). b \<noteq> build_address c i d \<longrightarrow> core_heap d1 ! b = core_heap d ! b"
proof -
  show "m1 = AList.update i (build_address c i d) m"
    using step u by (auto simp: build_user_def build_address_def Let_def split: option.splits)
  have "core_inv H pending d1 \<and> length (core_heap d) \<le> length (core_heap d1) \<and>
    build_address c i d < length (core_heap d1) \<and>
    core_heap d1 ! build_address c i d = new_state c v now i u \<and>
    (\<forall>b < length (core_heap d). b \<noteq> build_address c i d \<longrightarrow> core_heap d1 ! b = core_heap d ! b)"
  proof (cases "map_of (core_users c) i")
    case None
    then have d1: "d1 = d\<lparr> core_heap := core_heap d @ [user_state_new u (the (v_credentials_by_id v i)) now] \<rparr>"
      using step u by (simp add: build_user_def)
    moreover have "core_inv H pending d1"
      unfolding d1 using inv fresh len by (intro core_inv_new_user) simp_all
    ultimately show ?thesis using None by (simp add: build_address_def new_state_def nth_append)
  next
    case (Some a)
    then have d1: "d1 = apply_user_update a u (the (v_credentials_by_id v i)) now d"
      using step u by (simp add: build_user_def)
    have a: "a < length (core_heap d)" using users_ok_entry(1) [OF ok Some] len by simp
    moreover have "core_inv H pending d1" unfolding d1 by (rule core_inv_apply_user_update [OF inv a])
    ultimately show ?thesis using Some same
      by (simp add: d1 build_address_def new_state_def apply_user_update_heap)
  qed
  then show "core_inv H pending d1"
    "length (core_heap d) \<le> length (core_heap d1)" "build_address c i d < length (core_heap d1)"
    "core_heap d1 ! build_address c i d = new_state c v now i u"
    "\<forall>b < length (core_heap d). b \<noteq> build_address c i d \<longrightarrow> core_heap d1 ! b = core_heap d ! b"
    by satx+
qed

text \<open>What the loop has done after the entries \<open>es\<close>, from the table \<open>m\<close> and the core \<open>d\<close>.\<close>

definition built ::
  "core \<Rightarrow> validated \<Rightarrow> nat \<Rightarrow> (string \<times> core_user) list \<Rightarrow> (string \<times> nat) list \<Rightarrow> core \<Rightarrow>
     (string \<times> nat) list \<Rightarrow> core \<Rightarrow> bool" where
  "built c v now es m d m' d' \<longleftrightarrow>
     length (core_heap d) \<le> length (core_heap d') \<and>
     (\<forall>i. i \<notin> fst ` set es \<longrightarrow> map_of m' i = map_of m i) \<and>
     (\<forall>b < length (core_heap d). (\<forall>i \<in> fst ` set es. map_of (core_users c) i \<noteq> Some b) \<longrightarrow>
        core_heap d' ! b = core_heap d ! b) \<and>
     (\<forall>(i, u) \<in> set es. \<exists>a < length (core_heap d'). map_of m' i = Some a \<and>
        (\<forall>a0. map_of (core_users c) i = Some a0 \<longrightarrow> a = a0) \<and>
        core_heap d' ! a = new_state c v now i u) \<and>
     (distinct (map fst m) \<longrightarrow> distinct (map fst m')) \<and>
     fst ` set m' = fst ` set m \<union> fst ` set es"

lemma fold_build_user:
  assumes ok: "users_ok c" and fresh: "\<forall>a \<ge> length (core_heap c). pending a = 0"
  shows "core_inv H pending d \<Longrightarrow> length (core_heap c) \<le> length (core_heap d) \<Longrightarrow>
    distinct (map fst es) \<Longrightarrow> \<forall>(i, u) \<in> set es. cu_id u = i \<Longrightarrow>
    \<forall>i \<in> fst ` set es. \<forall>a. map_of (core_users c) i = Some a \<longrightarrow> core_heap d ! a = core_heap c ! a \<Longrightarrow>
    fold (build_user (core_users c) v now) es (m, d) = (m', d') \<Longrightarrow>
    core_inv H pending d' \<and> built c v now es m d m' d'"
proof (induction es arbitrary: m d)
  case Nil
  then show ?case by (simp add: built_def)
next
  case (Cons e es)
  obtain i u where e: "e = (i, u)" by (cases e)
  obtain m1 d1 where step: "build_user (core_users c) v now (i, u) (m, d) = (m1, d1)"
    by (cases "build_user (core_users c) v now (i, u) (m, d)")
  have i: "i \<notin> fst ` set es" and u: "cu_id u = i"
    and same: "\<forall>a. map_of (core_users c) i = Some a \<longrightarrow> core_heap d ! a = core_heap c ! a"
    using Cons.prems(3,4,5) by (auto simp: e)
  note S = build_user_step [OF ok fresh Cons.prems(1,2) same u step]
  let ?a = "build_address c i d"
  have other: "b \<noteq> ?a" if "j \<in> fst ` set es" "map_of (core_users c) j = Some b" for j b
  proof
    assume "b = ?a"
    then have "map_of (core_users c) i = Some b"
      using users_ok_entry(1) [OF ok that(2)] Cons.prems(2)
      by (auto simp: build_address_def split: option.splits)
    then show False using users_ok_inj [OF ok that(2)] that(1) i by blast
  qed
  have rest: "\<forall>j \<in> fst ` set es. \<forall>a. map_of (core_users c) j = Some a \<longrightarrow> core_heap d1 ! a = core_heap c ! a"
  proof (intro ballI allI impI)
    fix j a assume j: "j \<in> fst ` set es" and a: "map_of (core_users c) j = Some a"
    have "core_heap d ! a = core_heap c ! a" using Cons.prems(5) j a by (force simp: e)
    moreover have "a < length (core_heap d)" using users_ok_entry(1) [OF ok a] Cons.prems(2) by simp
    ultimately show "core_heap d1 ! a = core_heap c ! a" using S(6) other [OF j a] by simp
  qed
  have IH: "core_inv H pending d' \<and> built c v now es m1 d1 m' d'"
    using Cons.prems(3,4,6) S(3) Cons.prems(2)
    by (intro Cons.IH [OF S(2)] rest) (auto simp: e step)
  then have B: "built c v now es m1 d1 m' d'" ..
  have mi: "map_of m' i = Some ?a" using B i by (simp add: built_def S(1) update_conv')
  have "?a < length (core_heap d1)" "\<forall>j \<in> fst ` set es. map_of (core_users c) j \<noteq> Some ?a"
    using S(4) other by auto
  then have hi: "core_heap d' ! ?a = new_state c v now i u" "?a < length (core_heap d')"
    using B S(5) by (auto simp: built_def)
  have ai: "?a = a0" if "map_of (core_users c) i = Some a0" for a0
    using that by (simp add: build_address_def)
  have "built c v now (e # es) m d m' d'"
    unfolding built_def
  proof (intro conjI)
    show "length (core_heap d) \<le> length (core_heap d')" using B S(3) by (simp add: built_def)
    show "\<forall>j. j \<notin> fst ` set (e # es) \<longrightarrow> map_of m' j = map_of m j"
      using B by (simp add: built_def e S(1) update_conv')
    show "\<forall>b < length (core_heap d). (\<forall>j \<in> fst ` set (e # es). map_of (core_users c) j \<noteq> Some b) \<longrightarrow>
        core_heap d' ! b = core_heap d ! b"
    proof (intro allI impI)
      fix b assume b: "b < length (core_heap d)" "\<forall>j \<in> fst ` set (e # es). map_of (core_users c) j \<noteq> Some b"
      then have "b \<noteq> ?a" by (auto simp: e build_address_def split: option.splits)
      then have "core_heap d1 ! b = core_heap d ! b" using S(6) b(1) by simp
      moreover have "core_heap d' ! b = core_heap d1 ! b"
        using B b S(3) by (simp add: built_def)
      ultimately show "core_heap d' ! b = core_heap d ! b" by simp
    qed
    show "\<forall>(j, w) \<in> set (e # es). \<exists>a < length (core_heap d'). map_of m' j = Some a \<and>
        (\<forall>a0. map_of (core_users c) j = Some a0 \<longrightarrow> a = a0) \<and> core_heap d' ! a = new_state c v now j w"
      using B mi hi ai unfolding built_def by (simp add: e)
    show "distinct (map fst m) \<longrightarrow> distinct (map fst m')"
      using B by (simp add: built_def S(1) distinct_update)
    show "fst ` set m' = fst ` set m \<union> fst ` set (e # es)"
      using B by (auto simp: built_def S(1) dom_update e)
  qed
  then show ?case using IH by blast
qed

lemma fold_cancel_removed:
  assumes "core_inv H pending d" "\<forall>(i, a) \<in> set cur. a < length (core_heap d)"
  shows "core_inv H pending (fold (cancel_removed ids) cur d)"
    "length (core_heap (fold (cancel_removed ids) cur d)) = length (core_heap d)"
    "b < length (core_heap d) \<Longrightarrow> core_heap (fold (cancel_removed ids) cur d) ! b =
       (if \<exists>i. (i, b) \<in> set cur \<and> i \<notin> ids then snd (user_clear_sessions (core_heap d ! b))
        else core_heap d ! b)"
proof -
  have "core_inv H pending (fold (cancel_removed ids) cur d) \<and>
    length (core_heap (fold (cancel_removed ids) cur d)) = length (core_heap d) \<and>
    (b < length (core_heap d) \<longrightarrow> core_heap (fold (cancel_removed ids) cur d) ! b =
       (if \<exists>i. (i, b) \<in> set cur \<and> i \<notin> ids then snd (user_clear_sessions (core_heap d ! b))
        else core_heap d ! b))"
    using assms
  proof (induction cur arbitrary: d)
    case (Cons e cur)
    have "core_inv H pending (cancel_removed ids e d)" "\<forall>(i, a) \<in> set cur. a < length (core_heap (cancel_removed ids e d))"
      using Cons.prems core_inv_cancel_sessions [OF Cons.prems(1)] by (auto simp: cancel_removed_def)
    from Cons.IH [OF this] show ?case
      using Cons.prems(2)
      by (cases e) (auto simp: cancel_removed_def nth_update_le user_clear_sessions_def)
  qed simp
  then show "core_inv H pending (fold (cancel_removed ids) cur d)"
    "length (core_heap (fold (cancel_removed ids) cur d)) = length (core_heap d)"
    "b < length (core_heap d) \<Longrightarrow> core_heap (fold (cancel_removed ids) cur d) ! b =
       (if \<exists>i. (i, b) \<in> set cur \<and> i \<notin> ids then snd (user_clear_sessions (core_heap d ! b))
        else core_heap d ! b)"
    by blast+
qed

section \<open>Replacing the users: the whole call\<close>

lemma replace_users_Inr:
  assumes "replace_users sha now users c = (Inr (), c')"
  obtains v m d where "validate_users sha users validated_init = Inr v"
    "fold (build_user (core_users c) v now) (v_users_by_id v) ([], c) = (m, d)"
    "c' = core_send (UsersReplaced (v_event_user_ids v))
       ((fold (cancel_removed (fst ` set (v_users_by_id v))) (core_users c) d)
          \<lparr> core_users := m, core_cred_users := v_credential_map v,
            core_password_hashes := v_password_hashes v \<rparr>)"
  using assms by (auto simp: replace_users_def Let_def split: sum.splits prod.splits)

lemma core_inv_tables:
  "core_inv H pending c \<Longrightarrow> core_inv H pending
     (c\<lparr> core_users := m, core_cred_users := creds, core_password_hashes := hashes \<rparr>)"
  by (simp add: core_inv_def registered_def)

text \<open>The outcome, over the loop variables.\<close>

lemma replace_users_tables:
  assumes inv: "core_inv H pending c" and ok: "users_ok c"
    and fresh: "\<forall>a \<ge> length (core_heap c). pending a = 0"
    and r: "replace_users sha now users c = (Inr (), c')"
  obtains v where "validated_inv sha users v" "core_inv H pending c'" "users_ok c'"
    "length (core_heap c) \<le> length (core_heap c')"
    "fst ` set (core_users c') = fst ` set (v_users_by_id v)"
    "core_cred_users c' = v_credential_map v" "core_password_hashes c' = v_password_hashes v"
    "\<And>i u. (i, u) \<in> set (v_users_by_id v) \<Longrightarrow> \<exists>a < length (core_heap c'). map_of (core_users c') i = Some a \<and>
        (\<forall>a0. map_of (core_users c) i = Some a0 \<longrightarrow> a = a0) \<and> core_heap c' ! a = new_state c v now i u"
    "\<And>i a. map_of (core_users c) i = Some a \<Longrightarrow> i \<notin> fst ` set (v_users_by_id v) \<Longrightarrow>
        core_heap c' ! a = snd (user_clear_sessions (core_heap c ! a))"
proof -
  obtain v m d where v: "validate_users sha users validated_init = Inr v"
    and b: "fold (build_user (core_users c) v now) (v_users_by_id v) ([], c) = (m, d)"
    and c': "c' = core_send (UsersReplaced (v_event_user_ids v))
       ((fold (cancel_removed (fst ` set (v_users_by_id v))) (core_users c) d)
          \<lparr> core_users := m, core_cred_users := v_credential_map v,
            core_password_hashes := v_password_hashes v \<rparr>)"
    using r by (rule replace_users_Inr)
  let ?ids = "fst ` set (v_users_by_id v)"
  note V = validated_invD [OF validate_users_Inr [OF v]]
  have built: "core_inv H pending d" "built c v now (v_users_by_id v) [] c m d"
    using fold_build_user [OF ok fresh inv order_refl V(6) _ _ b] V(8) by auto
  then have len: "length (core_heap c) \<le> length (core_heap d)" by (simp add: built_def)
  have cur: "\<forall>(i, a) \<in> set (core_users c). a < length (core_heap d)"
    using ok len by (auto simp: users_ok_def)
  note F = fold_cancel_removed [OF built(1) cur, where ids = ?ids]
  have heap: "core_heap c' = core_heap (fold (cancel_removed ?ids) (core_users c) d)"
    and m: "core_users c' = m" by (simp_all add: c')
  have gone: "(\<exists>i. (i, a) \<in> set (core_users c) \<and> i \<notin> ?ids) \<longleftrightarrow> i \<notin> ?ids"
    if i: "map_of (core_users c) i = Some a" for i a
  proof -
    have "j = i" if "(j, a) \<in> set (core_users c)" for j
      using users_ok_inj [OF ok _ i] that ok by (auto simp: users_ok_def)
    then show ?thesis using map_of_SomeD [OF i] by blast
  qed
  have new: "\<exists>a < length (core_heap c'). map_of (core_users c') i = Some a \<and>
        (\<forall>a0. map_of (core_users c) i = Some a0 \<longrightarrow> a = a0) \<and> core_heap c' ! a = new_state c v now i u"
    if i: "(i, u) \<in> set (v_users_by_id v)" for i u
  proof -
    obtain a where a: "a < length (core_heap d)" "map_of m i = Some a"
      "\<forall>a0. map_of (core_users c) i = Some a0 \<longrightarrow> a = a0" "core_heap d ! a = new_state c v now i u"
      using bspec [OF built(2) [unfolded built_def, THEN conjunct2, THEN conjunct2, THEN conjunct2, THEN conjunct1] i]
      by (simp only: prod.case) blast
    have "core_heap c' ! a = core_heap d ! a"
    proof (cases "map_of (core_users c) i")
      case None
      then have "snd (user_clear_sessions (core_heap d ! a)) = core_heap d ! a"
        by (simp add: a(4) new_state_def user_clear_sessions_def user_state_new_def)
      then show ?thesis using F(3) [OF a(1)] by (simp add: heap)
    next
      case (Some a0)
      then have "a = a0" "i \<in> ?ids" using a(3) image_eqI [OF _ i, of i fst] by simp_all
      then show ?thesis using F(3) [OF a(1)] gone [OF Some] by (simp add: heap)
    qed
    then show ?thesis using a F(2) by (intro exI [of _ a] conjI) (simp_all only: heap m)
  qed
  have removed: "core_heap c' ! a = snd (user_clear_sessions (core_heap c ! a))"
    if a: "map_of (core_users c) i = Some a" "i \<notin> ?ids" for i a
  proof -
    have "a < length (core_heap c)" by (rule users_ok_entry(1) [OF ok a(1)])
    moreover have "\<forall>j \<in> ?ids. map_of (core_users c) j \<noteq> Some a"
      using users_ok_inj [OF ok a(1)] a(2) by blast
    ultimately have "core_heap d ! a = core_heap c ! a" "a < length (core_heap d)"
      using built(2) len unfolding built_def by simp_all
    then show ?thesis using F(3) gone [OF a(1)] a(2) by (simp add: heap)
  qed
  have id_new: "us_id (new_state c v now i u) = i" if "(i, u) \<in> set (v_users_by_id v)" for i u
  proof -
    have "cu_id u = i" using V(8) that by blast
    then show ?thesis
      using users_ok_entry(2) [OF ok, of i] same_account_updated
      by (auto simp: new_state_def user_state_new_def same_account_def split: option.splits)
  qed
  have keys: "fst ` set m = ?ids" "distinct (map fst m)" using built(2) by (simp_all add: built_def)
  have "a < length (core_heap c') \<and> us_id (core_heap c' ! a) = i" if ia: "(i, a) \<in> set m" for i a
  proof -
    have "i \<in> ?ids" using ia keys(1) by force
    then obtain u where u: "(i, u) \<in> set (v_users_by_id v)" by auto
    moreover have "map_of m i = Some a" using ia keys(2) by simp
    ultimately show ?thesis using new [OF u] id_new [OF u] by (auto simp: m)
  qed
  then have ok': "users_ok c'" using keys(2) by (auto simp: users_ok_def m)
  have "core_inv H pending c'" unfolding c' by (intro core_inv_send core_inv_tables F(1))
  moreover have "length (core_heap c) \<le> length (core_heap c')" using len F(2) by (simp add: heap)
  moreover have "core_cred_users c' = v_credential_map v" "core_password_hashes c' = v_password_hashes v"
    by (simp_all add: c')
  ultimately show thesis
    using that [OF validate_users_Inr [OF v] _ ok' _ _ _ _ new removed] keys(1) m by simp
qed

text \<open>A handle whose user has no session left is cancelled.\<close>

lemma no_session_cancelled:
  assumes "core_inv H pending c" "s \<in> H" "us_sessions (core_heap c ! as_user s) = []"
  shows "core_controls c ! as_control s"
  using core_inv_registered [OF assms(1) core_inv_handle(1) [OF assms(1,2)]] assms(2,3)
  by (simp add: registered_def)

text \<open>The lists that the validation accepts.\<close>

definition valid_users :: "core_user list \<Rightarrow> bool" where
  "valid_users users \<longleftrightarrow>
     (\<forall>u \<in> set users. trim (cu_id u) \<noteq> [] \<and> trim (cu_credential u) \<noteq> []) \<and>
     distinct (map cu_credential users) \<and>
     (\<forall>u \<in> set users. \<forall>u' \<in> set users. cu_id u = cu_id u' \<longrightarrow> limits_of u = limits_of u')"

lemma validated_inv_valid: "validated_inv sha users v \<Longrightarrow> valid_users users"
  using validated_invD [of sha users v] unfolding valid_users_def by satx

lemma valid_users_step:
  assumes inv: "validated_inv sha us v" and valid: "valid_users (us @ [u])"
  shows "\<exists>v'. validate_user sha u v = Inr v'"
proof -
  note I = validated_invD [OF inv]
  have "trim (cu_id u) \<noteq> []" "trim (cu_credential u) \<noteq> []" "cu_credential u \<notin> v_credentials v"
    using valid I(1) by (auto simp: valid_users_def)
  moreover have "limits_of e = limits_of u" if "map_of (v_users_by_id v) (cu_id u) = Some e" for e
  proof -
    have "e \<in> set us" "cu_id e = cu_id u" using I(8) map_of_SomeD [OF that] by auto
    then have "e \<in> set (us @ [u])" "u \<in> set (us @ [u])" by simp_all
    then show ?thesis using valid \<open>cu_id e = cu_id u\<close> unfolding valid_users_def by blast
  qed
  ultimately show ?thesis
    by (cases "map_of (v_users_by_id v) (cu_id u)") (simp_all add: validate_user_def Let_def)
qed

lemma valid_users_prefix: "valid_users (us @ ws) \<Longrightarrow> valid_users us"
  by (simp add: valid_users_def)

lemma validate_users_complete:
  "validated_inv sha us v \<Longrightarrow> valid_users (us @ users) \<Longrightarrow> \<exists>v'. validate_users sha users v = Inr v'"
proof (induction users arbitrary: us v)
  case (Cons u users)
  have "valid_users (us @ [u])" using valid_users_prefix [of "us @ [u]" users] Cons.prems(2) by simp
  then obtain w where w: "validate_user sha u v = Inr w"
    using valid_users_step [OF Cons.prems(1)] by blast
  then have "\<exists>v'. validate_users sha users w = Inr v'"
    using Cons.IH [OF validated_inv_step [OF Cons.prems(1) w]] Cons.prems(2) by simp
  then show ?case using w by simp
qed simp

text \<open>The index of the credentials after the users have been replaced.\<close>

lemma replace_users_lookup:
  assumes r: "replace_users sha now users c = (Inr (), c')" and u: "u \<in> set users"
  shows "map_of (core_cred_users c') (cu_credential u) = Some (cu_id u)"
    "inj_on (password_hash sha) (cu_credential ` set users) \<Longrightarrow>
       map_of (core_password_hashes c') (password_hash sha (cu_credential u)) = Some (cu_credential u)"
proof -
  obtain v where v: "validate_users sha users validated_init = Inr v"
    "core_cred_users c' = v_credential_map v" "core_password_hashes c' = v_password_hashes v"
    using r by (rule replace_users_Inr) simp
  note I = validated_invD [OF validate_users_Inr [OF v(1)]]
  show "map_of (core_cred_users c') (cu_credential u) = Some (cu_id u)"
    using u unfolding v(2) map_of_eq_Some_iff [OF I(4)] I(5) by blast
  assume inj: "inj_on (password_hash sha) (cu_credential ` set users)"
  obtain x where x: "map_of (v_password_hashes v) (password_hash sha (cu_credential u)) = Some x"
    using I(13) u by blast
  then obtain w where "w \<in> set users" "cu_credential w = x"
    "password_hash sha x = password_hash sha (cu_credential u)" using I(12) by blast
  then have "x = cu_credential u" using inj u by (auto dest: inj_onD)
  then show "map_of (core_password_hashes c') (password_hash sha (cu_credential u)) = Some (cu_credential u)"
    using x v(3) by simp
qed

lemma replace_users_unknown:
  assumes r: "replace_users sha now users c = (Inr (), c')" and k: "k \<notin> cu_credential ` set users"
  shows "map_of (core_cred_users c') k = None"
proof -
  obtain v where v: "validate_users sha users validated_init = Inr v" "core_cred_users c' = v_credential_map v"
    using r by (rule replace_users_Inr) simp
  then show ?thesis
    using k validated_invD(5) [OF validate_users_Inr [OF v(1)]] unfolding v(2) map_of_eq_None_iff by auto
qed

section \<open>Properties\<close>

text \<open>C23: a new list of users is installed exactly when it is valid (no blank identity or
  credential, no credential twice, no identity with two sets of limits), and a list that is
  refused leaves the whole core as it was.\<close>

theorem replace_users_all_or_nothing:
  "(fst (replace_users sha now users c) = Inr () \<longleftrightarrow> valid_users users) \<and>
   (valid_users users \<or> snd (replace_users sha now users c) = c)"
proof (cases "validate_users sha users validated_init")
  case (Inl e)
  then have "\<not> valid_users users"
    using validate_users_complete [OF validated_inv_init, of users sha] by auto
  then show ?thesis using Inl by (simp add: replace_users_def)
next
  case (Inr v)
  then have "valid_users users" by (intro validated_inv_valid validate_users_Inr)
  then show ?thesis using Inr by (simp add: replace_users_def Let_def split_beta)
qed

text \<open>C24: replacing the users installs exactly the given users. The table has the given
  identities; each has the given limits and all of its credentials; a user that existed keeps
  its object, identity and counters, and keeps its sessions just when its credentials did not
  change; a new user starts at zero. Every handle of a user that is gone, or whose credentials
  changed, is cancelled. The credential index maps each given credential to its user, and
  nothing else.\<close>

theorem replace_users_installs:
  assumes "core_inv H pending c" "users_ok c" "\<forall>a \<ge> length (core_heap c). pending a = 0"
    "replace_users sha now users c = (Inr (), c')"
  shows "core_inv H pending c' \<and> users_ok c' \<and>
    fst ` set (core_users c') = cu_id ` set users \<and>
    (\<forall>u \<in> set users. \<exists>a. map_of (core_users c') (cu_id u) = Some a \<and>
       us_limits (core_heap c' ! a) = limits_of u \<and>
       us_credentials (core_heap c' ! a) = cu_credential ` {w \<in> set users. cu_id w = cu_id u} \<and>
       (case map_of (core_users c) (cu_id u) of
          Some a0 \<Rightarrow> a = a0 \<and> same_account (core_heap c ! a) (core_heap c' ! a) \<and>
            us_sessions (core_heap c' ! a) =
              (if us_credentials (core_heap c ! a) = us_credentials (core_heap c' ! a)
               then us_sessions (core_heap c ! a) else [])
        | None \<Rightarrow> us_total (core_heap c' ! a) = 0 \<and> us_sessions (core_heap c' ! a) = [])) \<and>
    (\<forall>s \<in> H. (\<exists>i. map_of (core_users c) i = Some (as_user s) \<and>
         (i \<notin> cu_id ` set users \<or>
          us_credentials (core_heap c ! as_user s) \<noteq> us_credentials (core_heap c' ! as_user s))) \<longrightarrow>
       core_controls c' ! as_control s) \<and>
    (\<forall>k i. map_of (core_cred_users c') k = Some i \<longleftrightarrow>
       (\<exists>u \<in> set users. cu_credential u = k \<and> cu_id u = i))"
proof (rule replace_users_tables [OF assms])
  fix v assume V: "validated_inv sha users v" and inv': "core_inv H pending c'" and ok': "users_ok c'"
    and "length (core_heap c) \<le> length (core_heap c')"
    and ids: "fst ` set (core_users c') = fst ` set (v_users_by_id v)"
    and creds: "core_cred_users c' = v_credential_map v" and "core_password_hashes c' = v_password_hashes v"
    and new: "\<And>i u. (i, u) \<in> set (v_users_by_id v) \<Longrightarrow> \<exists>a < length (core_heap c'). map_of (core_users c') i = Some a \<and>
        (\<forall>a0. map_of (core_users c) i = Some a0 \<longrightarrow> a = a0) \<and> core_heap c' ! a = new_state c v now i u"
    and gone: "\<And>i a. map_of (core_users c) i = Some a \<Longrightarrow> i \<notin> fst ` set (v_users_by_id v) \<Longrightarrow>
        core_heap c' ! a = snd (user_clear_sessions (core_heap c ! a))"
  note I = validated_invD [OF V]
  have entry: "\<exists>w a. (cu_id u, w) \<in> set (v_users_by_id v) \<and> limits_of w = limits_of u \<and>
      map_of (core_users c') (cu_id u) = Some a \<and>
      (\<forall>a0. map_of (core_users c) (cu_id u) = Some a0 \<longrightarrow> a = a0) \<and>
      core_heap c' ! a = new_state c v now (cu_id u) w" if u: "u \<in> set users" for u
  proof -
    have "cu_id u \<in> fst ` set (v_users_by_id v)" using u I(7) by simp
    then obtain w where w: "(cu_id u, w) \<in> set (v_users_by_id v)" by auto
    then have "w \<in> set users" "cu_id w = cu_id u" using I(8) by auto
    then have "limits_of w = limits_of u" using I(9) u by blast
    then show ?thesis using new [OF w] w by metis
  qed
  have group: "the (v_credentials_by_id v (cu_id u)) = cu_credential ` {w \<in> set users. cu_id w = cu_id u}"
    if "u \<in> set users" for u
    using that I(10) by simp
  show ?thesis
  proof (intro conjI ballI allI impI)
    show "core_inv H pending c'" "users_ok c'" by fact+
    show "fst ` set (core_users c') = cu_id ` set users" using ids I(7) by simp
    fix k i show "map_of (core_cred_users c') k = Some i \<longleftrightarrow>
       (\<exists>u \<in> set users. cu_credential u = k \<and> cu_id u = i)"
      unfolding creds map_of_eq_Some_iff [OF I(4)] I(5) by auto
  next
    fix u assume u: "u \<in> set users"
    then obtain w a where a: "limits_of w = limits_of u" "map_of (core_users c') (cu_id u) = Some a"
      "\<forall>a0. map_of (core_users c) (cu_id u) = Some a0 \<longrightarrow> a = a0"
      "core_heap c' ! a = new_state c v now (cu_id u) w" using entry [OF u] by (elim exE conjE)
    show "\<exists>a. map_of (core_users c') (cu_id u) = Some a \<and>
       us_limits (core_heap c' ! a) = limits_of u \<and>
       us_credentials (core_heap c' ! a) = cu_credential ` {w \<in> set users. cu_id w = cu_id u} \<and>
       (case map_of (core_users c) (cu_id u) of
          Some a0 \<Rightarrow> a = a0 \<and> same_account (core_heap c ! a) (core_heap c' ! a) \<and>
            us_sessions (core_heap c' ! a) =
              (if us_credentials (core_heap c ! a) = us_credentials (core_heap c' ! a)
               then us_sessions (core_heap c ! a) else [])
        | None \<Rightarrow> us_total (core_heap c' ! a) = 0 \<and> us_sessions (core_heap c' ! a) = [])"
    proof (intro exI [of _ a] conjI)
      show "map_of (core_users c') (cu_id u) = Some a" by fact
      show "us_limits (core_heap c' ! a) = limits_of u"
        using a(1,4) by (simp add: new_state_def user_state_new_def split: option.split)
      show "us_credentials (core_heap c' ! a) = cu_credential ` {w \<in> set users. cu_id w = cu_id u}"
        using a(4) group [OF u] by (simp add: new_state_def user_state_new_def split: option.split)
    next
      show "case map_of (core_users c) (cu_id u) of
          Some a0 \<Rightarrow> a = a0 \<and> same_account (core_heap c ! a) (core_heap c' ! a) \<and>
            us_sessions (core_heap c' ! a) =
              (if us_credentials (core_heap c ! a) = us_credentials (core_heap c' ! a)
               then us_sessions (core_heap c ! a) else [])
        | None \<Rightarrow> us_total (core_heap c' ! a) = 0 \<and> us_sessions (core_heap c' ! a) = []"
      proof (cases "map_of (core_users c) (cu_id u)")
        case None
        then show ?thesis by (simp add: a(4) new_state_def user_state_new_def)
      next
        case (Some a0)
        then have "a = a0" using a(3) by blast
        then show ?thesis using Some a(4) by (simp add: new_state_def)
      qed
    qed
  next
    fix s assume s: "s \<in> H"
      and "\<exists>i. map_of (core_users c) i = Some (as_user s) \<and> (i \<notin> cu_id ` set users \<or>
          us_credentials (core_heap c ! as_user s) \<noteq> us_credentials (core_heap c' ! as_user s))"
    then obtain i where i: "map_of (core_users c) i = Some (as_user s)"
      and d: "i \<notin> cu_id ` set users \<or>
          us_credentials (core_heap c ! as_user s) \<noteq> us_credentials (core_heap c' ! as_user s)" by blast
    have "us_sessions (core_heap c' ! as_user s) = []"
    proof (cases "i \<in> cu_id ` set users")
      case False
      then show ?thesis using gone [OF i] I(7) by (simp add: user_clear_sessions_def)
    next
      case True
      then obtain u where u: "u \<in> set users" "i = cu_id u" by auto
      from entry [OF u(1)] obtain w a where a: "\<forall>a0. map_of (core_users c) i = Some a0 \<longrightarrow> a = a0"
        "core_heap c' ! a = new_state c v now i w" unfolding u(2) by (elim exE conjE)
      have "a = as_user s" using a(1) i by blast
      then have "core_heap c' ! as_user s =
          updated_user w (the (v_credentials_by_id v i)) now (core_heap c ! as_user s)"
        using i a(2) by (simp add: new_state_def)
      then show ?thesis using d True by simp
    qed
    then show "core_controls c' ! as_control s" by (rule no_session_cancelled [OF inv' s])
  qed
qed

theorem replace_users_installs_witness:
  "fst ` set (core_users (snd (replace_users (\<lambda>_. []) 0 [core_user_password ''a'' ''x'', core_user_password ''a'' ''y''] core_empty)))
     = {''a''}"
proof -
  let ?us = "[core_user_password ''a'' ''x'', core_user_password ''a'' ''y'']"
  let ?r = "replace_users (\<lambda>_. []) 0 ?us core_empty"
  have t: "trim ''a'' = ''a''" "trim ''x'' = ''x''" "trim ''y'' = ''y''" by code_simp+
  have "fst ?r = Inr ()"
    by (simp add: replace_users_def validate_user_def validated_init_def core_user_password_def
        limits_of_def Let_def split_beta t)
  then have "?r = (Inr (), snd ?r)" by (metis prod.collapse)
  from replace_users_installs [OF core_inv_empty _ _ this]
  have "fst ` set (core_users (snd ?r)) = cu_id ` set ?us"
    by (simp add: users_ok_def core_empty_def)
  then show ?thesis by (simp add: core_user_password_def)
qed

text \<open>C25: after the users have been replaced, the credential of each user (written without
  surrounding white space) opens a session of that user and of no other, and so does its SHA-256
  hash as long as no two credentials of the list have the same hash; a credential whose trimmed
  text is not in the list is refused. In particular a configured credential with surrounding
  white space does not authenticate, unless it is another user's credential once trimmed.\<close>

theorem credentials_authenticate:
  assumes r: "replace_users sha now users c = (Inr (), c')" and u: "u \<in> set users"
  shows "(trim (cu_credential u) = cu_credential u \<longrightarrow>
           authenticate_from (cu_credential u) source c' =
             open_session_with_source (cu_id u) (Some (sa_ip source)) c') \<and>
         (trim (cu_credential u) = cu_credential u \<and>
          inj_on (password_hash sha) (cu_credential ` set users) \<longrightarrow>
           authenticate_password_hash_from (password_hash sha (cu_credential u)) source c' =
             open_session_with_source (cu_id u) (Some (sa_ip source)) c') \<and>
         (\<forall>credential. trim credential \<notin> cu_credential ` set users \<longrightarrow>
           authenticate_from credential source c' = (Inl AuthFailed, c'))"
proof -
  note look = replace_users_lookup [OF r u] and none = replace_users_unknown [OF r]
  show ?thesis
    using look none
    by (simp add: authenticate_from_def authenticate_with_source_def authenticate_password_hash_from_def)
qed

theorem credentials_authenticate_witness:
  "fst (authenticate_from ''x '' (SocketV4 0 0)
     (snd (replace_users (\<lambda>_. []) 0 [core_user_password ''a'' '' x''] core_empty))) = Inl AuthFailed"
proof -
  let ?us = "[core_user_password ''a'' '' x'']"
  let ?r = "replace_users (\<lambda>_. []) 0 ?us core_empty"
  have t: "trim ''a'' = ''a''" "trim '' x'' = ''x''" "trim ''x '' = ''x''" by code_simp+
  have "fst ?r = Inr ()"
    by (simp add: replace_users_def validate_user_def validated_init_def core_user_password_def
        Let_def split_beta t)
  then have r: "?r = (Inr (), snd ?r)" by (metis prod.collapse)
  have "trim ''x '' \<notin> cu_credential ` set ?us" by (simp add: core_user_password_def t)
  then show ?thesis
    using credentials_authenticate [OF r, of "core_user_password ''a'' '' x''"] by simp
qed

end
