(* ===== verification/EndToEnd.thy ===== *)
theory EndToEnd
  imports ServerSession ClientSession CoreUsers
begin

text \<open>
  The AnyTLS client and server facing each other: how the server treats what a client writes to
  open a stream (padding frames included), and how the client treats what the server answers.
\<close>

section \<open>Who the client is\<close>

text \<open>The start of \<open>handle_client\<close>, after the TLS handshake: the digest of the password opens a
  session of the core; the rest of the stream is that of the AnyTLS session.\<close>

definition authenticate_client ::
  "bytes \<Rightarrow> socket_addr \<Rightarrow> core \<Rightarrow> (core_session \<times> bytes) result \<times> core" where
  "authenticate_client reader peer core =
     (case read_auth_preface_hash reader of
        Inl e \<Rightarrow> (Inl e, core)
      | Inr (hash, rest) \<Rightarrow>
          (case authenticate_password_hash_from hash peer core of
             (Inl e, core) \<Rightarrow> (Inl e, core)
           | (Inr session, core) \<Rightarrow> (Inr (session, rest), core)))"

lemma authenticate_client_ok:
  assumes "write_auth_preface sha rnd w (cu_credential user) = Inr ws"
    "length (password_hash sha (cu_credential user)) = 32"
    "replace_users sha now users core0 = (Inr (), core)" "user \<in> set users"
    "trim (cu_credential user) = cu_credential user" "inj_on (password_hash sha) (cu_credential ` set users)"
    "open_session_from (cu_id user) peer core = (Inr session, core')"
  shows "authenticate_client (concat ws @ rest) peer core = (Inr (session, rest), core')"
  using read_written_preface [OF assms(1,2), of rest] replace_users_lookup [OF assms(3,4)] assms(5-7)
  by (simp add: authenticate_client_def authenticate_password_hash_from_def authenticate_from_def
      authenticate_with_source_def open_session_from_def)

section \<open>The server reads what the client wrote\<close>

lemma serve_session_append:
  "serve_session bind padding s (evs @ evs') =
     (case serve_session bind padding s evs of
        (out, Inl e) \<Rightarrow> (out, Inl e)
      | (out, Inr s') \<Rightarrow> (case serve_session bind padding s' evs' of (out', r) \<Rightarrow> (out @ out', r)))"
proof (induction evs arbitrary: s)
  case (Cons ev evs)
  show ?case
  proof (cases "server_step bind padding s ev")
    case (Next s1 out1)
    then show ?thesis using Cons [of s1] by (simp split: prod.splits sum.splits)
  qed simp
qed (simp split: prod.splits)

lemma serve_session_waste:
  "serve_session bind padding s (map FrameIn (filter (\<lambda>f. frame_cmd f \<noteq> CMD_WASTE) fs)) =
     serve_session bind padding s (map FrameIn fs)"
proof (induction fs arbitrary: s)
  case (Cons f fs)
  show ?case
  proof (cases "frame_cmd f = CMD_WASTE")
    case True
    then have "serve_frame bind padding s f = Next s []" by (simp add: serve_frame_def Let_def)
    then show ?thesis using Cons True by simp
  next
    case False
    then show ?thesis using Cons by (simp split: session_outcome.splits)
  qed
qed simp

lemma serve_chunks:
  assumes "sv_streams s = [(i, st)]" "st_open st"
  shows "serve_session bind padding s (map FrameIn (map (mk_frame CMD_PSH i) cs)) =
    ([], Inr (s\<lparr> sv_streams := [(i, st\<lparr> st_queue := st_queue st @ cs \<rparr>)] \<rparr>))"
  using assms
proof (induction cs arbitrary: s st)
  case (Cons c cs)
  let ?st = "st\<lparr> st_queue := st_queue st @ [c] \<rparr>"
  have "serve_frame bind padding s (mk_frame CMD_PSH i c) = Next (s\<lparr> sv_streams := [(i, ?st)] \<rparr>) []"
    using Cons.prems by (simp add: serve_frame_def on_stream_data_def)
  then show ?case using Cons.IH [of "s\<lparr> sv_streams := [(i, ?st)] \<rparr>" ?st] Cons.prems(2) by simp
qed simp

lemma encode_target_length: "encode_target target = Inr t \<Longrightarrow> t \<noteq> [] \<and> length t \<le> 262"
  by (cases target) (auto split: ip_addr.splits if_splits simp: length_octets)

text \<open>A stream is opened with its first data; the rest of the initial payload is queued.\<close>

lemma serve_open:
  assumes "target_ok target" "encode_target target = Inr t" "\<not> is_magic_target (wire_target target)"
    "sv_streams s = []" "sv_pending s = []" "sv_pending_uot s = []" "sv_received_settings s"
  shows "\<exists>st. serve_session bind padding s (map FrameIn (mk_frame CMD_SYN i [] #
      map (mk_frame CMD_PSH i) (chunks MAX_FRAME_PAYLOAD_LEN (t @ initial)))) =
      ([], Inr (s\<lparr> sv_streams := [(i, st)] \<rparr>)) \<and>
    st_target st = wire_target target \<and> st_open st \<and> \<not> st_aborted st \<and> concat (st_queue st) = initial"
proof -
  let ?n = "MAX_FRAME_PAYLOAD_LEN - length t"
  let ?first = "t @ take ?n initial" and ?rest = "chunks MAX_FRAME_PAYLOAD_LEN (drop ?n initial)"
  have len: "t \<noteq> []" "length t \<le> 262" using encode_target_length [OF assms(2)] by auto
  then have ch: "chunks MAX_FRAME_PAYLOAD_LEN (t @ initial) = ?first # ?rest"
    by (simp add: chunks.simps [of _ "t @ initial"])
  let ?s1 = "s\<lparr> sv_pending := [i] \<rparr>"
  let ?st = "new_stream (wire_target target) (take ?n initial)"
  let ?s2 = "s\<lparr> sv_streams := [(i, ?st)] \<rparr>"
  have syn: "serve_frame bind padding s (mk_frame CMD_SYN i []) = Next ?s1 []"
    using assms(4-7) by (simp add: serve_frame_def on_syn_def List.insert_def)
  have "decode_target ?first = Inr (wire_target target, take ?n initial)"
    by (rule decode_encode_target [OF assms(1,2)])
  then have "serve_frame bind padding ?s1 (mk_frame CMD_PSH i ?first) =
      Next (s\<lparr> sv_streams := [(i, ?st)], sv_pending := [] \<rparr>) []"
    using assms(3-6) by (simp add: serve_frame_def on_first_data_def insert_opened_def open_stream_def Let_def)
  moreover have "s\<lparr> sv_streams := [(i, ?st)], sv_pending := [] \<rparr> = ?s2"
    by (rule server_session.equality) (simp_all add: assms(5))
  ultimately have first: "serve_frame bind padding ?s1 (mk_frame CMD_PSH i ?first) = Next ?s2 []" by metis
  have rest: "serve_session bind padding ?s2 (map FrameIn (map (mk_frame CMD_PSH i) ?rest)) =
      ([], Inr (s\<lparr> sv_streams := [(i, ?st\<lparr> st_queue := st_queue ?st @ ?rest \<rparr>)] \<rparr>))"
    using serve_chunks [of ?s2 i ?st bind padding ?rest] by (simp add: new_stream_def)
  have "concat (st_queue ?st) = take ?n initial" by (simp add: new_stream_def)
  then show ?thesis
    using syn first rest unfolding ch
    by (intro exI [of _ "?st\<lparr> st_queue := st_queue ?st @ ?rest \<rparr>"]) (simp add: concat_chunks, simp add: new_stream_def)
qed

lemma tcp_uplink_writes: "tcp_uplink (map (\<lambda>p. (p, Inr ())) ps) = (concat ps, None)"
  by (induction ps) simp_all

section \<open>The client reads what the server wrote\<close>

lemma read_session_frames_append:
  "read_session_frames describe md5hex rnds s p (fs @ gs) =
     (case read_session_frames describe md5hex rnds s p fs of
        (s', p') \<Rightarrow> read_session_frames describe md5hex (\<lambda>j. rnds (j + length fs)) s' p' gs)"
  by (induction describe md5hex rnds s p fs rule: read_session_frames.induct) (simp_all split: prod.splits add: add.assoc)

lemma read_data_frames:
  assumes "\<not> cs_abort s" "i \<in> set (cs_streams s)"
  shows "read_session_frames describe md5hex rnds s p (map (mk_frame CMD_PSH i) cs) =
    (s\<lparr> cs_events := (cs_events s)(i := cs_events s i @ map Payload cs) \<rparr>, p)"
  using assms
proof (induction cs arbitrary: s rnds)
  case (Cons c cs)
  let ?s = "s\<lparr> cs_events := (cs_events s)(i := cs_events s i @ [Payload c]) \<rparr>"
  have "read_session_frame describe md5hex (rnds 0) (Inr (mk_frame CMD_PSH i c)) s p = (?s, p)"
    using Cons.prems by (simp add: read_session_frame_def handle_session_frame_def send_stream_event_def)
  then show ?case using Cons.IH [of ?s] Cons.prems by (simp cong: if_cong)
qed simp

lemma relay_downlink_payloads:
  assumes "cs_events s i = map Payload ps @ Fin # evs"
  shows "\<exists>s'. relay_downlink s i None (replicate (length ps + 1) (Inr ())) = (s', concat ps, Some (Inr ()))"
  using assms
proof (induction ps arbitrary: s)
  case (Cons q ps)
  let ?s = "s\<lparr> cs_events := (cs_events s)(i := map Payload ps @ Fin # evs) \<rparr>"
  have "read_payload s i None = Some (?s, Inr (Some q))" using Cons.prems by (simp add: read_payload_def)
  moreover obtain s' where
    "relay_downlink ?s i None (replicate (length ps + 1) (Inr ())) = (s', concat ps, Some (Inr ()))"
    using Cons.IH [of ?s] by auto
  ultimately show ?case by simp
qed (simp add: read_payload_def)

text \<open>The downlink of the server over the data of the target and its end.\<close>

lemma tcp_downlink_frames:
  assumes "[] \<notin> set ds"
  shows "tcp_downlink i (map (\<lambda>d. (d, Inr ())) ds @ [([], r)]) =
    (map (mk_frame CMD_PSH i) (concat (map (chunks MAX_FRAME_PAYLOAD_LEN) ds)) @ [mk_frame CMD_FIN i []], Some (Inr ()))"
  using assms by (induction ds) (auto simp: payload_frames_def)

lemma concat_concat_chunks:
  "concat (concat (map (chunks MAX_FRAME_PAYLOAD_LEN) ds)) = concat ds"
  by (induction ds) (simp_all add: concat_chunks)

text \<open>The answer of the server to the settings: its scheme if the client has another, and its own
  settings.\<close>

definition settings_reply :: "padding_scheme \<Rightarrow> padding_scheme \<Rightarrow> frame list" where
  "settings_reply sp padding =
     (if ps_md5 padding = ps_md5 sp then [] else [mk_frame CMD_UPDATE_PADDING_SCHEME 0 (as_bytes (raw_text sp))])
     @ [mk_frame CMD_SERVER_SETTINGS 0 (as_bytes ''v=2'')]"

lemma serve_settings:
  assumes "list_all (\<lambda>c. c \<in> set ''0123456789abcdef'') (ps_md5 padding)"
    "length (raw_text sp) \<le> MAX_FRAME_PAYLOAD_LEN"
  shows "serve_session bind sp server_session_new
      [FrameIn (mk_frame CMD_SETTINGS 0 (as_bytes (settings_text padding)))] =
    (settings_reply sp padding, Inr (server_session_new\<lparr> sv_received_settings := True \<rparr>))"
  using assms by (simp add: serve_frame_def on_settings_def parse_settings_text settings_reply_def Let_def)

lemma read_settings_reply:
  assumes "\<not> cs_abort c" "from_text md5hex raw = Inr sp" "valid_str (raw_text sp)" "pw_padding (cs_writer c) = padding"
    "p = (if ps_md5 padding = ps_md5 sp then padding else sp)"
  shows "\<exists>w. read_session_frames describe md5hex rnds c padding (settings_reply sp padding) =
    (c\<lparr> cs_writer := w, cs_server_v2 := True \<rparr>, p) \<and> pw_padding w = p"
proof (cases "ps_md5 padding = ps_md5 sp")
  case True
  then show ?thesis
    using assms(1,4,5) by (intro exI [of _ "cs_writer c"])
      (simp add: settings_reply_def read_session_frame_def handle_session_frame_def)
next
  case False
  have "from_text md5hex (raw_text sp) = Inr sp" by (rule from_text_raw_text [OF assms(2)])
  then show ?thesis
    using assms(1,3,5) False by (intro exI [of _ "(cs_writer c)\<lparr> pw_padding := sp \<rparr>"])
      (simp add: settings_reply_def read_session_frame_def handle_session_frame_def from_utf8_as_bytes
        update_padding_scheme_def)
qed

lemma read_stream_frames:
  assumes "\<not> cs_abort c" "i \<in> set (cs_streams c)" "cs_events c i = []" "[] \<notin> set ds"
  shows "\<exists>c'. read_session_frames describe md5hex rnds c p
      (run_tcp_stream i (Inr ()) (map (\<lambda>d. (d, Inr ())) ds @ [([], r)])) = (c', p) \<and>
    cs_events c' i = SynAck [] # map Payload (concat (map (chunks MAX_FRAME_PAYLOAD_LEN) ds)) @ [Fin] \<and>
    cs_server_v2 c' = cs_server_v2 c \<and> cs_writer c' = cs_writer c"
proof -
  let ?cs = "concat (map (chunks MAX_FRAME_PAYLOAD_LEN) ds)"
  let ?c1 = "c\<lparr> cs_events := (cs_events c)(i := [SynAck []]) \<rparr>"
  have 1: "read_session_frame describe md5hex rnd (Inr (mk_frame CMD_SYNACK i [])) c p = (?c1, p)" for rnd
    using assms(1-3) by (simp add: read_session_frame_def handle_session_frame_def send_stream_event_def)
  let ?c2 = "?c1\<lparr> cs_events := (cs_events ?c1)(i := SynAck [] # map Payload ?cs) \<rparr>"
  have 2: "read_session_frames describe md5hex rnds' ?c1 p (map (mk_frame CMD_PSH i) ?cs) = (?c2, p)" for rnds'
    using read_data_frames [of ?c1 i] assms(1,2) by simp
  have 3: "read_session_frame describe md5hex rnd (Inr (mk_frame CMD_FIN i [])) ?c2 p =
      (unregister i (send_stream_event i Fin ?c2), p)" for rnd
    using assms(1) by (simp add: read_session_frame_def handle_session_frame_def)
  show ?thesis
    using 1 2 3 assms(2) unfolding run_tcp_stream_def tcp_downlink_frames [OF assms(4)]
    by (simp add: read_session_frames_append unregister_def send_stream_event_def)
qed

section \<open>Schemes\<close>

lemma from_text_md5: "from_text md5hex raw = Inr s \<Longrightarrow> \<exists>bs. ps_md5 s = md5hex bs"
  by (auto simp: from_text_def Let_def and_then_Inr_iff)

lemma default_scheme_text:
  "\<exists>s. from_text md5hex (join_nl default_lines) = Inr s \<and> wire_safe s \<and> raw_text s = join_nl default_lines"
proof -
  have "filter (\<lambda>l. l \<noteq> []) (map trim default_lines) = default_lines" by code_simp
  then have "from_text md5hex (join_nl default_lines) = from_lines md5hex default_lines"
    by (simp add: from_lines_def)
  then show ?thesis
    by (simp add: from_lines_plain [OF default_lines_plain] parse_default_lines wire_safe_def raw_text_def)
qed

lemma default_text_small:
  "valid_str (join_nl default_lines)" "length (join_nl default_lines) \<le> MAX_FRAME_PAYLOAD_LEN"
proof -
  have "list_all (\<lambda>c. (of_char c :: nat) < 0x80) (join_nl default_lines)" by code_simp
  then show "valid_str (join_nl default_lines)" by (simp add: valid_str_ascii list_all_iff)
  have "length (join_nl default_lines) < 200" by code_simp
  then show "length (join_nl default_lines) \<le> MAX_FRAME_PAYLOAD_LEN" by simp
qed

section \<open>The three parts of a stream's opening\<close>

text \<open>The frames that open stream 1 with its first bytes.\<close>

definition opening_frames :: "bytes \<Rightarrow> frame list" where
  "opening_frames first_payload =
     mk_frame CMD_SYN 1 [] # map (mk_frame CMD_PSH 1) (chunks MAX_FRAME_PAYLOAD_LEN first_payload)"

lemma client_writes:
  assumes "writer_progress inner" "wire_safe padding" "\<forall>j i. is_ok (rnds j i)"
    "length (settings_text padding) \<le> MAX_FRAME_PAYLOAD_LEN" "encode_target target = Inr t"
  shows "\<exists>c c1 preface rest fs. client_connect sha (Inr inner) rnds password padding = Inr c \<and>
    client_open_stream (rnds 2) (\<lambda>j. rnds (j + 3)) c target initial = (c1, Inr 1) \<and>
    write_auth_preface sha (rnds 0) (padded_frame_writer_new inner padding) password = Inr preface \<and>
    concat (cs_wire c1) = concat preface @ rest \<and> decode_n read_frame (length fs) rest = Inr (fs, []) \<and>
    filter (\<lambda>f. frame_cmd f \<noteq> CMD_WASTE) fs =
      mk_frame CMD_SETTINGS 0 (as_bytes (settings_text padding)) # opening_frames (t @ initial) \<and>
    \<not> cs_abort c1 \<and> cs_streams c1 = [1] \<and> cs_events c1 1 = [] \<and> pw_padding (cs_writer c1) = padding"
proof -
  from client_connect_ok [OF assms(1-4), of sha password] obtain w preface ws where
    c: "client_connect sha (Inr inner) rnds password padding = Inr (connected_session w (preface @ ws))"
      "write_auth_preface sha (rnds 0) (padded_frame_writer_new inner padding) password = Inr preface"
      "carries ws [mk_frame CMD_SETTINGS 0 (as_bytes (settings_text padding))]"
      "pw_inner w = inner" "pw_padding w = padding" by blast
  let ?c = "connected_session w (preface @ ws)"
  obtain c1 ws1 where c1: "client_open_stream (rnds 2) (\<lambda>j. rnds (j + 3)) ?c target initial = (c1, Inr 1)"
    "carries ws1 (opening_frames (t @ initial))" "cs_wire c1 = preface @ ws @ ws1" "\<not> cs_abort c1"
    "cs_streams c1 = [1]" "cs_events c1 1 = []" "pw_padding (cs_writer c1) = padding"
    using client_open_stream_ok [of ?c target t "rnds 2" "\<lambda>j. rnds (j + 3)" initial] assms c(4,5)
    by (auto simp: connected_session_def opening_frames_def)
  from carries_decode [OF carries_append [OF c(3) c1(2)], of "[]"] obtain fs where
    "decode_n read_frame (length fs) (concat (ws @ ws1)) = Inr (fs, [])"
    "filter (\<lambda>f. frame_cmd f \<noteq> CMD_WASTE) fs =
       mk_frame CMD_SETTINGS 0 (as_bytes (settings_text padding)) # opening_frames (t @ initial)"
    by auto
  moreover have "concat (cs_wire c1) = concat preface @ concat (ws @ ws1)" using c1(3) by simp
  ultimately show ?thesis using c(1,2) c1(1,4-7) by blast
qed

lemma server_opens:
  assumes "list_all (\<lambda>c. c \<in> set ''0123456789abcdef'') (ps_md5 padding)"
    "length (raw_text sp) \<le> MAX_FRAME_PAYLOAD_LEN"
    "target_ok target" "encode_target target = Inr t" "\<not> is_magic_target (wire_target target)"
    "filter (\<lambda>f. frame_cmd f \<noteq> CMD_WASTE) fs =
       mk_frame CMD_SETTINGS 0 (as_bytes (settings_text padding)) # opening_frames (t @ initial)"
  shows "\<exists>(sv :: server_session) st.
    serve_session bind sp server_session_new (map FrameIn fs) = (settings_reply sp padding, Inr sv) \<and>
    sv_streams sv = [(1, st)] \<and> sv_pending sv = [] \<and> sv_pending_uot sv = [] \<and>
    st_target st = wire_target target \<and>
    tcp_uplink (map (\<lambda>q. (q, Inr ())) (st_queue st)) = (initial, None)"
proof -
  let ?sv = "server_session_new\<lparr> sv_received_settings := True \<rparr>"
  from serve_open [OF assms(3-5), of ?sv bind sp 1 initial] obtain st where
    st: "serve_session bind sp ?sv (map FrameIn (opening_frames (t @ initial))) =
        ([], Inr (?sv\<lparr> sv_streams := [(1, st)] \<rparr>))"
      "st_target st = wire_target target" "concat (st_queue st) = initial"
    by (auto simp: server_session_new_def opening_frames_def)
  have "serve_session bind sp server_session_new (map FrameIn fs) =
      (settings_reply sp padding, Inr (?sv\<lparr> sv_streams := [(1, st)] \<rparr>))"
    using serve_session_append [of bind sp server_session_new "[FrameIn (mk_frame CMD_SETTINGS 0 (as_bytes (settings_text padding)))]"]
      serve_settings [OF assms(1,2)] st(1) serve_session_waste [of bind sp server_session_new fs] assms(6) by simp
  then show ?thesis
    using st(2,3) by (intro exI [of _ "?sv\<lparr> sv_streams := [(1, st)] \<rparr>"] exI [of _ st])
      (simp add: tcp_uplink_writes server_session_new_def)
qed

lemma client_receives:
  assumes "\<not> cs_abort c" "cs_streams c = [1]" "cs_events c 1 = []" "pw_padding (cs_writer c) = padding"
    "from_text md5hex raw = Inr sp" "valid_str (raw_text sp)" "[] \<notin> set ds"
    "p = (if ps_md5 padding = ps_md5 sp then padding else sp)"
  shows "\<exists>c2 c3 c4 n. read_session_frames describe md5hex rnds c padding
      (settings_reply sp padding @ run_tcp_stream 1 (Inr ()) (map (\<lambda>d. (d, Inr ())) ds @ [([], r)])) = (c2, p) \<and>
    pw_padding (cs_writer c2) = p \<and> poll_open c2 1 None = (c3, Opened None) \<and>
    relay_downlink c3 1 None (replicate n (Inr ())) = (c4, concat ds, Some (Inr ()))"
proof -
  obtain w where reply: "read_session_frames describe md5hex rnds c padding (settings_reply sp padding) =
      (c\<lparr> cs_writer := w, cs_server_v2 := True \<rparr>, p)" "pw_padding w = p"
    using read_settings_reply [OF assms(1,5,6,4,8)] by blast
  let ?ps = "concat (map (chunks MAX_FRAME_PAYLOAD_LEN) ds)"
  let ?c = "c\<lparr> cs_writer := w, cs_server_v2 := True \<rparr>"
  obtain c2 where c2: "read_session_frames describe md5hex rnds c padding
      (settings_reply sp padding @ run_tcp_stream 1 (Inr ()) (map (\<lambda>d. (d, Inr ())) ds @ [([], r)])) = (c2, p)"
    "cs_events c2 1 = SynAck [] # map Payload ?ps @ [Fin]" "pw_padding (cs_writer c2) = p"
    using read_stream_frames [of ?c 1 ds describe md5hex "\<lambda>j. rnds (j + length (settings_reply sp padding))" p r]
      assms(1-3,7) reply by (auto simp: read_session_frames_append)
  let ?c3 = "c2\<lparr> cs_events := (cs_events c2)(1 := map Payload ?ps @ [Fin]) \<rparr>"
  have poll: "poll_open c2 1 None = (?c3, Opened None)" using c2(2) by (simp add: poll_open_def)
  obtain c4 where "relay_downlink ?c3 1 None (replicate (length ?ps + 1) (Inr ())) = (c4, concat ds, Some (Inr ()))"
    using relay_downlink_payloads [of ?c3 1 ?ps "[]"] by (auto simp: concat_concat_chunks)
  with c2(1,3) poll show ?thesis by blast
qed

section \<open>A core with one user\<close>

lemma trim_u_a: "trim ''u'' = ''u''" "trim ''a'' = ''a''"
  by code_simp+

lemma one_user_core:
  obtains core session core' where
    "replace_users sha now [core_user_password ''u'' ''a''] core_empty = (Inr (), core)"
    "open_session_from (cu_id (core_user_password ''u'' ''a'')) peer core = (Inr session, core')"
    "session_user_id core' session = ''u''"
proof -
  let ?u = "core_user_password ''u'' ''a''"
  let ?us = "user_state_new ?u {''a''} now"
  obtain core where core: "replace_users sha now [?u] core_empty = (Inr (), core)"
    "core_users core = [(''u'', 0)]" "core_heap core = [?us]" "core_controls core = []" "core_session_seq core = 0"
    by (simp add: replace_users_def validate_user_def validated_init_def core_user_password_def
        Let_def trim_u_a build_user_def core_empty_def)
  obtain us ev where us: "open_session_locked (us_limits ?us) ?us 1 (Some (sa_ip peer)) 0 = Inr (us, ev)"
    by (simp add: open_session_locked_def check_session_limit_def check_ip_limit_def positive_limit_def Let_def
        user_state_new_def core_user_password_def limits_of_def)
  then have "us_id us = ''u''"
    using open_session_locked_Inr [OF us]
    by (simp add: update_online_counts_def user_state_new_def core_user_password_def)
  then show thesis
    using that [OF core(1)] core us
    by (simp add: open_session_from_def open_session_with_source_def open_session_at_def open_numbered_def Let_def
        session_user_id_def core_user_password_def)
qed

end
