(* ===== verification/VlessMux.thy ===== *)
theory VlessMux
  imports Protocol Uot Tables
begin

unbundle bit_operations_syntax

text \<open>
  The mux of VLESS (\<open>src/src/vless_mux.rs\<close>) and the packet format that UDP clients speak on it
  (\<open>src/src/vless_xudp.rs\<close>).

  \<^item> Frames: metadata with a session identifier, a status, options and, for a new session or a
    datagram, a destination; then the payload, if there is one.
  \<^item> The server: a table of sessions, each with the generation that its reader task carries. The
    two critical sections of \<open>handle_new\<close>, opening and inserting, are separate steps, because the
    task of the session runs from the moment it is opened. The second also does the traffic
    accounting and the first send, after which the table is not touched again; in the code the task
    of the session may end between the insertion and these.
  \<^item> Connecting, binding, name resolution, sending and traffic accounting are parameters.
\<close>

section \<open>Destinations\<close>

abbreviation (input) "STATUS_NEW \<equiv> 1 :: u8"
abbreviation (input) "STATUS_KEEP \<equiv> 2 :: u8"
abbreviation (input) "STATUS_END \<equiv> 3 :: u8"
abbreviation (input) "STATUS_KEEPALIVE \<equiv> 4 :: u8"
abbreviation (input) "OPTION_DATA \<equiv> 1 :: u8"
abbreviation (input) "OPTION_ERROR \<equiv> 2 :: u8"
abbreviation (input) "NETWORK_TCP \<equiv> 1 :: u8"
abbreviation (input) "NETWORK_UDP \<equiv> 2 :: u8"
abbreviation (input) "MAX_MUX_SESSIONS \<equiv> 256 :: nat"
abbreviation (input) "MAX_MUX_METADATA \<equiv> 4096 :: nat"
abbreviation (input) "MAX_MUX_PAYLOAD \<equiv> 16384 :: nat"

datatype target_network = MuxTcp | MuxUdp

record frame_target =
  ft_network :: target_network
  ft_destination :: proxy_target

record mux_frame =
  mf_session_id :: u16
  mf_status :: u8
  mf_has_data :: bool
  mf_has_error :: bool
  mf_target :: "frame_target option"
  mf_payload :: bytes

definition parse_destination :: "bytes \<Rightarrow> (proxy_target \<times> nat) result" where
  "parse_destination bs =
     (if \<not> length bs \<ge> 3 then Inl TooShort
      else let port = from_be_bytes [bs ! 0, bs ! 1] in
        if bs ! 2 = 1 then
          (if \<not> length bs \<ge> 7 then Inl TooShort
           else Inr (Ip (SocketV4 (v4_of (bs ! 3) (bs ! 4) (bs ! 5) (bs ! 6)) port), 7))
        else if bs ! 2 = 3 then
          (if \<not> length bs \<ge> 19 then Inl TooShort
           else Inr (Ip (SocketV6 (from_be_bytes (slice 3 19 bs)) port 0 0), 19))
        else if bs ! 2 = 2 then
          (if \<not> length bs \<ge> 4 then Inl TooShort
           else let len = unat (bs ! 3) in
             if \<not> length bs \<ge> 4 + len then Inl TooShort
             else and_then (from_utf8 (slice 4 (4 + len) bs)) (\<lambda>host. Inr (Domain host port, 4 + len)))
        else Inl BadAddressType)"

definition mux_parse_target :: "u8 \<Rightarrow> bytes \<Rightarrow> (frame_target \<times> nat) result" where
  "mux_parse_target network bs =
     and_then (if network = NETWORK_TCP then Inr MuxTcp
               else if network = NETWORK_UDP then Inr MuxUdp else Inl BadNetwork) (\<lambda>network.
     and_then (parse_destination bs) (\<lambda>(destination, consumed).
     Inr (\<lparr> ft_network = network, ft_destination = destination \<rparr>, consumed)))"

fun write_destination :: "bytes \<Rightarrow> proxy_target \<Rightarrow> bytes result" where
  "write_destination buffer (Ip addr) =
     (let buffer = buffer @ to_be_bytes 2 (sa_port addr) in
      case sa_ip addr of
        IpV4 ip \<Rightarrow> Inr (buffer @ [1] @ v4_octets ip)
      | IpV6 ip \<Rightarrow> Inr (buffer @ [3] @ v6_octets ip))"
| "write_destination buffer (Domain host port) =
     (let buffer = buffer @ to_be_bytes 2 port in
      if \<not> length host \<le> 255 then Inl TooLong
      else Inr (buffer @ [2] @ [of_nat (length host)] @ as_bytes host))"

section \<open>Frames\<close>

definition mux_encode_frame ::
  "u16 \<Rightarrow> u8 \<Rightarrow> frame_target option \<Rightarrow> bytes \<Rightarrow> bool \<Rightarrow> bytes result" where
  "mux_encode_frame session_id status target payload has_error =
     (if \<not> length payload \<le> 65535 then Inl TooLong
      else
        let option = (if payload \<noteq> [] then OPTION_DATA else 0) OR (if has_error then OPTION_ERROR else 0);
            metadata = to_be_bytes 2 session_id @ [status, option] in
        and_then
          (case target of
             None \<Rightarrow> Inr metadata
           | Some t \<Rightarrow>
               write_destination
                 (metadata @ [case ft_network t of MuxTcp \<Rightarrow> NETWORK_TCP | MuxUdp \<Rightarrow> NETWORK_UDP])
                 (ft_destination t)) (\<lambda>metadata.
        Inr (len_u16 (length metadata) @ metadata
             @ (if payload \<noteq> [] then len_u16 (length payload) @ payload else []))))"

text \<open>The length that opens a frame; the end of the stream, even inside it, is \<open>None\<close>.\<close>

definition read_length_or_eof :: "bytes \<Rightarrow> (u16 \<times> bytes) option" where
  "read_length_or_eof reader =
     (case read_exact 2 reader of Inl _ \<Rightarrow> None | Inr (bs, reader) \<Rightarrow> Some (from_be_bytes bs, reader))"

definition mux_frame_target :: "bytes \<Rightarrow> frame_target option result" where
  "mux_frame_target metadata =
     (let status = metadata ! 2 in
      if status = STATUS_NEW then
        (if \<not> length metadata \<ge> 5 then Inl TooShort
         else and_then (mux_parse_target (metadata ! 4) (drop 5 metadata)) (\<lambda>(target, consumed).
           if \<not> (length metadata = 5 + consumed \<or> ft_network target = MuxUdp) then Inl Trailing
           else Inr (Some target)))
      else if status = STATUS_KEEP \<and> length metadata > 4 then
        (if metadata ! 4 \<noteq> NETWORK_UDP then Inl BadNetwork
         else and_then (mux_parse_target (metadata ! 4) (drop 5 metadata)) (\<lambda>(target, _). Inr (Some target)))
      else Inr None)"

definition mux_read_frame :: "bytes \<Rightarrow> (mux_frame option \<times> bytes) result" where
  "mux_read_frame reader =
     (case read_length_or_eof reader of
        None \<Rightarrow> Inr (None, [])
      | Some (metadata_len, reader) \<Rightarrow>
          (if \<not> metadata_len \<ge> 4 then Inl TooShort
           else if \<not> unat metadata_len \<le> MAX_MUX_METADATA then Inl TooLong
           else
             and_then (read_exact (unat metadata_len) reader) (\<lambda>(metadata, reader).
             let session_id = from_be_bytes [metadata ! 0, metadata ! 1]; status = metadata ! 2;
                 has_data = (metadata ! 3 AND OPTION_DATA \<noteq> 0);
                 has_error = (metadata ! 3 AND OPTION_ERROR \<noteq> 0) in
             and_then (mux_frame_target metadata) (\<lambda>target.
             and_then
               (if has_data then
                  and_then (read_exact 2 reader) (\<lambda>(n, reader).
                  let payload_len = unat (from_be_bytes n :: u16) in
                  if \<not> payload_len \<le> MAX_MUX_PAYLOAD then Inl TooLong
                  else read_exact payload_len reader)
                else Inr ([], reader)) (\<lambda>(payload, reader).
             Inr (Some \<lparr> mf_session_id = session_id, mf_status = status, mf_has_data = has_data,
                         mf_has_error = has_error, mf_target = target, mf_payload = payload \<rparr>, reader))))))"

section \<open>Packets of a UDP client\<close>

abbreviation (input) "MUX_DESTINATION \<equiv> ''v1.mux.cool''"
abbreviation (input) "MUX_PORT \<equiv> 666 :: u16"

definition mux_target :: proxy_target where
  "mux_target = Domain MUX_DESTINATION MUX_PORT"

fun is_mux_target :: "proxy_target \<Rightarrow> bool" where
  "is_mux_target (Domain host port) \<longleftrightarrow> eq_ignore_ascii_case host MUX_DESTINATION \<and> port = MUX_PORT"
| "is_mux_target (Ip _) \<longleftrightarrow> False"

fun write_destination_xudp :: "bytes \<Rightarrow> proxy_target \<Rightarrow> bytes result" where
  "write_destination_xudp buffer (Ip addr) =
     (let buffer = buffer @ to_be_bytes 2 (sa_port addr) in
      case sa_ip addr of
        IpV4 ip \<Rightarrow> Inr (buffer @ [1] @ v4_octets ip)
      | IpV6 ip \<Rightarrow> Inr (buffer @ [3] @ v6_octets ip))"
| "write_destination_xudp buffer (Domain host port) =
     (let buffer = buffer @ to_be_bytes 2 port in
      if \<not> length host \<le> 255 then Inl TooLong
      else Inr (buffer @ [2] @ [of_nat (length host)] @ as_bytes host))"

definition parse_destination_xudp :: "bytes \<Rightarrow> (proxy_target \<times> nat) result" where
  "parse_destination_xudp bs =
     (if \<not> length bs \<ge> 3 then Inl TooShort
      else let port = from_be_bytes [bs ! 0, bs ! 1] in
        if bs ! 2 = 1 then
          (if \<not> length bs \<ge> 7 then Inl TooShort
           else Inr (Ip (SocketV4 (v4_of (bs ! 3) (bs ! 4) (bs ! 5) (bs ! 6)) port), 7))
        else if bs ! 2 = 3 then
          (if \<not> length bs \<ge> 19 then Inl TooShort
           else Inr (Ip (SocketV6 (from_be_bytes (slice 3 19 bs)) port 0 0), 19))
        else if bs ! 2 = 2 then
          (if \<not> length bs \<ge> 4 then Inl TooShort
           else let len = unat (bs ! 3) in
             if \<not> length bs \<ge> 4 + len then Inl TooShort
             else and_then (from_utf8 (slice 4 (4 + len) bs)) (\<lambda>host. Inr (Domain host port, 4 + len)))
        else Inl BadAddressType)"

definition encode_packet_parts :: "bytes \<Rightarrow> bytes \<Rightarrow> bytes result" where
  "encode_packet_parts metadata payload =
     (if \<not> length metadata \<le> 65535 then Inl TooLong
      else if \<not> length payload \<le> 65535 then Inl TooLong
      else Inr (len_u16 (length metadata) @ metadata @ len_u16 (length payload) @ payload))"

definition encode_client_packet :: "proxy_target \<Rightarrow> bytes \<Rightarrow> bool \<Rightarrow> bytes \<Rightarrow> bytes result" where
  "encode_client_packet destination payload is_new global_id =
     and_then (write_destination_xudp [0, 0, if is_new then STATUS_NEW else STATUS_KEEP, 1, NETWORK_UDP] destination)
       (\<lambda>metadata. encode_packet_parts (if is_new then metadata @ global_id else metadata) payload)"

definition encode_response_packet :: "proxy_target \<Rightarrow> bytes \<Rightarrow> bytes result" where
  "encode_response_packet source payload =
     (if \<not> length payload \<le> 65535 then Inl TooLong
      else and_then (write_destination_xudp [0, 0, STATUS_KEEP, 1, NETWORK_UDP] source)
        (\<lambda>metadata. encode_packet_parts metadata payload))"

text \<open>The packet, if the session goes on, and the destination remembered for the next one.\<close>

definition decode_packet_parts ::
  "bytes \<Rightarrow> bytes \<Rightarrow> proxy_target option \<Rightarrow> ((proxy_target \<times> bytes) option \<times> proxy_target option) result" where
  "decode_packet_parts metadata payload current =
     (let status = metadata ! 2 in
      if status = STATUS_END then Inr (None, current)
      else if \<not> (status = STATUS_NEW \<or> status = STATUS_KEEP) then Inl BadStatus
      else if length metadata > 4 then
        (if metadata ! 4 \<noteq> NETWORK_UDP then Inl BadNetwork
         else and_then (parse_destination_xudp (drop 5 metadata)) (\<lambda>(destination, consumed).
           let trailing = length metadata - 5 - consumed in
           if (if status = STATUS_NEW then trailing \<noteq> 8 else trailing \<noteq> 0) then Inl Trailing
           else Inr (Some (destination, payload), Some destination)))
      else and_then (ok_or current Missing) (\<lambda>destination. Inr (Some (destination, payload), current)))"

definition xudp_read_packet ::
  "bytes \<Rightarrow> proxy_target option \<Rightarrow>
     ((proxy_target \<times> bytes) option \<times> proxy_target option \<times> bytes) result" where
  "xudp_read_packet reader current =
     (case read_length_or_eof reader of
        None \<Rightarrow> Inr (None, current, [])
      | Some (metadata_len, reader) \<Rightarrow>
          (if \<not> metadata_len \<ge> 4 then Inl TooShort
           else
             and_then (read_exact (unat metadata_len) reader) (\<lambda>(metadata, reader).
             and_then (read_exact 2 reader) (\<lambda>(n, reader).
             and_then (read_exact (unat (from_be_bytes n :: u16)) reader) (\<lambda>(payload, reader).
             and_then (decode_packet_parts metadata payload current) (\<lambda>(packet, current).
             Inr (packet, current, reader)))))))"

definition read_response_packet :: "bytes \<Rightarrow> ((proxy_target \<times> bytes) option \<times> bytes) result" where
  "read_response_packet reader =
     and_then (xudp_read_packet reader None) (\<lambda>(packet, _, reader). Inr (packet, reader))"

definition decode_packet_chunk ::
  "bytes \<Rightarrow> proxy_target option \<Rightarrow> ((proxy_target \<times> bytes) option \<times> proxy_target option) result" where
  "decode_packet_chunk chunk current =
     (if \<not> length chunk \<ge> 4 then Inl TooShort
      else let metadata_len = unat (from_be_bytes [chunk ! 0, chunk ! 1] :: u16) in
        if \<not> metadata_len \<ge> 4 then Inl TooShort
        else let payload_len_offset = 2 + metadata_len in
          if \<not> length chunk \<ge> payload_len_offset + 2 then Inl TooShort
          else
            let payload_len = unat (from_be_bytes [chunk ! payload_len_offset, chunk ! (payload_len_offset + 1)] :: u16);
                payload_offset = payload_len_offset + 2 in
            if length chunk \<noteq> payload_offset + payload_len then Inl Trailing
            else decode_packet_parts (slice 2 payload_len_offset chunk) (drop payload_offset chunk) current)"

section \<open>The server\<close>

datatype session_kind =
    TcpSession bytes
  | UdpSession proxy_target "(string \<times> socket_addr) list" "(socket_addr \<times> bytes) list"

record mux_entry =
  me_generation :: u64
  me_kind :: session_kind

record mux_server =
  ms_sessions :: "(u16 \<times> mux_entry) list"
  ms_next_generation :: u64
  ms_wire :: "bytes list"

definition insert_session :: "u16 \<Rightarrow> mux_entry \<Rightarrow> mux_server \<Rightarrow> mux_server result" where
  "insert_session session_id entry s =
     (if \<not> (length (ms_sessions s) < MAX_MUX_SESSIONS \<or> session_id \<in> fst ` set (ms_sessions s))
      then Inl LimitExceeded
      else Inr (s\<lparr> ms_sessions := AList.update session_id entry (ms_sessions s) \<rparr>))"

definition shutdown_session :: "u16 \<Rightarrow> mux_server \<Rightarrow> mux_server" where
  "shutdown_session session_id s = s\<lparr> ms_sessions := AList.delete session_id (ms_sessions s) \<rparr>"

definition take_session_if_generation_matches ::
  "u16 \<Rightarrow> u64 \<Rightarrow> mux_server \<Rightarrow> mux_entry option \<times> mux_server" where
  "take_session_if_generation_matches session_id generation s =
     (case map_of (ms_sessions s) session_id of
        None \<Rightarrow> (None, s)
      | Some current \<Rightarrow>
          (if me_generation current \<noteq> generation then (None, s)
           else (Some current, shutdown_session session_id s)))"

definition write_end_frame :: "unit result \<Rightarrow> u16 \<Rightarrow> bool \<Rightarrow> mux_server \<Rightarrow> mux_server result" where
  "write_end_frame written session_id has_error s =
     and_then (mux_encode_frame session_id STATUS_END None [] has_error) (\<lambda>bs.
     and_then written (\<lambda>_. Inr (s\<lparr> ms_wire := ms_wire s @ [bs] \<rparr>)))"

definition write_data_frame ::
  "unit result \<Rightarrow> u16 \<Rightarrow> frame_target option \<Rightarrow> bytes \<Rightarrow> mux_server \<Rightarrow> mux_server result" where
  "write_data_frame written session_id target payload s =
     and_then (mux_encode_frame session_id STATUS_KEEP target payload False) (\<lambda>bs.
     and_then written (\<lambda>_. Inr (s\<lparr> ms_wire := ms_wire s @ [bs] \<rparr>)))"

text \<open>The answer of the resolver is kept for the life of the session.\<close>

fun target_socket_addr_cached ::
  "(proxy_target \<Rightarrow> socket_addr result) \<Rightarrow> proxy_target \<Rightarrow> (string \<times> socket_addr) list \<Rightarrow>
     (socket_addr \<times> (string \<times> socket_addr) list) result" where
  "target_socket_addr_cached resolve (Ip addr) cache = Inr (addr, cache)"
| "target_socket_addr_cached resolve (Domain host port) cache =
     (let key = host @ '':'' @ show_dec (unat port) in
      case map_of cache key of
        Some addr \<Rightarrow> Inr (addr, cache)
      | None \<Rightarrow>
          and_then (resolve (Domain host port)) (\<lambda>addr. Inr (addr, AList.update key addr cache)))"

fun send_frame_to_session ::
  "(proxy_target \<Rightarrow> socket_addr result) \<Rightarrow> unit result \<Rightarrow> session_kind \<Rightarrow> frame_target option \<Rightarrow> bytes \<Rightarrow>
     session_kind result" where
  "send_frame_to_session resolve sent (TcpSession written) override payload =
     (if override \<noteq> None then Inl Unsupported
      else and_then sent (\<lambda>_. Inr (TcpSession (written @ payload))))"
| "send_frame_to_session resolve sent (UdpSession default_destination cache out) override payload =
     and_then
       (case override of
          Some target \<Rightarrow> (if ft_network target \<noteq> MuxUdp then Inl BadNetwork else Inr (ft_destination target))
        | None \<Rightarrow> Inr default_destination) (\<lambda>destination.
     and_then (target_socket_addr_cached resolve destination cache) (\<lambda>(addr, cache).
     and_then sent (\<lambda>_. Inr (UdpSession default_destination cache (out @ [(addr, payload)])))))"

text \<open>\<open>handle_new\<close> up to the insertion: the session of the same number goes, the new one is
  opened and its task starts.\<close>

definition open_session_entry ::
  "(frame_target \<Rightarrow> unit result) \<Rightarrow> mux_frame \<Rightarrow> mux_server \<Rightarrow> mux_server \<times> mux_entry result" where
  "open_session_entry dial f s =
     (case mf_target f of
        None \<Rightarrow> (s, Inl Missing)
      | Some target \<Rightarrow>
          (let s = shutdown_session (mf_session_id f) s; generation = ms_next_generation s;
               s = s\<lparr> ms_next_generation := generation + 1 \<rparr> in
           (s, and_then (dial target) (\<lambda>_.
               Inr \<lparr> me_generation = generation,
                     me_kind = (case ft_network target of
                        MuxTcp \<Rightarrow> TcpSession []
                      | MuxUdp \<Rightarrow> UdpSession (ft_destination target) [] []) \<rparr>))))"

definition handle_new ::
  "(proxy_target \<Rightarrow> socket_addr result) \<Rightarrow> unit result \<Rightarrow> (nat \<Rightarrow> unit result) \<Rightarrow> mux_frame \<Rightarrow> mux_entry \<Rightarrow>
     mux_server \<Rightarrow> mux_server result" where
  "handle_new resolve sent record_upload f entry s =
     and_then (insert_session (mf_session_id f) entry s) (\<lambda>s.
     if mf_has_data f then
       and_then (record_upload (length (mf_payload f))) (\<lambda>_.
       and_then (send_frame_to_session resolve sent (me_kind entry) None (mf_payload f)) (\<lambda>kind.
       Inr (s\<lparr> ms_sessions :=
              AList.update (mf_session_id f) (entry\<lparr> me_kind := kind \<rparr>) (ms_sessions s) \<rparr>)))
     else Inr s)"

definition handle_keep ::
  "(proxy_target \<Rightarrow> socket_addr result) \<Rightarrow> unit result \<Rightarrow> (nat \<Rightarrow> unit result) \<Rightarrow> unit result \<Rightarrow> mux_frame \<Rightarrow>
     mux_server \<Rightarrow> mux_server result" where
  "handle_keep resolve sent record_upload written f s =
     (if \<not> mf_has_data f then Inr s
      else case map_of (ms_sessions s) (mf_session_id f) of
        None \<Rightarrow> write_end_frame written (mf_session_id f) False s
      | Some entry \<Rightarrow>
          and_then (record_upload (length (mf_payload f))) (\<lambda>_.
          case send_frame_to_session resolve sent (me_kind entry) (mf_target f) (mf_payload f) of
            Inr kind \<Rightarrow>
              Inr (s\<lparr> ms_sessions :=
                     AList.update (mf_session_id f) (entry\<lparr> me_kind := kind \<rparr>) (ms_sessions s) \<rparr>)
          | Inl _ \<Rightarrow>
              (let s = shutdown_session (mf_session_id f) s in
               case write_end_frame written (mf_session_id f) True s of Inl _ \<Rightarrow> Inr s | Inr s \<Rightarrow> Inr s)))"

text \<open>The end of the task of a session, after its relay returned.\<close>

definition session_task_ended :: "unit result \<Rightarrow> u16 \<Rightarrow> u64 \<Rightarrow> bool \<Rightarrow> mux_server \<Rightarrow> mux_server" where
  "session_task_ended written session_id generation has_error s =
     (case take_session_if_generation_matches session_id generation s of
        (None, s) \<Rightarrow> s
      | (Some _, s) \<Rightarrow>
          (case write_end_frame written session_id has_error s of Inl _ \<Rightarrow> s | Inr s \<Rightarrow> s))"

definition mux_server_new :: "u64 \<Rightarrow> mux_server" where
  "mux_server_new generation = \<lparr> ms_sessions = [], ms_next_generation = generation, ms_wire = [] \<rparr>"

text \<open>
  The connection: \<open>relay_frames\<close> takes the frames in turn (the second component is the session it
  is opening), while the tasks of the sessions relay and end. A step that fails ends the
  connection and all its sessions.
\<close>

inductive mux_step ::
  "mux_server \<times> (mux_frame \<times> mux_entry) option \<Rightarrow> mux_server \<times> (mux_frame \<times> mux_entry) option \<Rightarrow> bool" where
  mux_open:
    "mf_status f = STATUS_NEW \<Longrightarrow> open_session_entry dial f s = (s', Inr entry) \<Longrightarrow>
     mux_step (s, None) (s', Some (f, entry))"
| mux_insert:
    "handle_new resolve sent record_upload f entry s = Inr s' \<Longrightarrow>
     mux_step (s, Some (f, entry)) (s', None)"
| mux_keep:
    "mf_status f = STATUS_KEEP \<Longrightarrow> handle_keep resolve sent record_upload written f s = Inr s' \<Longrightarrow>
     mux_step (s, None) (s', None)"
| mux_end:
    "mf_status (f :: mux_frame) = STATUS_END \<Longrightarrow> mux_step (s, None) (shutdown_session (mf_session_id f) s, None)"
| mux_data:
    "write_data_frame written session_id target payload s = Inr s' \<Longrightarrow> mux_step (s, pend) (s', pend)"
| mux_task_ended:
    "mux_step (s, pend) (session_task_ended written session_id generation has_error s, pend)"
| mux_generation:
    "mux_step (s, pend) (s\<lparr> ms_next_generation := generation \<rparr>, pend)"

section \<open>The client\<close>

text \<open>\<open>relay_single_tcp_client_counted\<close>: what it writes over the reads of the local side, and what
  it passes on of the frames it reads, each with the outcome of its accounting.\<close>

fun local_to_mux :: "(bytes \<times> unit result) list \<Rightarrow> bytes list \<times> unit result option" where
  "local_to_mux [] = ([], None)"
| "local_to_mux ((data, recorded) # reads) =
     (if data = [] then
        (case mux_encode_frame 1 STATUS_END None [] False of
           Inl e \<Rightarrow> ([], Some (Inl e)) | Inr bs \<Rightarrow> ([bs], Some (Inr ())))
      else case and_then recorded (\<lambda>_. mux_encode_frame 1 STATUS_KEEP None data False) of
        Inl e \<Rightarrow> ([], Some (Inl e))
      | Inr bs \<Rightarrow> (case local_to_mux reads of (out, r) \<Rightarrow> (bs # out, r)))"

fun mux_to_local :: "(mux_frame \<times> unit result) list \<Rightarrow> bytes \<times> unit result option" where
  "mux_to_local [] = ([], None)"
| "mux_to_local ((f, recorded) # fs) =
     (if mf_session_id f \<noteq> 1 then mux_to_local fs
      else if mf_status f = STATUS_END then
        ([], Some (if mf_has_error f then Inl Rejected else Inr ()))
      else if mf_has_data f then
        (case recorded of
           Inl e \<Rightarrow> ([], Some (Inl e))
         | Inr _ \<Rightarrow> (case mux_to_local fs of (out, r) \<Rightarrow> (mf_payload f @ out, r)))
      else mux_to_local fs)"

definition mux_client_opening :: "proxy_target \<Rightarrow> bytes result" where
  "mux_client_opening target =
     mux_encode_frame 1 STATUS_NEW (Some \<lparr> ft_network = MuxTcp, ft_destination = target \<rparr>) [] False"

section \<open>Lemmas: destinations\<close>

lemma xudp_destination [simp]:
  "write_destination_xudp = write_destination" "parse_destination_xudp = parse_destination"
proof (intro ext)
  show "write_destination_xudp b t = write_destination b t" for b t by (cases t) simp_all
qed (simp add: parse_destination_xudp_def [abs_def] parse_destination_def [abs_def])

fun mux_wire_target :: "proxy_target \<Rightarrow> proxy_target" where
  "mux_wire_target (Ip addr) = Ip (socket_addr_new (sa_ip addr) (sa_port addr))"
| "mux_wire_target (Domain host port) = Domain host port"

lemma write_destination_append:
  "write_destination b t = and_then (write_destination [] t) (\<lambda>d. Inr (b @ d))"
  by (cases t) (auto simp: Let_def split: ip_addr.splits)

lemma write_destination_length: "write_destination [] t = Inr d \<Longrightarrow> length d \<le> 259 \<and> 3 \<le> length d"
  by (cases t) (auto simp: Let_def split: ip_addr.splits if_splits)

lemma parse_write_destination:
  assumes "target_ok t" "write_destination [] t = Inr d"
  shows "parse_destination (d @ tail) = Inr (mux_wire_target t, length d)"
proof (cases t)
  case (Ip addr)
  obtain e f where p: "to_be_bytes 2 (sa_port addr) = [e, f]" "from_be_bytes [e, f] = sa_port addr"
    by (rule be_u16_cases)
  show ?thesis
  proof (cases "sa_ip addr")
    case (IpV4 ip)
    obtain a b c g where o: "v4_octets ip = [a, b, c, g]" by (rule v4_octets_cases)
    show ?thesis using assms Ip IpV4 p by (auto simp: parse_destination_def o v4_of_octets [OF o] Let_def)
  next
    case (IpV6 ip)
    have "slice 3 19 (e # f # 3 # v6_octets ip @ tail) = v6_octets ip" by (simp add: slice_def)
    then show ?thesis using assms Ip IpV6 p by (auto simp: parse_destination_def Let_def)
  qed
next
  case (Domain host port)
  obtain e f where p: "to_be_bytes 2 port = [e, f]" "from_be_bytes [e, f] = port" by (rule be_u16_cases)
  have "slice 4 (4 + length host) (e # f # 2 # of_nat (length host) # as_bytes host @ tail) = as_bytes host"
    by (simp add: slice_def)
  then show ?thesis using assms Domain p by (auto simp: parse_destination_def Let_def split: if_splits)
qed

section \<open>Lemmas: frames\<close>

definition mux_metadata :: "u16 \<Rightarrow> u8 \<Rightarrow> frame_target option \<Rightarrow> bool \<Rightarrow> bool \<Rightarrow> bytes \<Rightarrow> bytes" where
  "mux_metadata session_id status target has_data has_error d =
     to_be_bytes 2 session_id @
     [status, (if has_data then OPTION_DATA else 0) OR (if has_error then OPTION_ERROR else 0)] @
     (case target of None \<Rightarrow> []
      | Some t \<Rightarrow> (case ft_network t of MuxTcp \<Rightarrow> NETWORK_TCP | MuxUdp \<Rightarrow> NETWORK_UDP) # d)"

definition destination_bytes :: "frame_target option \<Rightarrow> bytes \<Rightarrow> bool" where
  "destination_bytes target d \<longleftrightarrow>
     (case target of None \<Rightarrow> d = [] | Some t \<Rightarrow> write_destination [] (ft_destination t) = Inr d)"

lemma mux_encode_frame_iff:
  "mux_encode_frame session_id status target payload has_error = Inr bs \<longleftrightarrow>
     length payload \<le> 65535 \<and>
     (\<exists>d. destination_bytes target d \<and>
        (let m = mux_metadata session_id status target (payload \<noteq> []) has_error d in
         bs = len_u16 (length m) @ m @ (if payload \<noteq> [] then len_u16 (length payload) @ payload else [])))"
  unfolding mux_encode_frame_def mux_metadata_def destination_bytes_def
  by (cases target)
     (auto simp: Let_def and_then_Inr_iff write_destination_append [of "_ @ _"] write_destination_append [of "_ # _"]
       cong: if_cong)

lemma read_length_len:
  "n \<le> 65535 \<Longrightarrow> read_length_or_eof (len_u16 n @ rest) = Some (of_nat n, rest)"
  by (simp add: read_length_or_eof_def)

lemma of_nat_ge_4: "4 \<le> n \<Longrightarrow> n \<le> 65535 \<Longrightarrow> (4 :: u16) \<le> of_nat n"
  by (simp add: word_le_nat_alt unat_of_nat_u16)

lemma mux_read_metadata:
  assumes "4 \<le> length m" "length m \<le> MAX_MUX_METADATA"
  shows "mux_read_frame (len_u16 (length m) @ m @ rest) =
    and_then (mux_frame_target m) (\<lambda>target.
    and_then
      (if m ! 3 AND OPTION_DATA \<noteq> 0 then
         and_then (read_exact 2 rest) (\<lambda>(n, reader).
         let payload_len = unat (from_be_bytes n :: u16) in
         if \<not> payload_len \<le> MAX_MUX_PAYLOAD then Inl TooLong else read_exact payload_len reader)
       else Inr ([], rest)) (\<lambda>(payload, reader).
    Inr (Some \<lparr> mf_session_id = from_be_bytes [m ! 0, m ! 1], mf_status = m ! 2,
                mf_has_data = (m ! 3 AND OPTION_DATA \<noteq> 0), mf_has_error = (m ! 3 AND OPTION_ERROR \<noteq> 0),
                mf_target = target, mf_payload = payload \<rparr>, reader)))"
proof -
  have n: "length m \<le> 65535" using assms by simp
  have "unat (of_nat (length m) :: u16) = length m" by (rule unat_of_nat_u16 [OF n])
  then show ?thesis
    using assms of_nat_ge_4 [OF assms(1) n] read_length_len [OF n, of "m @ rest"]
    by (simp add: mux_read_frame_def Let_def)
qed

lemma mux_metadata_sel:
  "take 2 (mux_metadata i st t hp hr d) = to_be_bytes 2 i"
  "from_be_bytes [mux_metadata i st t hp hr d ! 0, mux_metadata i st t hp hr d ! 1] = i"
  "mux_metadata i st t hp hr d ! 2 = st"
  "(mux_metadata i st t hp hr d ! 3) AND OPTION_DATA \<noteq> 0 \<longleftrightarrow> hp"
  "(mux_metadata i st t hp hr d ! 3) AND OPTION_ERROR \<noteq> 0 \<longleftrightarrow> hr"
  "length (mux_metadata i st t hp hr d) = (case t of None \<Rightarrow> 4 | Some _ \<Rightarrow> 5 + length d)"
proof -
  obtain e f where "to_be_bytes 2 i = [e, f]" "from_be_bytes [e, f] = i" by (rule be_u16_cases)
  then show "take 2 (mux_metadata i st t hp hr d) = to_be_bytes 2 i"
    "from_be_bytes [mux_metadata i st t hp hr d ! 0, mux_metadata i st t hp hr d ! 1] = i"
    "mux_metadata i st t hp hr d ! 2 = st"
    "(mux_metadata i st t hp hr d ! 3) AND OPTION_DATA \<noteq> 0 \<longleftrightarrow> hp"
    "(mux_metadata i st t hp hr d ! 3) AND OPTION_ERROR \<noteq> 0 \<longleftrightarrow> hr"
    "length (mux_metadata i st t hp hr d) = (case t of None \<Rightarrow> 4 | Some _ \<Rightarrow> 5 + length d)"
    by (simp_all add: mux_metadata_def split: option.splits)
qed

definition wire_frame_target :: "frame_target \<Rightarrow> frame_target" where
  "wire_frame_target t = \<lparr> ft_network = ft_network t, ft_destination = mux_wire_target (ft_destination t) \<rparr>"

text \<open>Which targets a frame may have, and what may follow a target in the metadata.\<close>

fun mux_target_ok :: "u8 \<Rightarrow> bytes \<Rightarrow> frame_target option \<Rightarrow> bool" where
  "mux_target_ok status tail None \<longleftrightarrow> status \<noteq> STATUS_NEW \<and> tail = []"
| "mux_target_ok status tail (Some t) \<longleftrightarrow>
     target_ok (ft_destination t) \<and>
     (status = STATUS_NEW \<and> (tail = [] \<or> ft_network t = MuxUdp) \<or>
      status = STATUS_KEEP \<and> ft_network t = MuxUdp)"

lemma mux_frame_target_metadata:
  assumes "mux_target_ok st tail t" "destination_bytes t d"
  shows "mux_frame_target (mux_metadata i st t hp hr d @ tail) = Inr (map_option wire_frame_target t)"
proof (cases t)
  case None
  then show ?thesis
    using assms by (simp add: mux_frame_target_def mux_metadata_def nth_append Let_def)
next
  case (Some u)
  let ?n = "case ft_network u of MuxTcp \<Rightarrow> NETWORK_TCP | MuxUdp \<Rightarrow> NETWORK_UDP"
  obtain e f where p: "to_be_bytes 2 i = [e, f]" by (rule be_u16_cases)
  have "parse_destination (d @ tail) = Inr (mux_wire_target (ft_destination u), length d)"
    using assms Some parse_write_destination [of "ft_destination u" d tail] by (simp add: destination_bytes_def)
  then have "mux_parse_target ?n (d @ tail) = Inr (wire_frame_target u, length d)"
    by (cases "ft_network u") (simp_all add: mux_parse_target_def wire_frame_target_def)
  moreover have "ft_network (wire_frame_target u) = ft_network u" by (simp add: wire_frame_target_def)
  ultimately show ?thesis
    using assms(1) Some p
    by (cases "ft_network u") (auto simp: mux_frame_target_def mux_metadata_def Let_def)
qed

type_synonym mux_message = "u16 \<times> u8 \<times> frame_target option \<times> bytes \<times> bool"

fun put_mux_frame :: "mux_message \<Rightarrow> bytes result" where
  "put_mux_frame (i, st, t, payload, hr) = mux_encode_frame i st t payload hr"

fun mux_message_ok :: "mux_message \<Rightarrow> bool" where
  "mux_message_ok (i, st, t, payload, hr) \<longleftrightarrow> mux_target_ok st [] t \<and> length payload \<le> MAX_MUX_PAYLOAD"

fun mux_received :: "mux_message \<Rightarrow> mux_frame option" where
  "mux_received (i, st, t, payload, hr) =
     Some \<lparr> mf_session_id = i, mf_status = st, mf_has_data = (payload \<noteq> []), mf_has_error = hr,
            mf_target = map_option wire_frame_target t, mf_payload = payload \<rparr>"

lemma mux_metadata_bounds:
  assumes "destination_bytes t d"
  shows "4 \<le> length (mux_metadata i st t hp hr d)" "length (mux_metadata i st t hp hr d) \<le> 264"
  using assms write_destination_length
  by (auto simp: mux_metadata_sel(6) destination_bytes_def split: option.splits)

lemma mux_read_encode:
  assumes "mux_message_ok x" "put_mux_frame x = Inr bs"
  shows "mux_read_frame (bs @ rest) = Inr (mux_received x, rest)"
proof -
  obtain i st t payload hr where x: "x = (i, st, t, payload, hr)" by (cases x)
  obtain d where d: "destination_bytes t d" and bs:
    "bs = len_u16 (length (mux_metadata i st t (payload \<noteq> []) hr d)) @ mux_metadata i st t (payload \<noteq> []) hr d
       @ (if payload \<noteq> [] then len_u16 (length payload) @ payload else [])"
    using assms(2) x by (auto simp: mux_encode_frame_iff Let_def)
  let ?m = "mux_metadata i st t (payload \<noteq> []) hr d"
  have "mux_frame_target ?m = Inr (map_option wire_frame_target t)"
    using mux_frame_target_metadata [of st "[]" t d] assms(1) d x by simp
  moreover have "unat (of_nat (length payload) :: u16) = length payload"
    using assms(1) x by (intro unat_of_nat_u16) simp
  moreover have "4 \<le> length ?m" "length ?m \<le> MAX_MUX_METADATA"
    using mux_metadata_bounds [OF d, of i st "payload \<noteq> []" hr] by simp_all
  note read = mux_read_metadata [OF this, of "(if payload \<noteq> [] then len_u16 (length payload) @ payload else []) @ rest"]
  ultimately show ?thesis
    unfolding bs x append_assoc read using assms(1) x by (simp add: mux_metadata_sel(1-5) Let_def del: One_nat_def)
qed

interpretation mux_frames: wire_codec put_mux_frame mux_read_frame mux_message_ok mux_received
  by unfold_locales (rule mux_read_encode)

section \<open>Lemmas: packets\<close>

abbreviation udp_target :: "proxy_target \<Rightarrow> frame_target" where
  "udp_target d \<equiv> \<lparr> ft_network = MuxUdp, ft_destination = d \<rparr>"

lemma xudp_metadata:
  "write_destination [0, 0, st, 1, NETWORK_UDP] t = Inr m \<longleftrightarrow>
     (\<exists>d. write_destination [] t = Inr d \<and> m = mux_metadata 0 st (Some (udp_target t)) True False d)"
proof -
  have "to_be_bytes 2 (0 :: u16) = [0, 0]" by code_simp
  then show ?thesis
    by (subst write_destination_append) (auto simp: and_then_Inr_iff mux_metadata_def)
qed

lemma xudp_read_parts:
  assumes "4 \<le> length m" "length m \<le> 65535" "length payload \<le> 65535"
  shows "xudp_read_packet (len_u16 (length m) @ m @ len_u16 (length payload) @ payload @ rest) current =
    and_then (decode_packet_parts m payload current) (\<lambda>(packet, current). Inr (packet, current, rest))"
proof -
  have "unat (of_nat (length m) :: u16) = length m" "unat (of_nat (length payload) :: u16) = length payload"
    using assms by (simp_all add: unat_of_nat_u16)
  then show ?thesis
    using of_nat_ge_4 [OF assms(1,2)]
    by (simp add: xudp_read_packet_def read_length_len [OF assms(2)] Let_def)
qed

lemma decode_udp_metadata:
  assumes "target_ok t" "write_destination [] t = Inr d"
  shows "decode_packet_parts (mux_metadata i STATUS_KEEP (Some (udp_target t)) hp hr d) payload current =
    Inr (Some (mux_wire_target t, payload), Some (mux_wire_target t))"
proof -
  obtain e f where p: "to_be_bytes 2 i = [e, f]" by (rule be_u16_cases)
  show ?thesis
    using parse_write_destination [OF assms, of "[]"]
    by (simp add: decode_packet_parts_def mux_metadata_def p Let_def)
qed

text \<open>What the server reads when the client sends metadata with data.\<close>

lemma mux_read_client_packet:
  assumes "mux_target_ok st tail (Some (udp_target t))" "write_destination [] t = Inr d"
    "length tail \<le> 8" "length payload \<le> 65535"
  shows "mux_read_frame (len_u16 (length (mux_metadata 0 st (Some (udp_target t)) True False d @ tail)) @
      (mux_metadata 0 st (Some (udp_target t)) True False d @ tail) @ len_u16 (length payload) @ payload @ rest) =
    (if length payload \<le> MAX_MUX_PAYLOAD
     then Inr (Some \<lparr> mf_session_id = 0, mf_status = st, mf_has_data = True, mf_has_error = False,
                      mf_target = Some (udp_target (mux_wire_target t)), mf_payload = payload \<rparr>, rest)
     else Inl TooLong)"
proof -
  let ?m = "mux_metadata 0 st (Some (udp_target t)) True False d"
  have d: "destination_bytes (Some (udp_target t)) d" using assms(2) by (simp add: destination_bytes_def)
  have len: "4 \<le> length ?m" "length ?m \<le> 264" by (rule mux_metadata_bounds [OF d])+
  have sel: "(?m @ tail) ! k = ?m ! k" if "k < 4" for k using that len(1) by (simp add: nth_append)
  have "4 \<le> length (?m @ tail)" "length (?m @ tail) \<le> MAX_MUX_METADATA" using len assms(3) by simp_all
  note read = mux_read_metadata [OF this, of "len_u16 (length payload) @ payload @ rest"]
  have "mux_frame_target (?m @ tail) = Inr (Some (udp_target (mux_wire_target t)))"
    using mux_frame_target_metadata [OF assms(1) d] by (simp add: wire_frame_target_def)
  moreover have "unat (of_nat (length payload) :: u16) = length payload"
    using assms(4) by (simp add: unat_of_nat_u16)
  ultimately show ?thesis
    unfolding read by (simp add: sel mux_metadata_sel(1-5) Let_def del: One_nat_def)
qed

section \<open>Lemmas: the table of sessions\<close>

text \<open>The table is within its limit; while a session is being opened, a slot of its number is
  free.\<close>

definition mux_table_ok :: "mux_server \<Rightarrow> bool" where
  "mux_table_ok s \<longleftrightarrow> length (ms_sessions s) \<le> MAX_MUX_SESSIONS \<and> distinct (map fst (ms_sessions s))"

fun mux_ok :: "mux_server \<times> (mux_frame \<times> mux_entry) option \<Rightarrow> bool" where
  "mux_ok (s, None) \<longleftrightarrow> mux_table_ok s"
| "mux_ok (s, Some (f, entry)) \<longleftrightarrow> mux_table_ok s \<and> mf_session_id f \<notin> fst ` set (ms_sessions s)"

lemma mux_table_insert:
  assumes "mux_table_ok s" "insert_session i e s = Inr s'"
  shows "mux_table_ok s'"
proof -
  have "s' = s\<lparr> ms_sessions := AList.update i e (ms_sessions s) \<rparr>"
    "length (ms_sessions s) < MAX_MUX_SESSIONS \<or> i \<in> fst ` set (ms_sessions s)"
    using assms(2) by (simp_all add: insert_session_def split: if_splits)
  then show ?thesis
    using assms(1) length_update [of i e "ms_sessions s"]
    by (cases "i \<in> fst ` set (ms_sessions s)") (simp_all add: mux_table_ok_def distinct_update)
qed

lemma mux_table_replace:
  "mux_table_ok s \<Longrightarrow> i \<in> fst ` set (ms_sessions s) \<Longrightarrow>
     mux_table_ok (s\<lparr> ms_sessions := AList.update i e (ms_sessions s) \<rparr>)"
  by (simp add: mux_table_ok_def length_update distinct_update)

lemma mux_table_shutdown: "mux_table_ok s \<Longrightarrow> mux_table_ok (shutdown_session i s)"
  using length_delete_le [of i "ms_sessions s"]
  by (simp add: mux_table_ok_def shutdown_session_def distinct_delete)

lemma write_frames_sessions:
  "write_end_frame written i hr s = Inr s' \<Longrightarrow> ms_sessions s' = ms_sessions s"
  "write_data_frame written i t payload s = Inr s' \<Longrightarrow> ms_sessions s' = ms_sessions s"
  by (auto simp: write_end_frame_def write_data_frame_def and_then_Inr_iff)

lemma mux_table_same: "ms_sessions s' = ms_sessions s \<Longrightarrow> mux_table_ok s' = mux_table_ok s"
  by (simp add: mux_table_ok_def)

lemma session_task_ended_sessions:
  "ms_sessions (session_task_ended written i generation hr s) = ms_sessions s \<or>
   ms_sessions (session_task_ended written i generation hr s) = ms_sessions (shutdown_session i s)"
  unfolding session_task_ended_def take_session_if_generation_matches_def
  by (auto split: option.splits sum.splits dest: write_frames_sessions)

lemma handle_new_table:
  assumes "mux_table_ok s" "handle_new resolve sent rec f entry s = Inr s'"
  shows "mux_table_ok s'"
proof -
  obtain s1 where s1: "insert_session (mf_session_id f) entry s = Inr s1"
    using assms(2) by (auto simp: handle_new_def and_then_Inr_iff)
  have ok: "mux_table_ok s1" by (rule mux_table_insert [OF assms(1) s1])
  have "mf_session_id f \<in> fst ` set (ms_sessions s1)"
    using s1 by (auto simp: insert_session_def dom_update split: if_splits)
  then show ?thesis
    using assms(2) s1 ok mux_table_replace [OF ok]
    by (auto simp: handle_new_def and_then_Inr_iff split: if_splits)
qed

lemma handle_keep_table:
  assumes "mux_table_ok s" "handle_keep resolve sent rec written f s = Inr s'"
  shows "mux_table_ok s'"
proof (cases "map_of (ms_sessions s) (mf_session_id f)")
  case None
  then have "s' = s \<or> write_end_frame written (mf_session_id f) False s = Inr s'"
    using assms(2) by (auto simp: handle_keep_def split: if_splits)
  then show ?thesis using assms(1) mux_table_same [OF write_frames_sessions(1)] by blast
next
  case (Some entry)
  then have "mf_session_id f \<in> fst ` set (ms_sessions s)" by (force dest: map_of_SomeD)
  note replace = mux_table_replace [OF assms(1) this]
  note gone = mux_table_shutdown [OF assms(1), of "mf_session_id f"]
  let ?s = "shutdown_session (mf_session_id f) s"
  show ?thesis
  proof (cases "mf_has_data f")
    case True
    then obtain u where u: "rec (length (mf_payload f)) = Inr u"
      using assms(2) Some by (auto simp: handle_keep_def and_then_Inr_iff)
    show ?thesis
    proof (cases "send_frame_to_session resolve sent (me_kind entry) (mf_target f) (mf_payload f)")
      case (Inr kind)
      then have "s' = s\<lparr> ms_sessions :=
          AList.update (mf_session_id f) (entry\<lparr> me_kind := kind \<rparr>) (ms_sessions s) \<rparr>"
        using assms(2) Some True u by (simp add: handle_keep_def)
      then show ?thesis using replace by blast
    next
      case (Inl e)
      then have "s' = ?s \<or> write_end_frame written (mf_session_id f) True ?s = Inr s'"
        using assms(2) Some True u by (simp add: handle_keep_def Let_def split: sum.splits)
      then show ?thesis using gone mux_table_same [OF write_frames_sessions(1)] by blast
    qed
  qed (use assms in \<open>simp add: handle_keep_def\<close>)
qed

lemma mux_ok_table: "mux_ok (s, pend) \<Longrightarrow> mux_table_ok s"
  by (cases pend) auto

lemma mux_ok_same: "ms_sessions s' = ms_sessions s \<Longrightarrow> mux_ok (s', pend) = mux_ok (s, pend)"
  by (cases pend) (auto simp: mux_table_ok_def)

lemma mux_step_ok:
  assumes "mux_ok w" "mux_step w w'"
  shows "mux_ok w'"
  using assms(2)
proof cases
  case (mux_open f dial s s' entry)
  then have "ms_sessions s' = ms_sessions (shutdown_session (mf_session_id f) s)"
    by (auto simp: open_session_entry_def Let_def shutdown_session_def split: option.splits)
  moreover have "mux_ok (shutdown_session (mf_session_id f) s, Some (f, entry))"
    using mux_open(1) assms(1) mux_table_shutdown [of s "mf_session_id f"] by (simp add: shutdown_session_def keys_delete)
  ultimately show ?thesis unfolding mux_open(2) using mux_ok_same by blast
next
  case (mux_task_ended s pend written i generation hr)
  let ?s = "session_task_ended written i generation hr s"
  have ok: "mux_ok (s, pend)" using assms(1) mux_task_ended by simp
  then have "mux_ok (shutdown_session i s, pend)"
    using mux_table_shutdown [OF mux_ok_table [OF ok], of i]
    by (cases pend) (auto simp: shutdown_session_def keys_delete)
  then show ?thesis
    unfolding mux_task_ended(2)
    using ok session_task_ended_sessions [of written i generation hr s] mux_ok_same by blast
next
  case (mux_data written i t payload s s' pend)
  then show ?thesis using assms(1) mux_ok_same [OF write_frames_sessions(2)] by blast
next
  case (mux_insert resolve sent rec f entry s s')
  then show ?thesis using assms(1) handle_new_table [OF _ mux_insert(3)] by simp
next
  case (mux_keep f resolve sent rec written s s')
  then show ?thesis using assms(1) handle_keep_table [OF _ mux_keep(4)] by simp
next
  case (mux_end f s)
  then show ?thesis using assms(1) mux_table_shutdown by simp
next
  case (mux_generation s pend generation)
  then show ?thesis using assms(1) mux_ok_same [of "s\<lparr> ms_next_generation := generation \<rparr>" s pend] by simp
qed

interpretation mux_connection: step_invariant "\<lambda>w. \<exists>g. w = (mux_server_new g, None)" mux_step mux_ok
  by unfold_locales (auto simp: mux_server_new_def mux_table_ok_def intro: mux_step_ok)

section \<open>Properties\<close>

lemma mux_encode_total:
  assumes "length payload \<le> MAX_MUX_PAYLOAD"
    "case t of None \<Rightarrow> True | Some u \<Rightarrow> (case ft_destination u of Domain host _ \<Rightarrow> length host \<le> 255 | Ip _ \<Rightarrow> True)"
  shows "\<exists>bs. mux_encode_frame i st t payload hr = Inr bs"
proof -
  have "\<exists>d. destination_bytes t d"
    using assms(2) by (auto simp: destination_bytes_def Let_def split: option.splits proxy_target.splits ip_addr.splits)
  then show ?thesis using assms(1) by (auto simp: mux_encode_frame_iff Let_def)
qed

text \<open>C35: the mux survives its own wire. Every sequence of frames within the limits of the reader
  (targets on new sessions and on datagrams only, domain names of at most 255 bytes, payloads of
  at most 16 KiB) is encoded, and a reader obtains exactly these frames, one after the other,
  and is left behind the last one.\<close>

theorem mux_stream_roundtrip:
  assumes "list_all mux_message_ok xs"
    "list_all (\<lambda>(i, st, t, payload, hr). case t of None \<Rightarrow> True
       | Some u \<Rightarrow> (case ft_destination u of Domain host _ \<Rightarrow> length host \<le> 255 | Ip _ \<Rightarrow> True)) xs"
  shows "\<exists>bs. encode_all put_mux_frame xs = Inr bs \<and>
    decode_n mux_read_frame (length xs) (bs @ rest) = Inr (map mux_received xs, rest)"
proof -
  have "\<exists>bs. encode_all put_mux_frame xs = Inr bs"
    using assms
  proof (induction xs)
    case (Cons x xs)
    obtain i st t payload hr where x: "x = (i, st, t, payload, hr)" by (cases x)
    obtain b where "put_mux_frame x = Inr b"
      using mux_encode_total [of payload t i st hr] Cons.prems x by auto
    then show ?case using Cons by auto
  qed simp
  then show ?thesis using mux_frames.decode_encode_all [OF assms(1)] by blast
qed

theorem mux_stream_roundtrip_witness:
  "\<exists>bs. encode_all put_mux_frame
      [(1, STATUS_NEW, Some \<lparr> ft_network = MuxTcp, ft_destination = Domain ''a.b'' 443 \<rparr>, [], False),
       (1, STATUS_KEEP, None, [7, 8], False), (1, STATUS_END, None, [], True)] = Inr bs \<and>
    decode_n mux_read_frame 3 (bs @ [9]) = Inr (
      [Some \<lparr> mf_session_id = 1, mf_status = STATUS_NEW, mf_has_data = False, mf_has_error = False,
              mf_target = Some \<lparr> ft_network = MuxTcp, ft_destination = Domain ''a.b'' 443 \<rparr>, mf_payload = [] \<rparr>,
       Some \<lparr> mf_session_id = 1, mf_status = STATUS_KEEP, mf_has_data = True, mf_has_error = False,
              mf_target = None, mf_payload = [7, 8] \<rparr>,
       Some \<lparr> mf_session_id = 1, mf_status = STATUS_END, mf_has_data = False, mf_has_error = True,
              mf_target = None, mf_payload = [] \<rparr>], [9])"
proof -
  have "valid_str ''a.b''" by code_simp
  then show ?thesis
    using mux_stream_roundtrip [of
      "[(1, STATUS_NEW, Some \<lparr> ft_network = MuxTcp, ft_destination = Domain ''a.b'' 443 \<rparr>, [], False),
        (1, STATUS_KEEP, None, [7, 8], False), (1, STATUS_END, None, [], True)]" "[9]"]
    by (simp add: wire_frame_target_def numeral_3_eq_3)
qed

text \<open>C36: the UDP client and the mux server understand each other. What the client sends for a
  datagram of at most 16 KiB, opening the session or continuing it, the server reads as a frame
  of session 0 with that destination and payload; a larger datagram, which the client's encoder
  accepts, is an error that ends the connection. What the server sends for a datagram that is
  not empty, the client reads as a packet from that source.\<close>

theorem mux_xudp_interoperate:
  assumes "target_ok d" "length global_id = 8"
    "encode_client_packet d payload is_new global_id = Inr bs"
    "mux_encode_frame i STATUS_KEEP (Some (udp_target d)) reply False = Inr cs" "reply \<noteq> []"
  shows "mux_read_frame (bs @ rest) =
      (if length payload \<le> MAX_MUX_PAYLOAD
       then Inr (Some \<lparr> mf_session_id = 0, mf_status = (if is_new then STATUS_NEW else STATUS_KEEP),
                        mf_has_data = True, mf_has_error = False,
                        mf_target = Some (udp_target (mux_wire_target d)), mf_payload = payload \<rparr>, rest)
       else Inl TooLong) \<and>
    read_response_packet (cs @ rest) = Inr (Some (mux_wire_target d, reply), rest)"
proof -
  let ?st = "if is_new then STATUS_NEW else STATUS_KEEP" and ?tail = "if is_new then global_id else []"
  obtain db where db: "write_destination [] d = Inr db" and pl: "length payload \<le> 65535" and
    bs: "bs = len_u16 (length (mux_metadata 0 ?st (Some (udp_target d)) True False db @ ?tail)) @
      (mux_metadata 0 ?st (Some (udp_target d)) True False db @ ?tail) @ len_u16 (length payload) @ payload"
    using assms(3)
    by (cases is_new) (auto simp: encode_client_packet_def encode_packet_parts_def and_then_Inr_iff xudp_metadata split: if_splits)
  have "mux_target_ok ?st ?tail (Some (udp_target d))" "length ?tail \<le> 8" using assms(1,2) by simp_all
  note request = mux_read_client_packet [OF this(1) db this(2) pl, of rest]
  obtain db' where db': "destination_bytes (Some (udp_target d)) db'" and rl: "length reply \<le> 65535" and
    cs: "cs = len_u16 (length (mux_metadata i STATUS_KEEP (Some (udp_target d)) True False db')) @
      mux_metadata i STATUS_KEEP (Some (udp_target d)) True False db' @ len_u16 (length reply) @ reply"
    using assms(4,5) by (auto simp: mux_encode_frame_iff Let_def)
  let ?m = "mux_metadata i STATUS_KEEP (Some (udp_target d)) True False db'"
  have "4 \<le> length ?m" "length ?m \<le> 65535" using mux_metadata_bounds [OF db', of i STATUS_KEEP True False] by simp_all
  from xudp_read_parts [OF this rl, of rest None]
  have "read_response_packet (cs @ rest) = Inr (Some (mux_wire_target d, reply), rest)"
    using decode_udp_metadata [OF assms(1), of db'] db' unfolding cs
    by (simp add: read_response_packet_def destination_bytes_def)
  then show ?thesis using request unfolding bs by (simp del: length_append)
qed

theorem mux_xudp_interoperate_witness:
  "\<exists>bs cs. encode_client_packet (Ip (SocketV4 0x08080808 53)) [1, 2] True [0, 0, 0, 0, 0, 0, 0, 5] = Inr bs \<and>
     mux_read_frame (bs @ []) =
       Inr (Some \<lparr> mf_session_id = 0, mf_status = STATUS_NEW, mf_has_data = True, mf_has_error = False,
                   mf_target = Some (udp_target (Ip (SocketV4 0x08080808 53))), mf_payload = [1, 2] \<rparr>, []) \<and>
     mux_encode_frame 0 STATUS_KEEP (Some (udp_target (Ip (SocketV4 0x08080808 53)))) [3] False = Inr cs \<and>
     read_response_packet (cs @ []) = Inr (Some (Ip (SocketV4 0x08080808 53), [3]), [])"
proof -
  let ?d = "Ip (SocketV4 0x08080808 53)" and ?g = "[0, 0, 0, 0, 0, 0, 0, 5] :: bytes"
  obtain bs where bs: "encode_client_packet ?d [1, 2] True ?g = Inr bs"
    by (simp add: encode_client_packet_def encode_packet_parts_def Let_def)
  obtain cs where cs: "mux_encode_frame 0 STATUS_KEEP (Some (udp_target ?d)) [3] False = Inr cs"
    using mux_encode_total [of "[3]" "Some (udp_target ?d)" 0 STATUS_KEEP False] by auto
  show ?thesis using mux_xudp_interoperate [OF _ _ bs cs, of "[]"] bs cs by simp
qed

text \<open>C38: an empty datagram breaks the session of a UDP client. The server encodes it without a
  length, the client always reads one: it takes the length of the next frame's metadata for the
  length of the payload, delivers these metadata as the datagram, and is then in the middle of
  that frame.\<close>

theorem mux_empty_datagram_desynchronises:
  assumes "target_ok d" "mux_encode_frame i STATUS_KEEP (Some (udp_target d)) [] False = Inr bs"
    "mux_encode_frame j STATUS_KEEP (Some (udp_target e)) payload False = Inr cs" "payload \<noteq> []"
  shows "\<exists>m. cs = len_u16 (length m) @ m @ len_u16 (length payload) @ payload \<and> m \<noteq> [] \<and>
    read_response_packet (bs @ cs) = Inr (Some (mux_wire_target d, m), len_u16 (length payload) @ payload)"
proof -
  obtain db where db: "destination_bytes (Some (udp_target d)) db" and
    bs: "bs = len_u16 (length (mux_metadata i STATUS_KEEP (Some (udp_target d)) False False db)) @
      mux_metadata i STATUS_KEEP (Some (udp_target d)) False False db"
    using assms(2) by (auto simp: mux_encode_frame_iff Let_def)
  obtain eb where eb: "destination_bytes (Some (udp_target e)) eb" and
    cs: "cs = len_u16 (length (mux_metadata j STATUS_KEEP (Some (udp_target e)) True False eb)) @
      mux_metadata j STATUS_KEEP (Some (udp_target e)) True False eb @ len_u16 (length payload) @ payload"
    using assms(3,4) by (auto simp: mux_encode_frame_iff Let_def)
  let ?n = "mux_metadata i STATUS_KEEP (Some (udp_target d)) False False db"
  let ?m = "mux_metadata j STATUS_KEEP (Some (udp_target e)) True False eb"
  have n: "4 \<le> length ?n" "length ?n \<le> 65535" and m: "4 \<le> length ?m" "length ?m \<le> 65535"
    using mux_metadata_bounds [OF db, of i STATUS_KEEP False False] mux_metadata_bounds [OF eb, of j STATUS_KEEP True False]
    by simp_all
  have "read_response_packet (bs @ cs) = Inr (Some (mux_wire_target d, ?m), len_u16 (length payload) @ payload)"
    using xudp_read_parts [OF n m(2), of "len_u16 (length payload) @ payload" None]
      decode_udp_metadata [OF assms(1), of db] db unfolding bs cs
    by (simp add: read_response_packet_def destination_bytes_def)
  moreover have "?m \<noteq> []" using m by auto
  ultimately show ?thesis using cs by blast
qed

theorem mux_empty_datagram_desynchronises_witness:
  "\<exists>bs cs m. mux_encode_frame 0 STATUS_KEEP (Some (udp_target (Ip (SocketV4 1 53)))) [] False = Inr bs \<and>
     mux_encode_frame 0 STATUS_KEEP (Some (udp_target (Ip (SocketV4 1 53)))) [7] False = Inr cs \<and>
     m \<noteq> [] \<and> read_response_packet (bs @ cs) = Inr (Some (Ip (SocketV4 1 53), m), [0, 1, 7])"
proof -
  let ?d = "Ip (SocketV4 1 53)"
  obtain bs where bs: "mux_encode_frame 0 STATUS_KEEP (Some (udp_target ?d)) [] False = Inr bs"
    using mux_encode_total [of "[]" "Some (udp_target ?d)" 0 STATUS_KEEP False] by auto
  obtain cs where cs: "mux_encode_frame 0 STATUS_KEEP (Some (udp_target ?d)) [7] False = Inr cs"
    using mux_encode_total [of "[7]" "Some (udp_target ?d)" 0 STATUS_KEEP False] by auto
  have l: "len_u16 (length [7 :: u8]) = [0, 1]" by code_simp
  show ?thesis using mux_empty_datagram_desynchronises [OF _ bs cs] bs cs unfolding l by auto
qed

text \<open>C37: the sessions of a mux connection are bounded. In every state a connection can reach,
  whatever frames come and whenever tasks end, the table holds at most 256 sessions with
  distinct numbers, and a session that is being opened has replaced the one of its number.\<close>

theorem mux_sessions_bounded:
  assumes "reachable (\<lambda>w. \<exists>g. w = (mux_server_new g, None)) mux_step (s, pend)"
  shows "length (ms_sessions s) \<le> MAX_MUX_SESSIONS \<and> distinct (map fst (ms_sessions s)) \<and>
    (case pend of None \<Rightarrow> True | Some (f, entry) \<Rightarrow> map_of (ms_sessions s) (mf_session_id f) = None)"
proof -
  have "mux_ok (s, pend)" by (rule mux_connection.reachable_inv [OF assms])
  then show ?thesis by (cases pend) (force simp: mux_table_ok_def map_of_eq_None_iff)+
qed

theorem mux_sessions_bounded_witness:
  "\<exists>s :: mux_server. map_of (ms_sessions s) 3 = Some \<lparr> me_generation = 1, me_kind = TcpSession [] \<rparr> \<and>
     length (ms_sessions s) \<le> MAX_MUX_SESSIONS"
proof -
  let ?f = "\<lparr> mf_session_id = 3, mf_status = STATUS_NEW, mf_has_data = False, mf_has_error = False,
    mf_target = Some \<lparr> ft_network = MuxTcp, ft_destination = Ip (SocketV4 1 80) \<rparr>, mf_payload = [] \<rparr>"
  let ?e = "\<lparr> me_generation = 1, me_kind = TcpSession [] \<rparr>"
  let ?s1 = "(mux_server_new 1)\<lparr> ms_next_generation := 2 \<rparr>"
  let ?s2 = "?s1\<lparr> ms_sessions := [(3, ?e)] \<rparr>"
  have 1: "mux_step (mux_server_new 1, None) (?s1, Some (?f, ?e))"
    by (rule mux_open [of _ "\<lambda>_. Inr ()"])
       (simp_all add: open_session_entry_def shutdown_session_def mux_server_new_def Let_def)
  have 2: "mux_step (?s1, Some (?f, ?e)) (?s2, None)"
    by (rule mux_insert [of "\<lambda>_. Inl NotFound" "Inr ()" "\<lambda>_. Inr ()"])
       (simp add: handle_new_def insert_session_def mux_server_new_def)
  have "reachable (\<lambda>w. \<exists>g. w = (mux_server_new g, None)) mux_step (mux_server_new 1, None)"
    by (rule reachable_init) blast
  from mux_sessions_bounded [OF reachable_step [OF reachable_step [OF this 1] 2]] show ?thesis
    by (intro exI [of _ ?s2]) simp
qed

end
