(* ===== verification/Vless.thy ===== *)
theory Vless
  imports VlessMux
begin

unbundle bit_operations_syntax

text \<open>
  Requests of VLESS (\<open>src/src/vless.rs\<close>): the header with its addons, a protocol-buffers message
  that names the flow, the address, the response header, UDP frames, and how the server decides
  on a request.

  \<^item> \<open>usize\<close> is 64 bits wide. \<open>overflow_checks\<close> says whether the build checks arithmetic: with the
    checks an overflowing addition panics, without them it wraps.
  \<^item> The hexadecimal decoder behind \<open>parse_uuid\<close> is a parameter, as in \<open>Protocol\<close>.
\<close>

section \<open>Addons\<close>

abbreviation (input) "VLESS_VERSION \<equiv> 0 :: u8"
abbreviation (input) "CMD_TCP \<equiv> 1 :: u8"
abbreviation (input) "CMD_UDP \<equiv> 2 :: u8"
abbreviation (input) "CMD_MUX \<equiv> 3 :: u8"
abbreviation (input) "FLOW_XTLS_RPRX_VISION \<equiv> ''xtls-rprx-vision''"

definition is_vision_flow :: "string \<Rightarrow> bool" where
  "is_vision_flow flow \<longleftrightarrow> eq_ignore_ascii_case (trim flow) FLOW_XTLS_RPRX_VISION"

definition encode_addons :: "string \<Rightarrow> bytes result" where
  "encode_addons flow =
     (if trim flow = [] then Inr []
      else if \<not> is_vision_flow flow then Inl Unsupported
      else
        let flow = as_bytes (trim flow) in
        if \<not> length flow \<le> 255 then Inl TooLong
        else
          let addons = [0x0A] @ [of_nat (length flow)] @ flow in
          if \<not> length addons \<le> 255 then Inl TooLong else Inr addons)"

function read_varint_loop :: "bytes \<Rightarrow> nat \<Rightarrow> nat \<Rightarrow> u64 \<Rightarrow> (u64 \<times> nat) result" where
  "read_varint_loop bs cursor shift value =
     (if \<not> cursor < length bs then Inl TooShort
      else
        let byte = bs ! cursor; cursor = cursor + 1;
            value = value OR push_bit shift (ucast (byte AND 0x7F)) in
        if byte AND 0x80 = 0 then Inr (value, cursor)
        else let shift = shift + 7 in
          if \<not> shift < 64 then Inl TooLong else read_varint_loop bs cursor shift value)"
  by auto
termination
  by (relation "measure (\<lambda>(bs, cursor, _). length bs - cursor)") auto

definition read_varint :: "bytes \<Rightarrow> nat \<Rightarrow> (u64 \<times> nat) result" where
  "read_varint bs cursor = read_varint_loop bs cursor 0 0"

definition add_usize :: "bool \<Rightarrow> nat \<Rightarrow> nat \<Rightarrow> nat result" where
  "add_usize overflow_checks a b =
     (if overflow_checks \<and> \<not> a + b < 2 ^ 64 then Inl Panic else Inr ((a + b) mod 2 ^ 64))"

text \<open>Slicing panics unless the range is ordered and ends within the slice.\<close>

definition slice_range :: "nat \<Rightarrow> nat \<Rightarrow> bytes \<Rightarrow> bytes result" where
  "slice_range a b bs = (if \<not> (a \<le> b \<and> b \<le> length bs) then Inl Panic else Inr (slice a b bs))"

definition read_length_delimited :: "bool \<Rightarrow> bytes \<Rightarrow> nat \<Rightarrow> (bytes \<times> nat) result" where
  "read_length_delimited overflow_checks bs cursor =
     and_then (read_varint bs cursor) (\<lambda>(len, cursor).
     and_then (add_usize overflow_checks cursor (unat len)) (\<lambda>sum.
     if \<not> sum \<le> length bs then Inl TooShort
     else
       let start = cursor in
       and_then (add_usize overflow_checks cursor (unat len)) (\<lambda>cursor.
       and_then (add_usize overflow_checks start (unat len)) (\<lambda>stop.
       and_then (slice_range start stop bs) (\<lambda>value. Inr (value, cursor))))))"

lemma read_varint_loop_progress:
  "read_varint_loop bs cursor shift value = Inr (v, cursor') \<Longrightarrow> cursor < cursor' \<and> cursor' \<le> length bs"
proof (induction bs cursor shift "value" rule: read_varint_loop.induct)
  case (1 bs cursor shift acc)
  from "1.prems" show ?case
    by (subst (asm) read_varint_loop.simps)
       (auto simp: Let_def split: if_splits dest!: "1.IH" [OF _ refl refl refl _ refl])
qed

lemma read_varint_progress: "read_varint bs cursor = Inr (v, cursor') \<Longrightarrow> cursor < cursor' \<and> cursor' \<le> length bs"
  unfolding read_varint_def by (rule read_varint_loop_progress)

lemma read_length_delimited_progress:
  "read_length_delimited oc bs cursor = Inr (v, cursor') \<Longrightarrow> cursor < cursor' \<and> cursor' \<le> length bs"
  by (auto simp: read_length_delimited_def and_then_Inr_iff add_usize_def slice_range_def Let_def
      split: if_splits dest!: read_varint_progress)

function decode_flow_loop :: "bool \<Rightarrow> bytes \<Rightarrow> nat \<Rightarrow> string \<Rightarrow> string result" where
  "decode_flow_loop oc addons cursor flow =
     (if \<not> cursor < length addons then Inr flow
      else case read_varint addons cursor of
        Inl e \<Rightarrow> Inl e
      | Inr (key, cursor) \<Rightarrow>
          (let field_number = drop_bit 3 key; wire_type = key AND 7 in
           if field_number = 1 \<and> wire_type = 2 then
             (case read_length_delimited oc addons cursor of
                Inl e \<Rightarrow> Inl e
              | Inr (value, cursor) \<Rightarrow>
                  (case from_utf8 value of
                     Inl e \<Rightarrow> Inl e
                   | Inr flow \<Rightarrow> decode_flow_loop oc addons cursor flow))
           else if wire_type = 0 then
             (case read_varint addons cursor of
                Inl e \<Rightarrow> Inl e
              | Inr (_, cursor) \<Rightarrow> decode_flow_loop oc addons cursor flow)
           else if wire_type = 2 then
             (case read_length_delimited oc addons cursor of
                Inl e \<Rightarrow> Inl e
              | Inr (_, cursor) \<Rightarrow> decode_flow_loop oc addons cursor flow)
           else Inl Unsupported))"
  by pat_completeness auto
termination
  by (relation "measure (\<lambda>(oc, addons, cursor, flow). length addons - cursor)")
     (auto dest!: read_varint_progress read_length_delimited_progress)

definition decode_flow_addon :: "bool \<Rightarrow> bytes \<Rightarrow> string result" where
  "decode_flow_addon overflow_checks addons = decode_flow_loop overflow_checks addons 0 []"

section \<open>Requests\<close>

record vless_request =
  vr_user :: bytes
  vr_command :: u8
  vr_target :: proxy_target
  vr_flow :: string

definition read_u8 :: "bytes \<Rightarrow> (u8 \<times> bytes) result" where
  "read_u8 reader = and_then (read_exact 1 reader) (\<lambda>(bs, reader). Inr (bs ! 0, reader))"

definition read_port_be :: "bytes \<Rightarrow> (u16 \<times> bytes) result" where
  "read_port_be reader = and_then (read_exact 2 reader) (\<lambda>(bs, reader). Inr (from_be_bytes bs, reader))"

fun write_vless_address :: "proxy_target \<Rightarrow> bytes result" where
  "write_vless_address (Ip addr) =
     (case sa_ip addr of
        IpV4 ip \<Rightarrow> Inr (to_be_bytes 2 (sa_port addr) @ [1] @ v4_octets ip)
      | IpV6 ip \<Rightarrow> Inr (to_be_bytes 2 (sa_port addr) @ [3] @ v6_octets ip))"
| "write_vless_address (Domain host port) =
     (if \<not> length host \<le> 255 then Inl TooLong
      else Inr (to_be_bytes 2 port @ [2, of_nat (length host)] @ as_bytes host))"

definition read_vless_address :: "bytes \<Rightarrow> (proxy_target \<times> bytes) result" where
  "read_vless_address reader =
     and_then (read_port_be reader) (\<lambda>(port, reader).
     and_then (read_u8 reader) (\<lambda>(atyp, reader).
     if atyp = 1 then
       and_then (read_exact 4 reader) (\<lambda>(octets, reader). Inr (Ip (SocketV4 (from_be_bytes octets) port), reader))
     else if atyp = 3 then
       and_then (read_exact 16 reader) (\<lambda>(octets, reader). Inr (Ip (SocketV6 (from_be_bytes octets) port 0 0), reader))
     else if atyp = 2 then
       and_then (read_u8 reader) (\<lambda>(len, reader).
       and_then (read_exact (unat len) reader) (\<lambda>(host, reader).
       and_then (from_utf8 host) (\<lambda>host. Inr (Domain host port, reader))))
     else Inl BadAddressType))"

definition write_vless_request :: "bytes \<Rightarrow> u8 \<Rightarrow> proxy_target \<Rightarrow> string \<Rightarrow> bytes result" where
  "write_vless_request user command target flow =
     and_then (encode_addons flow) (\<lambda>addons.
     let header = [VLESS_VERSION] @ user @ [of_nat (length addons)] @ addons @ [command] in
     if command \<noteq> CMD_TCP \<and> command \<noteq> CMD_UDP \<and> command \<noteq> CMD_MUX then Inl BadCommand
     else if command \<noteq> CMD_MUX then and_then (write_vless_address target) (\<lambda>a. Inr (header @ a))
     else Inr header)"

definition read_vless_request :: "bool \<Rightarrow> bytes \<Rightarrow> (vless_request \<times> bytes) result" where
  "read_vless_request overflow_checks reader =
     and_then (read_u8 reader) (\<lambda>(version, reader).
     if version \<noteq> VLESS_VERSION then Inl BadVersion
     else
       and_then (read_exact 16 reader) (\<lambda>(user, reader).
       and_then (read_u8 reader) (\<lambda>(addons_len, reader).
       and_then
         (if unat addons_len > 0 then
            and_then (read_exact (unat addons_len) reader) (\<lambda>(addons, reader).
            and_then (decode_flow_addon overflow_checks addons) (\<lambda>flow. Inr (flow, reader)))
          else Inr ([], reader)) (\<lambda>(flow, reader).
       and_then (read_u8 reader) (\<lambda>(command, reader).
       and_then (if command = CMD_MUX then Inr (mux_target, reader) else read_vless_address reader)
         (\<lambda>(target, reader).
       Inr (\<lparr> vr_user = user, vr_command = command, vr_target = target, vr_flow = flow \<rparr>, reader)))))))"

definition vless_response_header :: bytes where
  "vless_response_header = [VLESS_VERSION, 0]"

definition read_vless_response_header :: "bytes \<Rightarrow> (unit \<times> bytes) result" where
  "read_vless_response_header reader =
     and_then (read_u8 reader) (\<lambda>(version, reader).
     if version \<noteq> VLESS_VERSION then Inl BadVersion
     else
       and_then (read_u8 reader) (\<lambda>(addons_len, reader).
       if unat addons_len > 0
       then and_then (read_exact (unat addons_len) reader) (\<lambda>(_, reader). Inr ((), reader))
       else Inr ((), reader)))"

section \<open>UDP frames\<close>

definition write_vless_udp_frame :: "bytes \<Rightarrow> bytes result" where
  "write_vless_udp_frame payload =
     (if \<not> length payload \<le> 65535 then Inl TooLong else Inr (len_u16 (length payload) @ payload))"

definition read_vless_udp_frame :: "bytes \<Rightarrow> (bytes option \<times> bytes) result" where
  "read_vless_udp_frame reader =
     (case read_exact 2 reader of
        Inl _ \<Rightarrow> Inr (None, [])
      | Inr (n, reader) \<Rightarrow>
          and_then (read_exact (unat (from_be_bytes n :: u16)) reader) (\<lambda>(payload, reader).
          Inr (Some payload, reader)))"

section \<open>Decision\<close>

definition validate_flow :: "vless_request \<Rightarrow> string \<Rightarrow> unit result" where
  "validate_flow request allowed_flow =
     (let server_vision = is_vision_flow allowed_flow; client_vision = is_vision_flow (vr_flow request) in
      if vr_command request = CMD_TCP \<and> server_vision \<and> trim (vr_flow request) = [] then Inl Rejected
      else if trim (vr_flow request) = [] then Inr ()
      else if \<not> client_vision then Inl Unsupported
      else if \<not> server_vision then Inl Rejected
      else if vr_command request \<noteq> CMD_TCP then Inl Unsupported
      else Inr ())"

fun vless_users_from_core ::
  "(string \<Rightarrow> nat \<Rightarrow> bytes result) \<Rightarrow> string list \<Rightarrow> (bytes \<times> string) list result" where
  "vless_users_from_core hex_decode [] = Inr []"
| "vless_users_from_core hex_decode (credential # credentials) =
     and_then (parse_uuid hex_decode credential) (\<lambda>user.
     and_then (vless_users_from_core hex_decode credentials) (\<lambda>users.
     Inr (if user \<in> fst ` set users then users else (user, credential) # users)))"

definition lookup_vless_user :: "(bytes \<times> string) list \<Rightarrow> bytes \<Rightarrow> string option" where
  "lookup_vless_user users user =
     foldl (\<lambda>found (k, credential). if constant_time_eq k user then Some credential else found) None users"

text \<open>What the server does with a stream, up to the relay; \<open>authenticate\<close> opens the session.\<close>

datatype vless_action =
    RelayTcp proxy_target
  | RelayVision proxy_target bytes
  | RelayUdp proxy_target
  | RelayMux

definition handle_vless_stream ::
  "(string \<Rightarrow> nat \<Rightarrow> bytes result) \<Rightarrow> bool \<Rightarrow> string list \<Rightarrow> string \<Rightarrow> (string \<Rightarrow> 's result) \<Rightarrow> bool \<Rightarrow> bytes \<Rightarrow>
     ('s \<times> vless_action \<times> bytes) result" where
  "handle_vless_stream hex_decode overflow_checks credentials allowed_flow authenticate has_vision stream =
     and_then (vless_users_from_core hex_decode credentials) (\<lambda>users.
     and_then (read_vless_request overflow_checks stream) (\<lambda>(request, stream).
     and_then (ok_or (lookup_vless_user users (vr_user request)) AuthFailed) (\<lambda>credential.
     and_then (validate_flow request allowed_flow) (\<lambda>_.
     and_then (authenticate credential) (\<lambda>session.
     if vr_command request = CMD_TCP then
       (if is_vision_flow (vr_flow request)
        then (if has_vision then Inr (session, RelayVision (vr_target request) (vr_user request), stream)
              else Inl Missing)
        else Inr (session, RelayTcp (vr_target request), stream))
     else if vr_command request = CMD_UDP then Inr (session, RelayUdp (vr_target request), stream)
     else if vr_command request = CMD_MUX then Inr (session, RelayMux, stream)
     else Inl BadCommand)))))"

section \<open>Lemmas\<close>

declare read_varint_loop.simps [simp del] decode_flow_loop.simps [simp del]

lemma read_u8_Cons [simp]: "read_u8 (b # reader) = Inr (b, reader)"
  by (simp add: read_u8_def)

lemma read_vless_address_write:
  assumes "target_ok t" "write_vless_address t = Inr bs"
  shows "read_vless_address (bs @ rest) = Inr (mux_wire_target t, rest)"
proof (cases t)
  case (Ip addr)
  then show ?thesis
    using assms(2) by (cases "sa_ip addr") (auto simp: read_vless_address_def read_port_be_def)
next
  case (Domain host port)
  then have "length host \<le> 255" "valid_str host" using assms by (auto split: if_splits)
  then show ?thesis
    using assms(2) Domain by (auto simp: read_vless_address_def read_port_be_def unat_of_nat_u8 from_utf8_as_bytes)
qed

lemma read_varint_byte:
  assumes "cursor < length bs" "bs ! cursor AND 0x80 = 0"
  shows "read_varint bs cursor = Inr (ucast (bs ! cursor AND 0x7F), cursor + 1)"
  using assms by (subst read_varint_def, subst read_varint_loop.simps) simp

lemma to_lower_ascii: "(of_char (to_lower c) :: nat) < 0x80 \<Longrightarrow> (of_char c :: nat) < 0x80"
  by (auto simp: to_lower_def split: if_splits)

lemma vision_flow_ascii:
  assumes "is_vision_flow flow"
  shows "length (trim flow) = 16" "valid_str (trim flow)"
proof -
  have eq: "to_ascii_lowercase (trim flow) = to_ascii_lowercase FLOW_XTLS_RPRX_VISION"
    using assms by (simp add: is_vision_flow_def eq_ignore_ascii_case_def)
  then have "length (to_ascii_lowercase (trim flow)) = 16" by (simp add: length_to_ascii_lowercase)
  then show "length (trim flow) = 16" by (simp add: length_to_ascii_lowercase)
  have ascii: "list_all (\<lambda>c. (of_char c :: nat) < 0x80) (to_ascii_lowercase FLOW_XTLS_RPRX_VISION)" by code_simp
  have "(of_char c :: nat) < 0x80" if "c \<in> set (trim flow)" for c
  proof -
    have "to_lower c \<in> set (to_ascii_lowercase (trim flow))" using that by (simp add: to_ascii_lowercase_def)
    then have "(of_char (to_lower c) :: nat) < 0x80" using ascii eq by (simp add: list_all_iff)
    then show ?thesis by (rule to_lower_ascii)
  qed
  then show "valid_str (trim flow)" by (intro valid_str_ascii) blast
qed

lemma decode_encode_addons:
  assumes "encode_addons flow = Inr addons" "addons \<noteq> []"
  shows "decode_flow_addon oc addons = Inr (trim flow) \<and> length addons = 18"
proof -
  have vision: "is_vision_flow flow" using assms by (auto simp: encode_addons_def Let_def split: if_splits)
  note v = vision_flow_ascii [OF vision]
  have addons: "addons = [0x0A, 16] @ as_bytes (trim flow)"
    using assms v(1) by (auto simp: encode_addons_def Let_def split: if_splits)
  then have len: "length addons = 18" using v(1) by simp
  have key: "read_varint addons 0 = Inr (10, 1)"
    using read_varint_byte [of 0 addons] addons by simp
  have size: "read_varint addons 1 = Inr (16, 2)"
    using read_varint_byte [of 1 addons] addons by simp
  have "slice 2 18 addons = as_bytes (trim flow)" using addons v(1) by (simp add: slice_def)
  then have field: "read_length_delimited oc addons 1 = Inr (as_bytes (trim flow), 18)"
    using size len by (simp add: read_length_delimited_def add_usize_def slice_range_def)
  have bits: "drop_bit 3 (10 :: u64) = 1" "(10 :: u64) AND 7 = 2" by simp_all
  have "decode_flow_loop oc addons 0 [] = decode_flow_loop oc addons 18 (trim flow)"
    by (subst decode_flow_loop.simps)
       (use len key field v(2) bits in \<open>simp add: from_utf8_as_bytes Let_def\<close>)
  also have "\<dots> = Inr (trim flow)" by (subst decode_flow_loop.simps) (simp add: len)
  finally show ?thesis using len by (simp add: decode_flow_addon_def)
qed

lemma decode_flow_addon_overflow:
  "decode_flow_addon oc ([0x0A] @ replicate 9 0xFF @ [0x01]) = Inl Panic"
proof -
  let ?a = "[0x0A] @ replicate 9 0xFF @ [0x01] :: bytes"
  have key: "read_varint ?a 0 = Inr (10, 1)" using read_varint_byte [of 0 ?a] by simp
  have "read_varint ?a 1 = Inr (0xFFFFFFFFFFFFFFFF, 11)"
    by code_simp
  then have "read_length_delimited oc ?a 1 = Inl Panic"
    by (cases oc) (simp_all add: read_length_delimited_def add_usize_def slice_range_def)
  moreover have "drop_bit 3 (10 :: u64) = 1" "(10 :: u64) AND 7 = 2" by simp_all
  ultimately show ?thesis
    unfolding decode_flow_addon_def by (subst decode_flow_loop.simps) (use key in \<open>simp add: Let_def\<close>)
qed

section \<open>Properties\<close>

text \<open>C39: a request survives the wire. What the client writes for a user, a command, a target and
  a flow, the server reads as the same request, with the flow trimmed and, for a mux request,
  the mux target, and is left behind it; the flow is empty exactly if the client named none.\<close>

theorem vless_request_roundtrip:
  assumes "length user = 16" "target_ok target" "write_vless_request user command target flow = Inr bs"
  shows "read_vless_request oc (bs @ rest) =
    Inr (\<lparr> vr_user = user, vr_command = command,
           vr_target = (if command = CMD_MUX then mux_target else mux_wire_target target),
           vr_flow = trim flow \<rparr>, rest) \<and> (trim flow = [] \<or> is_vision_flow flow)"
proof -
  obtain addons where a: "encode_addons flow = Inr addons"
    using assms(3) by (auto simp: write_vless_request_def and_then_Inr_iff)
  let ?header = "[VLESS_VERSION] @ user @ [of_nat (length addons)] @ addons @ [command]"
  let ?read = "\<lambda>reader. if command = CMD_MUX then Inr (mux_target, reader) else read_vless_address reader"
  have flow: "(if addons = [] then trim flow = [] else
      decode_flow_addon oc addons = Inr (trim flow) \<and> length addons = 18 \<and> is_vision_flow flow)"
    using a decode_encode_addons [OF a, of oc]
    by (auto simp: encode_addons_def Let_def split: if_splits)
  have header: "read_vless_request oc (?header @ tail) =
      and_then (?read tail) (\<lambda>(target, reader).
      Inr (\<lparr> vr_user = user, vr_command = command, vr_target = target, vr_flow = trim flow \<rparr>, reader))" for tail
    using flow assms(1) by (cases "addons = []") (simp_all add: read_vless_request_def)
  have "trim flow = [] \<or> is_vision_flow flow" using flow by (auto split: if_splits)
  moreover have "read_vless_request oc (bs @ rest) =
    Inr (\<lparr> vr_user = user, vr_command = command,
           vr_target = (if command = CMD_MUX then mux_target else mux_wire_target target), vr_flow = trim flow \<rparr>, rest)"
  proof (cases "command = CMD_MUX")
    case True
    then have "bs = ?header" using assms(3) a by (simp add: write_vless_request_def)
    then show ?thesis using header [of rest] True by simp
  next
    case False
    then obtain b where b: "write_vless_address target = Inr b" "bs = ?header @ b"
      using assms(3) a by (auto simp: write_vless_request_def and_then_Inr_iff Let_def split: if_splits)
    then show ?thesis
      using header [of "b @ rest"] False read_vless_address_write [OF assms(2) b(1), of rest] by simp
  qed
  ultimately show ?thesis by blast
qed

theorem vless_request_roundtrip_witness:
  "\<exists>bs. write_vless_request (replicate 16 7) CMD_TCP (Ip (SocketV4 0x7F000001 443)) ''xtls-rprx-vision'' = Inr bs \<and>
     read_vless_request True (bs @ [1]) =
       Inr (\<lparr> vr_user = replicate 16 7, vr_command = CMD_TCP, vr_target = Ip (SocketV4 0x7F000001 443),
              vr_flow = ''xtls-rprx-vision'' \<rparr>, [1])"
proof -
  let ?t = "Ip (SocketV4 0x7F000001 443)" and ?f = "''xtls-rprx-vision''"
  have f: "trim ?f = ?f" "is_vision_flow ?f" by code_simp+
  obtain bs where bs: "write_vless_request (replicate 16 7) CMD_TCP ?t ?f = Inr bs"
    using f by (simp add: write_vless_request_def encode_addons_def Let_def)
  show ?thesis using vless_request_roundtrip [OF _ _ bs, of True "[1]"] bs f by simp
qed

text \<open>C40: a few bytes make the server panic. Before any user is looked up, an addon whose length
  is 18446744073709551615, the largest 64-bit number, overflows the addition that checks it against the buffer: a build with overflow
  checks panics there, a build without them lets the length pass and panics when it slices. Any
  stream that opens so, with any user, ends in the panic.\<close>

theorem vless_addons_panic:
  assumes "length user = 16" "vless_users_from_core hex_decode credentials = Inr users"
  shows "handle_vless_stream hex_decode oc credentials allowed_flow authenticate has_vision
    ([VLESS_VERSION] @ user @ [11, 0x0A] @ replicate 9 0xFF @ [0x01] @ rest) = Inl Panic"
proof -
  have "read_exact 11 ([0x0A] @ replicate 9 0xFF @ [0x01] @ rest) = Inr ([0x0A] @ replicate 9 0xFF @ [0x01 :: u8], rest)"
    by (simp add: numeral_eq_Suc)
  then have "read_vless_request oc ([VLESS_VERSION] @ user @ [11, 0x0A] @ replicate 9 0xFF @ [0x01] @ rest) = Inl Panic"
    using assms(1) decode_flow_addon_overflow [of oc] by (simp add: read_vless_request_def)
  then show ?thesis using assms(2) by (simp add: handle_vless_stream_def)
qed

theorem vless_addons_panic_witness:
  "handle_vless_stream (\<lambda>_ _. Inl ParseFailed) False [] [] (\<lambda>_. Inr ()) False
    ([VLESS_VERSION] @ replicate 16 0 @ [11, 0x0A] @ replicate 9 0xFF @ [0x01] @ []) = Inl Panic"
  by (rule vless_addons_panic [of _ _ _ "[]"]) simp_all

end
