(* ===== verification/ReplayCache.thy ===== *)
theory ReplayCache
  imports Prelude
begin

text \<open>
  The replay cache of authenticated handshakes (\<open>src/src/replay_cache.rs\<close>). An \<open>Instant\<close> and
  a \<open>Duration\<close> are numbers of clock ticks; \<open>duration_since\<close> saturates at zero. The lock makes
  \<open>check_and_store\<close> one atomic step; the time is read inside it.
\<close>

section \<open>Contract\<close>

text \<open>
  What the handshakes rely on. \<open>stamps s\<close> are the keys that the state remembers, each with
  the time at which it was accepted.
\<close>

datatype replay_error = Replayed_key | Full

locale replay_filter =
  fixes check :: "'s \<Rightarrow> nat \<Rightarrow> 'k \<Rightarrow> (replay_error + unit) \<times> 's"
    and stamps :: "'s \<Rightarrow> (nat \<times> 'k) set"
    and good :: "'s \<Rightarrow> nat \<Rightarrow> bool"
    and ttl :: nat
  assumes good_later: "good s t \<Longrightarrow> t \<le> t' \<Longrightarrow> good s t'"
    and good_check: "good s t \<Longrightarrow> good (snd (check s t k)) t"
    and keep: "good s t \<Longrightarrow> (u, k') \<in> stamps s \<Longrightarrow> t - u \<le> ttl \<Longrightarrow>
                 (u, k') \<in> stamps (snd (check s t k))"
    and store: "fst (check s t k) = Inr () \<Longrightarrow> (t, k) \<in> stamps (snd (check s t k))"
    and refuse: "good s t \<Longrightarrow> (u, k) \<in> stamps s \<Longrightarrow> t - u \<le> ttl \<Longrightarrow> fst (check s t k) \<noteq> Inr ()"

text \<open>The answers to a sequence of requests.\<close>

fun run_checks ::
  "('s \<Rightarrow> nat \<Rightarrow> 'k \<Rightarrow> (replay_error + unit) \<times> 's) \<Rightarrow> 's \<Rightarrow> (nat \<times> 'k) list \<Rightarrow>
     (replay_error + unit) list" where
  "run_checks check s [] = []"
| "run_checks check s ((t, k) # reqs) =
     fst (check s t k) # run_checks check (snd (check s t k)) reqs"

lemma length_run_checks [simp]: "length (run_checks check s reqs) = length reqs"
  by (induction check s reqs rule: run_checks.induct) simp_all

context replay_filter
begin

lemma remembered_refused:
  assumes "good s t0" "(u, k) \<in> stamps s" "sorted (map fst reqs)" "\<forall>(t, _) \<in> set reqs. t0 \<le> t"
    "j < length reqs" "snd (reqs ! j) = k" "run_checks check s reqs ! j = Inr ()"
  shows "ttl < fst (reqs ! j) - u"
  using assms
proof (induction reqs arbitrary: s t0 j)
  case (Cons req reqs)
  obtain t k' where req: "req = (t, k')" by force
  have good: "good s t" using Cons.prems(1,4) req by (auto intro: good_later)
  show ?case
  proof (cases j)
    case 0
    then show ?thesis using Cons.prems refuse [OF good, of u k] req by (force simp: not_less)
  next
    case (Suc i)
    show ?thesis
    proof (cases "t - u \<le> ttl")
      case True
      have "(u, k) \<in> stamps (snd (check s t k'))" using keep good Cons.prems(2) True by blast
      then show ?thesis
        using Cons.IH [of "snd (check s t k')" t i] Cons.prems good_check [OF good] req Suc
        by (auto simp: split_beta)
    next
      case False
      have "t \<le> fst (reqs ! i)" using Cons.prems(3,5) req Suc by simp
      with False show ?thesis using Suc by simp
    qed
  qed
qed simp

text \<open>A key that is accepted twice was accepted at moments more than the lifetime apart.\<close>

lemma no_replay_in_window:
  assumes "good s t0" "sorted (map fst reqs)" "\<forall>(t, _) \<in> set reqs. t0 \<le> t"
    "i < j" "j < length reqs" "snd (reqs ! i) = snd (reqs ! j)"
    "run_checks check s reqs ! i = Inr ()" "run_checks check s reqs ! j = Inr ()"
  shows "ttl < fst (reqs ! j) - fst (reqs ! i)"
  using assms
proof (induction reqs arbitrary: s t0 i j)
  case (Cons req reqs)
  obtain t k' where req: "req = (t, k')" by force
  let ?s = "snd (check s t k')"
  have good: "good s t" "good ?s t" using Cons.prems(1,3) req by (auto intro: good_later good_check)
  have later: "\<forall>(t', _) \<in> set reqs. t \<le> t'" using Cons.prems(2) req by (auto simp: split_beta)
  obtain j' where j: "j = Suc j'" using Cons.prems(4) gr0_conv_Suc by auto
  show ?case
  proof (cases i)
    case 0
    then have "(t, k') \<in> stamps ?s" using Cons.prems(7) store req by simp
    then show ?thesis
      using remembered_refused [OF good(2), of t k' reqs j'] later Cons.prems 0 j req by simp
  next
    case (Suc i')
    then show ?thesis
      using Cons.IH [OF good(2), of i' j'] later Cons.prems j req by simp
  qed
qed simp

end

section \<open>The cache\<close>

record 'k entries =
  ent_keys :: "'k set"
  ent_expiry :: "(nat \<times> 'k) list"

record 'k replay_cache =
  rc_entries :: "'k entries"
  rc_ttl :: nat
  rc_capacity :: nat

definition replay_cache_new :: "nat \<Rightarrow> nat \<Rightarrow> 'k replay_cache" where
  "replay_cache_new ttl capacity =
     \<lparr> rc_entries = \<lparr> ent_keys = {}, ent_expiry = [] \<rparr>, rc_ttl = ttl, rc_capacity = capacity \<rparr>"

text \<open>The loop that drops expired entries from the front of the queue.\<close>

fun expire_front :: "nat \<Rightarrow> nat \<Rightarrow> 'k set \<Rightarrow> (nat \<times> 'k) list \<Rightarrow> 'k set \<times> (nat \<times> 'k) list" where
  "expire_front ttl now keys [] = (keys, [])"
| "expire_front ttl now keys ((seen, k) # q) =
     (if now - seen > ttl then expire_front ttl now (keys - {k}) q else (keys, (seen, k) # q))"

definition replay_insert ::
  "nat \<Rightarrow> nat \<Rightarrow> 'k entries \<Rightarrow> 'k \<Rightarrow> nat \<Rightarrow> (replay_error + unit) \<times> 'k entries" where
  "replay_insert ttl capacity entries key now =
     (case expire_front ttl now (ent_keys entries) (ent_expiry entries) of
        (keys, expiry) \<Rightarrow>
          if key \<in> keys then (Inl Replayed_key, \<lparr> ent_keys = keys, ent_expiry = expiry \<rparr>)
          else if card keys \<ge> capacity then (Inl Full, \<lparr> ent_keys = keys, ent_expiry = expiry \<rparr>)
          else (Inr (), \<lparr> ent_keys = insert key keys, ent_expiry = expiry @ [(now, key)] \<rparr>))"

definition check_and_store ::
  "'k replay_cache \<Rightarrow> nat \<Rightarrow> 'k \<Rightarrow> (replay_error + unit) \<times> 'k replay_cache" where
  "check_and_store c now key =
     (case replay_insert (rc_ttl c) (rc_capacity c) (rc_entries c) key now of
        (r, e) \<Rightarrow> (r, c\<lparr> rc_entries := e \<rparr>))"

section \<open>Invariant and refinement\<close>

text \<open>The set and the queue hold the same keys, each once; the queue is ordered by time; the
  cache never holds more than its capacity.\<close>

definition entries_ok :: "nat \<Rightarrow> nat \<Rightarrow> 'k entries \<Rightarrow> bool" where
  "entries_ok capacity now e \<longleftrightarrow>
     ent_keys e = snd ` set (ent_expiry e) \<and> distinct (map snd (ent_expiry e)) \<and>
     sorted (map fst (ent_expiry e)) \<and> (\<forall>(t, _) \<in> set (ent_expiry e). t \<le> now) \<and>
     length (ent_expiry e) \<le> capacity"

text \<open>The specification: one list of accepted keys, filtered by age.\<close>

definition spec_insert ::
  "nat \<Rightarrow> nat \<Rightarrow> (nat \<times> 'k) list \<Rightarrow> 'k \<Rightarrow> nat \<Rightarrow> (replay_error + unit) \<times> (nat \<times> 'k) list" where
  "spec_insert ttl capacity q key now =
     (let q = filter (\<lambda>(t, _). now - t \<le> ttl) q in
      if key \<in> snd ` set q then (Inl Replayed_key, q)
      else if length q \<ge> capacity then (Inl Full, q)
      else (Inr (), q @ [(now, key)]))"

lemma expire_front_eq:
  assumes "sorted (map fst q)" "distinct (map snd q)" "keys = snd ` set q"
  shows "expire_front ttl now keys q =
    (snd ` set (filter (\<lambda>(t, _). now - t \<le> ttl) q), filter (\<lambda>(t, _). now - t \<le> ttl) q)"
  using assms
proof (induction q arbitrary: keys)
  case (Cons x q)
  obtain t k where x: "x = (t, k)" by force
  show ?case
  proof (cases "now - t > ttl")
    case True
    have "keys - {k} = snd ` set q" using Cons.prems x by (auto simp: image_iff)
    then show ?thesis using Cons x True by auto
  next
    case False
    have "now - t' \<le> ttl" if "(t', k') \<in> set q" for t' k'
    proof -
      have "t \<le> t'" using Cons.prems(1) x that by force
      then show ?thesis using False by linarith
    qed
    then have "filter (\<lambda>(t, _). now - t \<le> ttl) q = q" by (intro filter_True) auto
    then show ?thesis using Cons.prems x False by auto
  qed
qed simp

lemma distinct_map_filter_snd: "distinct (map snd q) \<Longrightarrow> distinct (map snd (filter P q))"
  by (induction q) auto

lemma card_snd: "distinct (map snd q) \<Longrightarrow> card (snd ` set q) = length q"
  by (metis distinct_card length_map set_map)

text \<open>The cache implements the specification, on success and on both errors.\<close>

lemma replay_insert_refines:
  assumes "entries_ok capacity now e"
  shows "(fst (replay_insert ttl capacity e key now),
          ent_expiry (snd (replay_insert ttl capacity e key now))) =
         spec_insert ttl capacity (ent_expiry e) key now"
  using assms expire_front_eq [of "ent_expiry e" "ent_keys e" ttl now]
    card_snd [OF distinct_map_filter_snd, of "ent_expiry e"]
  by (auto simp: replay_insert_def spec_insert_def entries_ok_def Let_def)

lemma replay_insert_ok:
  assumes "entries_ok capacity now e"
  shows "entries_ok capacity now (snd (replay_insert ttl capacity e key now))"
proof -
  let ?q = "filter (\<lambda>(t, _). now - t \<le> ttl) (ent_expiry e)"
  have q: "distinct (map snd ?q)" "sorted (map fst ?q)" "\<forall>(t, _) \<in> set ?q. t \<le> now"
    "length ?q \<le> capacity"
    using assms unfolding entries_ok_def
    by (auto intro: distinct_map_filter_snd sorted_filter order_trans [OF length_filter_le])
  have "expire_front ttl now (ent_keys e) (ent_expiry e) = (snd ` set ?q, ?q)"
    using assms expire_front_eq unfolding entries_ok_def by blast
  then show ?thesis
    using q card_snd [OF q(1)]
    by (auto simp: replay_insert_def entries_ok_def sorted_append)
qed

lemma entries_ok_later: "entries_ok capacity t e \<Longrightarrow> t \<le> t' \<Longrightarrow> entries_ok capacity t' e"
  by (auto simp: entries_ok_def)

definition cache_check ::
  "nat \<Rightarrow> nat \<Rightarrow> 'k entries \<Rightarrow> nat \<Rightarrow> 'k \<Rightarrow> (replay_error + unit) \<times> 'k entries" where
  "cache_check ttl capacity e now key = replay_insert ttl capacity e key now"

interpretation cache: replay_filter "cache_check ttl capacity" "\<lambda>e. set (ent_expiry e)"
  "\<lambda>e now. entries_ok capacity now e" ttl for ttl capacity
proof (unfold_locales, goal_cases)
  case (1 s t t')
  then show ?case by (rule entries_ok_later)
next
  case (2 s t k)
  then show ?case unfolding cache_check_def by (rule replay_insert_ok)
next
  case (3 s t u k' k)
  then show ?case
    using replay_insert_refines [OF 3(1), of ttl k]
    by (auto simp: cache_check_def spec_insert_def Let_def prod_eq_iff split: if_splits)
next
  case (4 s t k)
  then show ?case
    by (auto simp: cache_check_def replay_insert_def split: prod.splits if_splits)
next
  case (5 s t u k)
  then show ?case
    using replay_insert_refines [OF 5(1), of ttl k]
    by (force simp: cache_check_def spec_insert_def Let_def prod_eq_iff split: if_splits)
qed

lemma check_and_store_cache_check:
  "check_and_store c now key =
     (let (r, e) = cache_check (rc_ttl c) (rc_capacity c) (rc_entries c) now key
      in (r, c\<lparr> rc_entries := e \<rparr>))"
  by (simp add: check_and_store_def cache_check_def)

lemma run_check_and_store:
  "run_checks check_and_store c reqs =
     run_checks (cache_check (rc_ttl c) (rc_capacity c)) (rc_entries c) reqs"
proof (induction reqs arbitrary: c)
  case (Cons req reqs)
  obtain t k where req: "req = (t, k)" by force
  obtain r e where re: "cache_check (rc_ttl c) (rc_capacity c) (rc_entries c) t k = (r, e)" by force
  then show ?case using Cons [of "c\<lparr> rc_entries := e \<rparr>"] req by (simp add: check_and_store_cache_check)
qed simp

section \<open>Properties\<close>

text \<open>C9: no key is accepted twice within the lifetime of the cache, for any sequence of requests
  in order of time, whatever else is requested in between and even when the cache is full.\<close>

theorem replay_window_safe:
  assumes "sorted (map fst reqs)" "i < j" "j < length reqs" "snd (reqs ! i) = snd (reqs ! j)"
    "run_checks check_and_store (replay_cache_new ttl capacity) reqs ! i = Inr ()"
    "run_checks check_and_store (replay_cache_new ttl capacity) reqs ! j = Inr ()"
  shows "ttl < fst (reqs ! j) - fst (reqs ! i)"
proof -
  have "entries_ok capacity 0 (rc_entries (replay_cache_new ttl capacity))"
    by (simp add: entries_ok_def replay_cache_new_def)
  from cache.no_replay_in_window [OF this, of reqs i j ttl] assms show ?thesis
    by (simp add: run_check_and_store) (simp add: replay_cache_new_def)
qed

theorem replay_window_safe_witness:
  "run_checks check_and_store (replay_cache_new 10 4) [(0, ''n''), (5, ''n''), (11, ''n'')]
     = [Inr (), Inl Replayed_key, Inr ()] \<and> (10 :: nat) < 11 - 0"
proof -
  have r: "run_checks check_and_store (replay_cache_new 10 4) [(0, ''n''), (5, ''n''), (11, ''n'')]
     = [Inr (), Inl Replayed_key, Inr ()]" by code_simp
  then show ?thesis
    using replay_window_safe [of "[(0, ''n''), (5, ''n''), (11, ''n'')]" 0 2 10 4] by simp
qed

text \<open>C10: each request is decided as the specification says (replayed if an unexpired entry has the
  key, full if there are as many unexpired entries as the capacity, accepted otherwise), and
  the invariant of the cache (set and queue agree, queue ordered, at most capacity entries)
  is kept, on every branch.\<close>

theorem replay_cache_refines_spec:
  assumes "entries_ok (rc_capacity c) now (rc_entries c)"
  shows "(fst (check_and_store c now key), ent_expiry (rc_entries (snd (check_and_store c now key)))) =
           spec_insert (rc_ttl c) (rc_capacity c) (ent_expiry (rc_entries c)) key now
         \<and> entries_ok (rc_capacity c) now (rc_entries (snd (check_and_store c now key)))"
  using replay_insert_refines [OF assms, of "rc_ttl c" key] replay_insert_ok [OF assms, of "rc_ttl c" key]
  by (simp add: check_and_store_def split_beta)

theorem replay_cache_refines_spec_witness:
  "(fst (check_and_store (replay_cache_new 10 4) 3 ''n''),
    ent_expiry (rc_entries (snd (check_and_store (replay_cache_new 10 4) 3 ''n'')))) =
   (Inr (), [(3, ''n'')])"
  using replay_cache_refines_spec [of "replay_cache_new 10 4" 3 "''n''"]
  by (simp add: entries_ok_def replay_cache_new_def spec_insert_def)

end
