(* ===== verification/UdpFragments.thy ===== *)
theory UdpFragments
  imports Prelude
begin

text \<open>
  Reassembly of fragmented UDP packets (\<open>src/src/udp_fragments.rs\<close>). \<open>insert\<close> returns its result
  and the new state; an error leaves the state as it was when the check failed.
\<close>

abbreviation (input) "MAX_UDP_PAYLOAD \<equiv> 65535 :: nat"

record fragment_payload =
  fp_chunks :: "bytes option list"
  fp_remaining :: nat
  fp_length :: nat

definition fragment_new :: "u8 \<Rightarrow> fragment_payload" where
  "fragment_new count =
     \<lparr> fp_chunks = replicate (unat count) None, fp_remaining = unat count, fp_length = 0 \<rparr>"

definition fragment_count :: "fragment_payload \<Rightarrow> nat" where
  "fragment_count fp = length (fp_chunks fp)"

text \<open>\<open>chunk.take().expect(...)\<close> over all chunks: a missing chunk panics.\<close>

fun take_chunks :: "bytes option list \<Rightarrow> bytes result" where
  "take_chunks [] = Inr []"
| "take_chunks (None # cs) = Inl Panic"
| "take_chunks (Some p # cs) = and_then (take_chunks cs) (\<lambda>ps. Inr (p @ ps))"

definition fragment_insert ::
  "fragment_payload \<Rightarrow> u8 \<Rightarrow> bytes \<Rightarrow> bytes option result \<times> fragment_payload" where
  "fragment_insert fp index payload =
     (if \<not> fp_remaining fp > 0 then (Inl Rejected, fp)
      else if \<not> unat index < length (fp_chunks fp) then (Inl OutOfRange, fp)
      else if fp_chunks fp ! unat index \<noteq> None then (Inl Duplicate, fp)
      else if fp_length fp > MAX_UDP_PAYLOAD then (Inl Panic, fp)
      else if \<not> length payload \<le> MAX_UDP_PAYLOAD - fp_length fp then (Inl TooLong, fp)
      else
        (let fp = fp\<lparr> fp_length := fp_length fp + length payload,
                     fp_remaining := fp_remaining fp - 1,
                     fp_chunks := (fp_chunks fp)[unat index := Some payload] \<rparr> in
         if fp_remaining fp \<noteq> 0 then (Inr None, fp)
         else (map_sum id Some (take_chunks (fp_chunks fp)),
               fp\<lparr> fp_chunks := map (\<lambda>_. None) (fp_chunks fp) \<rparr>)))"

fun fragment_inserts ::
  "fragment_payload \<Rightarrow> (u8 \<times> bytes) list \<Rightarrow> bytes option result list \<times> fragment_payload" where
  "fragment_inserts fp [] = ([], fp)"
| "fragment_inserts fp ((index, payload) # fs) =
     (case fragment_insert fp index payload of
        (r, fp') \<Rightarrow> (case fragment_inserts fp' fs of (rs, fp'') \<Rightarrow> (r # rs, fp'')))"

section \<open>Invariant\<close>

text \<open>While fragments are missing: the counters agree with the chunks, and the total stays
  within the limit. Afterwards the chunks have been taken out.\<close>

fun chunk_len :: "bytes option \<Rightarrow> nat" where
  "chunk_len None = 0"
| "chunk_len (Some p) = length p"

definition fragment_ok :: "fragment_payload \<Rightarrow> bool" where
  "fragment_ok fp \<longleftrightarrow>
     length (fp_chunks fp) \<le> 255 \<and> fp_length fp \<le> MAX_UDP_PAYLOAD \<and>
     (if fp_remaining fp = 0 then list_all (\<lambda>c. c = None) (fp_chunks fp)
      else fp_remaining fp = length (filter (\<lambda>c. c = None) (fp_chunks fp)) \<and>
           fp_length fp = sum_list (map chunk_len (fp_chunks fp)))"

lemma fragment_new_ok: "fragment_ok (fragment_new count)"
  using unat_u8_le [of count]
  by (auto simp: fragment_ok_def fragment_new_def list_all_iff sum_list_replicate)

lemma filter_None_update:
  "i < length cs \<Longrightarrow> cs ! i = None \<Longrightarrow>
     length (filter (\<lambda>c. c = None) (cs[i := Some p])) = length (filter (\<lambda>c. c = None) cs) - 1"
proof (induction cs arbitrary: i)
  case (Cons c cs)
  have "0 < length (filter (\<lambda>c. c = None) cs)" if "j < length cs" "cs ! j = None" for j
    using that by (metis (mono_tags, lifting) filter_empty_conv length_greater_0_conv nth_mem)
  with Cons show ?case by (cases i) auto
qed simp

lemma sum_length_update:
  "i < length cs \<Longrightarrow> cs ! i = None \<Longrightarrow>
     sum_list (map chunk_len (cs[i := Some p])) = sum_list (map chunk_len cs) + length p"
proof (induction cs arbitrary: i)
  case (Cons c cs)
  then show ?case by (cases i) auto
qed simp

lemma take_chunks_full: "None \<notin> set cs \<Longrightarrow> take_chunks cs = Inr (concat (map the cs))"
  by (induction cs rule: take_chunks.induct) auto

text \<open>When a fragment is accepted, and what happens then; otherwise nothing changes.\<close>

definition accepts :: "fragment_payload \<Rightarrow> u8 \<Rightarrow> bytes \<Rightarrow> bool" where
  "accepts fp index payload \<longleftrightarrow>
     unat index < length (fp_chunks fp) \<and> fp_chunks fp ! unat index = None \<and>
     fp_remaining fp > 0 \<and> fp_length fp + length payload \<le> MAX_UDP_PAYLOAD"

lemma fragment_insert_reject:
  assumes "\<not> accepts fp index payload" "fp_length fp \<le> MAX_UDP_PAYLOAD"
  shows "\<exists>e. fragment_insert fp index payload = (Inl e, fp) \<and> e \<noteq> Panic"
proof (cases "fp_remaining fp > 0 \<and> unat index < length (fp_chunks fp) \<and>
    fp_chunks fp ! unat index = None")
  case True
  then have "\<not> length payload \<le> MAX_UDP_PAYLOAD - fp_length fp"
    using assms by (simp add: accepts_def)
  then show ?thesis using True assms(2) by (simp add: fragment_insert_def)
next
  case False
  then show ?thesis by (auto simp: fragment_insert_def)
qed

lemma no_chunk_missing:
  assumes "fragment_ok fp" "accepts fp index payload" "fp_remaining fp = 1"
  shows "None \<notin> set ((fp_chunks fp)[unat index := Some payload])"
proof -
  have "length (filter (\<lambda>c. c = None) ((fp_chunks fp)[unat index := Some payload])) = 0"
    using filter_None_update [of "unat index" "fp_chunks fp" payload] assms
    by (simp add: fragment_ok_def accepts_def)
  then show ?thesis by (metis (mono_tags) filter_empty_conv length_0_conv)
qed

lemma fragment_insert_step:
  assumes "fragment_ok fp" "accepts fp index payload"
  shows "fragment_insert fp index payload =
     (let cs = (fp_chunks fp)[unat index := Some payload] in
      if fp_remaining fp = 1
      then (Inr (Some (concat (map the cs))),
            \<lparr> fp_chunks = map (\<lambda>_. None) cs, fp_remaining = 0,
              fp_length = fp_length fp + length payload \<rparr>)
      else (Inr None,
            \<lparr> fp_chunks = cs, fp_remaining = fp_remaining fp - 1,
              fp_length = fp_length fp + length payload \<rparr>))"
proof -
  have c: "fp_remaining fp > 0" "unat index < length (fp_chunks fp)"
    "fp_chunks fp ! unat index = None" "\<not> fp_length fp > MAX_UDP_PAYLOAD"
    "length payload \<le> MAX_UDP_PAYLOAD - fp_length fp"
    using assms(2) by (auto simp: accepts_def)
  show ?thesis
  proof (cases "fp_remaining fp = 1")
    case True
    then show ?thesis
      using take_chunks_full [OF no_chunk_missing [OF assms True]] c
      by (simp add: fragment_insert_def Let_def)
  next
    case False
    then show ?thesis using c by (simp add: fragment_insert_def Let_def)
  qed
qed

lemma fragment_insert_ok:
  assumes "fragment_ok fp"
  shows "fragment_ok (snd (fragment_insert fp index payload)) \<and>
         fst (fragment_insert fp index payload) \<noteq> Inl Panic \<and>
         (\<forall>e. fst (fragment_insert fp index payload) = Inl e \<longrightarrow> snd (fragment_insert fp index payload) = fp)"
proof (cases "accepts fp index payload")
  case True
  let ?cs = "(fp_chunks fp)[unat index := Some payload]"
  have counters: "fp_remaining fp - 1 = length (filter (\<lambda>c. c = None) ?cs)"
    "fp_length fp + length payload = sum_list (map chunk_len ?cs)"
    using True assms filter_None_update [of "unat index" "fp_chunks fp" payload]
      sum_length_update [of "unat index" "fp_chunks fp" payload]
    by (simp_all add: fragment_ok_def accepts_def)
  show ?thesis
  proof (cases "fp_remaining fp = 1")
    case one: True
    then show ?thesis
      using fragment_insert_step [OF assms True] assms True
      by (simp add: fragment_ok_def accepts_def list_all_iff Let_def)
  next
    case False
    then have "fp_remaining fp - 1 \<noteq> 0" using True by (simp add: accepts_def)
    moreover have "length (fp_chunks fp) \<le> 255" "fp_length fp + length payload \<le> MAX_UDP_PAYLOAD"
      using assms True by (auto simp: fragment_ok_def accepts_def)
    moreover from calculation(1) have "filter (\<lambda>c. c = None) ?cs \<noteq> []"
      unfolding counters(1) by simp
    ultimately show ?thesis
      using fragment_insert_step [OF assms True] False counters
      by (simp add: fragment_ok_def Let_def)
  qed
next
  case False
  with assms fragment_insert_reject show ?thesis by (fastforce simp: fragment_ok_def)
qed

text \<open>The chunks after the fragments in \<open>done\<close> have arrived.\<close>

definition chunks_of :: "nat \<Rightarrow> (nat \<Rightarrow> bytes) \<Rightarrow> nat set \<Rightarrow> bytes option list" where
  "chunks_of n f S = map (\<lambda>i. if i \<in> S then Some (f i) else None) [0..<n]"

lemma chunks_of_insert:
  "i < n \<Longrightarrow> (chunks_of n f S)[i := Some (f i)] = chunks_of n f (insert i S)"
  by (rule nth_equalityI) (auto simp: chunks_of_def nth_list_update)

lemma fragment_inserts_any_order:
  assumes "fragment_ok fp" "fp_chunks fp = chunks_of n f S" "fp_remaining fp = length is"
    "fp_length fp + sum_list (map (length \<circ> f \<circ> unat) is) \<le> MAX_UDP_PAYLOAD"
    "distinct is" "\<forall>i \<in> set is. unat i < n \<and> unat i \<notin> S" "is \<noteq> []"
    "S \<union> unat ` set is = {..<n}"
  shows "fst (fragment_inserts fp (map (\<lambda>i. (i, f (unat i))) is)) =
           replicate (length is - 1) (Inr None) @ [Inr (Some (concat (map f [0..<n])))]"
  using assms
proof (induction "is" arbitrary: fp S)
  case (Cons i "is")
  have i: "accepts fp i (f (unat i))"
    using Cons.prems by (auto simp: chunks_of_def accepts_def)
  have cs: "(fp_chunks fp)[unat i := Some (f (unat i))] = chunks_of n f (insert (unat i) S)"
    using Cons.prems chunks_of_insert by simp
  show ?case
  proof (cases "is = []")
    case True
    then have "insert (unat i) S = {..<n}" using Cons.prems(8) by auto
    then have "map the (chunks_of n f (insert (unat i) S)) = map f [0..<n]"
      by (simp add: chunks_of_def)
    then show ?thesis
      using True Cons.prems(3) fragment_insert_step [OF Cons.prems(1) i] cs by simp
  next
    case False
    let ?fp = "\<lparr> fp_chunks = chunks_of n f (insert (unat i) S), fp_remaining = fp_remaining fp - 1,
              fp_length = fp_length fp + length (f (unat i)) \<rparr>"
    have step: "fragment_insert fp i (f (unat i)) = (Inr None, ?fp)"
      using False Cons.prems(3) fragment_insert_step [OF Cons.prems(1) i] cs by simp
    have "fragment_ok ?fp" using fragment_insert_ok [OF Cons.prems(1), of i "f (unat i)"] step by simp
    moreover have "unat j \<noteq> unat i" if "j \<in> set is" for j
      using that Cons.prems(5) by (metis distinct.simps(2) word_unat_eq_iff)
    ultimately have "fst (fragment_inserts ?fp (map (\<lambda>i. (i, f (unat i))) is)) =
        replicate (length is - 1) (Inr None) @ [Inr (Some (concat (map f [0..<n])))]"
      using Cons.prems False by (intro Cons.IH [of _ "insert (unat i) S"]) auto
    then show ?thesis
      using step False
      by (cases "fragment_inserts ?fp (map (\<lambda>i. (i, f (unat i))) is)"; cases "is") auto
  qed
qed simp

section \<open>Properties\<close>

text \<open>C18: the fragments of a packet may arrive in any order: until the last one is there nothing
  is returned, and the last one returns the payloads joined in the order of their indices,
  as long as the whole packet is at most 65535 bytes.\<close>

theorem fragments_reassemble_in_any_order:
  assumes "0 < count" "distinct is" "unat ` set is = {..<unat count}"
    "sum_list (map (length \<circ> f \<circ> unat) is) \<le> MAX_UDP_PAYLOAD"
  shows "fst (fragment_inserts (fragment_new count) (map (\<lambda>i. (i, f (unat i))) is)) =
           replicate (unat count - 1) (Inr None) @ [Inr (Some (concat (map f [0..<unat count])))]"
proof -
  have "inj_on unat (set is)" by (simp add: inj_on_def word_unat_eq_iff)
  then have len: "length is = unat count"
    using assms(2,3) by (metis card_image card_lessThan distinct_card)
  have "fst (fragment_inserts (fragment_new count) (map (\<lambda>i. (i, f (unat i))) is)) =
      replicate (length is - 1) (Inr None) @ [Inr (Some (concat (map f [0..<unat count])))]"
  proof (rule fragment_inserts_any_order [OF fragment_new_ok])
    show "is \<noteq> []" using assms(1) len by (auto simp: word_gt_0 unat_eq_0)
    show "fp_chunks (fragment_new count) = chunks_of (unat count) f {}"
      by (simp add: fragment_new_def chunks_of_def map_replicate_const)
  qed (use assms len in \<open>auto simp: fragment_new_def\<close>)
  then show ?thesis by (simp add: len)
qed

theorem fragments_reassemble_in_any_order_witness:
  "fst (fragment_inserts (fragment_new 3) [(2, [3]), (0, [1]), (1, [2])]) =
     [Inr None, Inr None, Inr (Some [1, 2, 3])]"
proof -
  have "unat ` set [2, 0, 1 :: u8] = {..<unat (3 :: u8)}"
    by (auto simp: lessThan_nat_numeral lessThan_Suc)
  moreover have "replicate 2 x = [x, x]" for x :: "bytes option result"
    by (simp add: numeral_2_eq_2)
  ultimately show ?thesis
    using fragments_reassemble_in_any_order [of 3 "[2, 0, 1]" "\<lambda>i. [of_nat (i + 1)]"]
    by (simp add: upt_rec)
qed

text \<open>C19: reassembly never panics, keeps its invariant (counters match the chunks, at most 65535
  bytes buffered) on every branch, and a rejected fragment (duplicate, out of range, too
  long, late) changes nothing.\<close>

theorem fragment_insert_safe:
  assumes "fragment_ok fp"
  shows "fragment_ok (snd (fragment_insert fp index payload)) \<and>
         fst (fragment_insert fp index payload) \<noteq> Inl Panic \<and>
         (\<forall>e. fst (fragment_insert fp index payload) = Inl e \<longrightarrow> snd (fragment_insert fp index payload) = fp)"
  using assms by (rule fragment_insert_ok)

theorem fragment_insert_safe_witness:
  "fragment_ok (fragment_new 2) \<and> fragment_insert (fragment_new 2) 5 [1] = (Inl OutOfRange, fragment_new 2)"
proof -
  have "fst (fragment_insert (fragment_new 2) 5 [1]) = Inl OutOfRange"
    by (simp add: fragment_insert_def fragment_new_def)
  then show ?thesis
    using fragment_insert_safe [OF fragment_new_ok, of 2 5 "[1]"] fragment_new_ok
    by (simp add: prod_eq_iff)
qed

end
