(* ===== verification/CoreSteps.thy ===== *)
theory CoreSteps
  imports CoreUsers "HOL-Library.Multiset"
begin

text \<open>
  Concurrent use of the core (\<open>src/src/core.rs\<close>). Tasks run the public operations of \<open>ProxyCore\<close>
  and \<open>CoreSession\<close>; a step is one section of one of them: what it does under one lock, or one
  access to an atomic. Any other task can run

  \<^item> between the look-up of a user, the draw of a session number, the copy of the limits and the
    locked section of \<open>open_session\<close>;
  \<^item> between the two tests of \<open>record_traffic\<close> that the session is active, the schedule of the
    limiter, the charge against the quota, the count and the event;
  \<^item> between the locked section of \<open>cancel_sessions\<close>, which empties the table, and the event and
    the cancellation of each of the sessions that were in it;
  \<^item> between the sections of \<open>apply_user_update\<close>, the iterations of the loops of \<open>replace_users\<close>
    and the writes that publish the result.

  Three sections hold accesses that the code makes one after the other, because no property
  depends on what lies between them: the limiter's load of the rate and its schedule, the count of
  the bytes and the load of the other counter for the event, and the write of new limits and of the
  rates of the two limiters. A handle is dropped only when no task borrows it, as the borrow
  checker guarantees. \<open>w_opened\<close> counts the session numbers that were drawn; the properties hold up
  to the moment when the 64-bit counter of the code would wrap around.
\<close>

section \<open>Tasks and worlds\<close>

text \<open>What an administrative operation has still to do. \<open>Clearing\<close> to \<open>Cutting\<close> are the points of
  \<open>cancel_sessions\<close>: before the lock, in the loop over the sessions that were online, and between
  the event and the cancellation of one of them. \<open>Updating\<close>, \<open>Crediting\<close> and \<open>Limiting\<close> are those
  of \<open>apply_user_update\<close>; the last is \<open>set_limits\<close> too.\<close>

datatype admin =
    Finished
  | Building validated "(string \<times> nat) list" "(string \<times> core_user) list" "(string \<times> nat) list"
  | Removing validated "(string \<times> nat) list" "(string \<times> nat) list"
  | Indexing validated
  | Announcing validated
  | Cancelling "nat list"
  | Clearing nat admin
  | Slots string "(u64 \<times> session_slot) list" admin
  | Cutting nat string "(u64 \<times> session_slot) list" admin
  | Updating nat core_user "string set" admin
  | Crediting nat "string set" admin
  | Limiting nat core_user_limits admin

datatype task =
    OpenUser string "ip_addr option"
  | Opening nat "ip_addr option"
  | Numbered nat u64 "ip_addr option"
  | Limited nat u64 core_user_limits "ip_addr option"
  | Entered active_session traffic_direction u64
  | Waiting active_session traffic_direction u64
  | Admitted active_session traffic_direction u64
  | Reserved active_session traffic_direction u64
  | Counted active_session traffic_direction u64 "u64 \<times> u64"
  | Admin admin

record world =
  w_core :: core
  w_handles :: "active_session set"
  w_tasks :: "task multiset"
  w_opened :: nat

definition world_init :: "world \<Rightarrow> bool" where
  "world_init W \<longleftrightarrow> W = \<lparr> w_core = core_empty, w_handles = {}, w_tasks = {#}, w_opened = 0 \<rparr>"

fun task_session :: "task \<Rightarrow> active_session option" where
  "task_session (Entered s dir n) = Some s"
| "task_session (Waiting s dir n) = Some s"
| "task_session (Admitted s dir n) = Some s"
| "task_session (Reserved s dir n) = Some s"
| "task_session (Counted s dir n counters) = Some s"
| "task_session _ = None"

text \<open>The bytes that a task has reserved and not yet counted.\<close>

fun task_pending :: "nat \<Rightarrow> task \<Rightarrow> nat" where
  "task_pending a (Reserved s dir n) = (if as_user s = a then unat n else 0)"
| "task_pending a _ = 0"

definition tasks_pending :: "task multiset \<Rightarrow> nat \<Rightarrow> nat" where
  "tasks_pending T a = sum_mset (image_mset (task_pending a) T)"

text \<open>The session number that a task has drawn and not yet used.\<close>

fun task_numbers :: "task \<Rightarrow> u64 multiset" where
  "task_numbers (Numbered a n source_ip) = {#n#}"
| "task_numbers (Limited a n limits source_ip) = {#n#}"
| "task_numbers _ = {#}"

definition tasks_numbers :: "task multiset \<Rightarrow> u64 multiset" where
  "tasks_numbers T = sum_mset (image_mset task_numbers T)"

text \<open>The controls of the sessions that a running \<open>cancel_sessions\<close> has taken out of a table and
  has still to cancel.\<close>

definition slot_controls :: "(u64 \<times> session_slot) list \<Rightarrow> nat set" where
  "slot_controls slots = slot_control ` snd ` set slots"

fun admin_doomed :: "admin \<Rightarrow> nat set" where
  "admin_doomed (Slots user_id slots k) = slot_controls slots \<union> admin_doomed k"
| "admin_doomed (Cutting control user_id slots k) = insert control (slot_controls slots \<union> admin_doomed k)"
| "admin_doomed (Clearing a k) = admin_doomed k"
| "admin_doomed (Updating a user credentials k) = admin_doomed k"
| "admin_doomed (Crediting a credentials k) = admin_doomed k"
| "admin_doomed (Limiting a limits k) = admin_doomed k"
| "admin_doomed _ = {}"

fun task_doomed :: "task \<Rightarrow> nat set" where
  "task_doomed (Admin k) = admin_doomed k"
| "task_doomed _ = {}"

definition tasks_doomed :: "task multiset \<Rightarrow> nat set" where
  "tasks_doomed T = (\<Union>t \<in> set_mset T. task_doomed t)"

section \<open>Steps\<close>

text \<open>\<open>authenticate_password_hash_from\<close> looks up a credential and continues as the first rule
  does; \<open>open_session\<close> starts with the second.\<close>

inductive core_step ::
  "(bytes \<Rightarrow> bytes) \<Rightarrow> (u64 \<Rightarrow> u64 \<Rightarrow> nat) \<Rightarrow> world \<Rightarrow> world \<Rightarrow> bool"
  for sha :: "bytes \<Rightarrow> bytes" and dur :: "u64 \<Rightarrow> u64 \<Rightarrow> nat" where
  authenticate:
  "map_of (core_cred_users c) (trim credential) = Some user_id \<Longrightarrow>
   core_step sha dur \<lparr> w_core = c, w_handles = H, w_tasks = T, w_opened = k \<rparr>
     \<lparr> w_core = c, w_handles = H, w_tasks = add_mset (OpenUser user_id source_ip) T, w_opened = k \<rparr>"
| open_user:
  "core_step sha dur \<lparr> w_core = c, w_handles = H, w_tasks = T, w_opened = k \<rparr>
     \<lparr> w_core = c, w_handles = H, w_tasks = add_mset (OpenUser user_id source_ip) T, w_opened = k \<rparr>"
| find_user:
  "map_of (core_users c) user_id = Some a \<Longrightarrow>
   core_step sha dur \<lparr> w_core = c, w_handles = H, w_tasks = add_mset (OpenUser user_id source_ip) T, w_opened = k \<rparr>
     \<lparr> w_core = c, w_handles = H, w_tasks = add_mset (Opening a source_ip) T, w_opened = k \<rparr>"
| find_user_fail:
  "map_of (core_users c) user_id = None \<Longrightarrow>
   core_step sha dur \<lparr> w_core = c, w_handles = H, w_tasks = add_mset (OpenUser user_id source_ip) T, w_opened = k \<rparr>
     \<lparr> w_core = c, w_handles = H, w_tasks = T, w_opened = k \<rparr>"
| draw_number:
  "core_step sha dur \<lparr> w_core = c, w_handles = H, w_tasks = add_mset (Opening a source_ip) T, w_opened = k \<rparr>
     \<lparr> w_core = c\<lparr> core_session_seq := core_session_seq c + 1 \<rparr>, w_handles = H, w_tasks = add_mset (Numbered a (core_session_seq c + 1) source_ip) T, w_opened = Suc k \<rparr>"
| copy_limits:
  "core_step sha dur \<lparr> w_core = c, w_handles = H, w_tasks = add_mset (Numbered a n source_ip) T, w_opened = k \<rparr>
     \<lparr> w_core = c, w_handles = H, w_tasks = add_mset (Limited a n (us_limits (core_heap c ! a)) source_ip) T, w_opened = k \<rparr>"
| open_session:
  "open_numbered a n limits source_ip c = (r, c') \<Longrightarrow>
   core_step sha dur \<lparr> w_core = c, w_handles = H, w_tasks = add_mset (Limited a n limits source_ip) T, w_opened = k \<rparr>
     \<lparr> w_core = c', w_handles = (case r of Inr (Some s) \<Rightarrow> insert s H | _ \<Rightarrow> H), w_tasks = T, w_opened = k \<rparr>"
| drop_session:
  "s \<in> H \<Longrightarrow> \<forall>t \<in># T. task_session t \<noteq> Some s \<Longrightarrow>
   core_step sha dur \<lparr> w_core = c, w_handles = H, w_tasks = T, w_opened = k \<rparr>
     \<lparr> w_core = drop_session s c, w_handles = H - {s}, w_tasks = T, w_opened = k \<rparr>"
| enter:
  "s \<in> H \<Longrightarrow> n \<noteq> 0 \<Longrightarrow> ensure_active c (as_control s) = Inr () \<Longrightarrow>
   core_step sha dur \<lparr> w_core = c, w_handles = H, w_tasks = T, w_opened = k \<rparr>
     \<lparr> w_core = c, w_handles = H, w_tasks = add_mset (Entered s dir n) T, w_opened = k \<rparr>"
| schedule:
  "traffic_schedule dur now s dir n c = (wait, c') \<Longrightarrow>
   core_step sha dur \<lparr> w_core = c, w_handles = H, w_tasks = add_mset (Entered s dir n) T, w_opened = k \<rparr>
     \<lparr> w_core = c', w_handles = H, w_tasks = add_mset (Waiting s dir n) T, w_opened = k \<rparr>"
| abandon:
  "core_step sha dur \<lparr> w_core = c, w_handles = H, w_tasks = add_mset (Waiting s dir n) T, w_opened = k \<rparr>
     \<lparr> w_core = c, w_handles = H, w_tasks = T, w_opened = k \<rparr>"
| admit:
  "ensure_active c (as_control s) = Inr () \<Longrightarrow>
   core_step sha dur \<lparr> w_core = c, w_handles = H, w_tasks = add_mset (Waiting s dir n) T, w_opened = k \<rparr>
     \<lparr> w_core = c, w_handles = H, w_tasks = add_mset (Admitted s dir n) T, w_opened = k \<rparr>"
| charge:
  "traffic_charge s n c = Inr c' \<Longrightarrow>
   core_step sha dur \<lparr> w_core = c, w_handles = H, w_tasks = add_mset (Admitted s dir n) T, w_opened = k \<rparr>
     \<lparr> w_core = c', w_handles = H, w_tasks = add_mset (Reserved s dir n) T, w_opened = k \<rparr>"
| charge_fail:
  "traffic_charge s n c = Inl e \<Longrightarrow>
   core_step sha dur \<lparr> w_core = c, w_handles = H, w_tasks = add_mset (Admitted s dir n) T, w_opened = k \<rparr>
     \<lparr> w_core = c, w_handles = H, w_tasks = T, w_opened = k \<rparr>"
| count:
  "traffic_count s dir n c = (counters, c') \<Longrightarrow>
   core_step sha dur \<lparr> w_core = c, w_handles = H, w_tasks = add_mset (Reserved s dir n) T, w_opened = k \<rparr>
     \<lparr> w_core = c', w_handles = H, w_tasks = add_mset (Counted s dir n counters) T, w_opened = k \<rparr>"
| emit:
  "core_step sha dur \<lparr> w_core = c, w_handles = H, w_tasks = add_mset (Counted s dir n counters) T, w_opened = k \<rparr>
     \<lparr> w_core = traffic_emit s dir n counters c, w_handles = H, w_tasks = T, w_opened = k \<rparr>"
| replace:
  "validate_users sha users validated_init = Inr v \<Longrightarrow>
   core_step sha dur \<lparr> w_core = c, w_handles = H, w_tasks = T, w_opened = k \<rparr>
     \<lparr> w_core = c, w_handles = H, w_tasks = add_mset (Admin (Building v (core_users c) (v_users_by_id v) [])) T, w_opened = k \<rparr>"
| build_new:
  "map_of cur (cu_id u) = None \<Longrightarrow>
   core_step sha dur \<lparr> w_core = c, w_handles = H, w_tasks = add_mset (Admin (Building v cur ((i, u) # es) m)) T, w_opened = k \<rparr>
     \<lparr> w_core = c\<lparr> core_heap := core_heap c @ [user_state_new u (the (v_credentials_by_id v i)) now] \<rparr>, w_handles = H, w_tasks = add_mset (Admin (Building v cur es (AList.update (cu_id u) (length (core_heap c)) m))) T, w_opened = k \<rparr>"
| build_known:
  "map_of cur (cu_id u) = Some a \<Longrightarrow>
   core_step sha dur \<lparr> w_core = c, w_handles = H, w_tasks = add_mset (Admin (Building v cur ((i, u) # es) m)) T, w_opened = k \<rparr>
     \<lparr> w_core = c, w_handles = H, w_tasks = add_mset (Admin (Updating a u (the (v_credentials_by_id v i)) (Building v cur es (AList.update (cu_id u) a m)))) T, w_opened = k \<rparr>"
| built:
  "core_step sha dur \<lparr> w_core = c, w_handles = H, w_tasks = add_mset (Admin (Building v cur [] m)) T, w_opened = k \<rparr>
     \<lparr> w_core = c, w_handles = H, w_tasks = add_mset (Admin (Removing v cur m)) T, w_opened = k \<rparr>"
| keep:
  "i \<in> fst ` set (v_users_by_id v) \<Longrightarrow>
   core_step sha dur \<lparr> w_core = c, w_handles = H, w_tasks = add_mset (Admin (Removing v ((i, a) # cur) m)) T, w_opened = k \<rparr>
     \<lparr> w_core = c, w_handles = H, w_tasks = add_mset (Admin (Removing v cur m)) T, w_opened = k \<rparr>"
| remove:
  "i \<notin> fst ` set (v_users_by_id v) \<Longrightarrow>
   core_step sha dur \<lparr> w_core = c, w_handles = H, w_tasks = add_mset (Admin (Removing v ((i, a) # cur) m)) T, w_opened = k \<rparr>
     \<lparr> w_core = c, w_handles = H, w_tasks = add_mset (Admin (Clearing a (Removing v cur m))) T, w_opened = k \<rparr>"
| install:
  "core_step sha dur \<lparr> w_core = c, w_handles = H, w_tasks = add_mset (Admin (Removing v [] m)) T, w_opened = k \<rparr>
     \<lparr> w_core = c\<lparr> core_users := m \<rparr>, w_handles = H, w_tasks = add_mset (Admin (Indexing v)) T, w_opened = k \<rparr>"
| index:
  "core_step sha dur \<lparr> w_core = c, w_handles = H, w_tasks = add_mset (Admin (Indexing v)) T, w_opened = k \<rparr>
     \<lparr> w_core = c\<lparr> core_cred_users := v_credential_map v, core_password_hashes := v_password_hashes v \<rparr>, w_handles = H, w_tasks = add_mset (Admin (Announcing v)) T, w_opened = k \<rparr>"
| announce:
  "core_step sha dur \<lparr> w_core = c, w_handles = H, w_tasks = add_mset (Admin (Announcing v)) T, w_opened = k \<rparr>
     \<lparr> w_core = core_send (UsersReplaced (v_event_user_ids v)) c, w_handles = H, w_tasks = add_mset (Admin Finished) T, w_opened = k \<rparr>"
| cancel_user:
  "map_of (core_users c) user_id = Some a \<Longrightarrow>
   core_step sha dur \<lparr> w_core = c, w_handles = H, w_tasks = T, w_opened = k \<rparr>
     \<lparr> w_core = c, w_handles = H, w_tasks = add_mset (Admin (Cancelling [a])) T, w_opened = k \<rparr>"
| cancel_all:
  "core_step sha dur \<lparr> w_core = c, w_handles = H, w_tasks = T, w_opened = k \<rparr>
     \<lparr> w_core = c, w_handles = H, w_tasks = add_mset (Admin (Cancelling (map snd (core_users c)))) T, w_opened = k \<rparr>"
| cancel_next:
  "core_step sha dur \<lparr> w_core = c, w_handles = H, w_tasks = add_mset (Admin (Cancelling (a # as))) T, w_opened = k \<rparr>
     \<lparr> w_core = c, w_handles = H, w_tasks = add_mset (Admin (Clearing a (Cancelling as))) T, w_opened = k \<rparr>"
| cancel_done:
  "core_step sha dur \<lparr> w_core = c, w_handles = H, w_tasks = add_mset (Admin (Cancelling [])) T, w_opened = k \<rparr>
     \<lparr> w_core = c, w_handles = H, w_tasks = add_mset (Admin Finished) T, w_opened = k \<rparr>"
| limit_user:
  "map_of (core_users c) user_id = Some a \<Longrightarrow>
   core_step sha dur \<lparr> w_core = c, w_handles = H, w_tasks = T, w_opened = k \<rparr>
     \<lparr> w_core = c, w_handles = H, w_tasks = add_mset (Admin (Limiting a limits Finished)) T, w_opened = k \<rparr>"
| clear:
  "user_clear_sessions (core_heap c ! a) = (slots, us) \<Longrightarrow>
   core_step sha dur \<lparr> w_core = c, w_handles = H, w_tasks = add_mset (Admin (Clearing a k0)) T, w_opened = k \<rparr>
     \<lparr> w_core = core_put a us c, w_handles = H, w_tasks = add_mset (Admin (Slots (us_id us) slots k0)) T, w_opened = k \<rparr>"
| slot_event:
  "core_step sha dur \<lparr> w_core = c, w_handles = H, w_tasks = add_mset (Admin (Slots user_id ((n, slot) # slots) k0)) T, w_opened = k \<rparr>
     \<lparr> w_core = core_send (SessionCancelled user_id n (slot_source_ip slot)) c, w_handles = H, w_tasks = add_mset (Admin (Cutting (slot_control slot) user_id slots k0)) T, w_opened = k \<rparr>"
| slot_cancel:
  "core_step sha dur \<lparr> w_core = c, w_handles = H, w_tasks = add_mset (Admin (Cutting control user_id slots k0)) T, w_opened = k \<rparr>
     \<lparr> w_core = cancel_control control c, w_handles = H, w_tasks = add_mset (Admin (Slots user_id slots k0)) T, w_opened = k \<rparr>"
| slots_done:
  "core_step sha dur \<lparr> w_core = c, w_handles = H, w_tasks = add_mset (Admin (Slots user_id [] k0)) T, w_opened = k \<rparr>
     \<lparr> w_core = c, w_handles = H, w_tasks = add_mset (Admin k0) T, w_opened = k \<rparr>"
| same_credentials:
  "us_credentials (core_heap c ! a) = credentials \<Longrightarrow>
   core_step sha dur \<lparr> w_core = c, w_handles = H, w_tasks = add_mset (Admin (Updating a user credentials k0)) T, w_opened = k \<rparr>
     \<lparr> w_core = c, w_handles = H, w_tasks = add_mset (Admin (Limiting a (limits_of user) k0)) T, w_opened = k \<rparr>"
| new_credentials:
  "us_credentials (core_heap c ! a) \<noteq> credentials \<Longrightarrow>
   core_step sha dur \<lparr> w_core = c, w_handles = H, w_tasks = add_mset (Admin (Updating a user credentials k0)) T, w_opened = k \<rparr>
     \<lparr> w_core = c, w_handles = H, w_tasks = add_mset (Admin (Clearing a (Crediting a credentials (Limiting a (limits_of user) k0)))) T, w_opened = k \<rparr>"
| credit:
  "core_step sha dur \<lparr> w_core = c, w_handles = H, w_tasks = add_mset (Admin (Crediting a credentials k0)) T, w_opened = k \<rparr>
     \<lparr> w_core = core_put a ((core_heap c ! a)\<lparr> us_credentials := credentials \<rparr>) c, w_handles = H, w_tasks = add_mset (Admin k0) T, w_opened = k \<rparr>"
| limit:
  "core_step sha dur \<lparr> w_core = c, w_handles = H, w_tasks = add_mset (Admin (Limiting a limits k0)) T, w_opened = k \<rparr>
     \<lparr> w_core = core_put a (user_install_limits limits now (core_heap c ! a)) c, w_handles = H, w_tasks = add_mset (Admin k0) T, w_opened = k \<rparr>"
| finish:
  "core_step sha dur \<lparr> w_core = c, w_handles = H, w_tasks = add_mset (Admin Finished) T, w_opened = k \<rparr>
     \<lparr> w_core = c, w_handles = H, w_tasks = T, w_opened = k \<rparr>"
| subscribe:
  "subscribe_events c = (rx, c') \<Longrightarrow>
   core_step sha dur \<lparr> w_core = c, w_handles = H, w_tasks = T, w_opened = k \<rparr>
     \<lparr> w_core = c', w_handles = H, w_tasks = T, w_opened = k \<rparr>"
| unsubscribe:
  "core_step sha dur \<lparr> w_core = c, w_handles = H, w_tasks = T, w_opened = k \<rparr>
     \<lparr> w_core = c\<lparr> core_events := chan_drop rx (core_events c) \<rparr>, w_handles = H, w_tasks = T, w_opened = k \<rparr>"

section \<open>Sessions that are being cancelled\<close>

text \<open>The core in which the sessions of \<open>D\<close> are already cancelled. The invariant of \<open>CoreInv\<close> holds
  of it: seen so, a running \<open>cancel_sessions\<close> is done the moment it has emptied the table.\<close>

definition doom :: "nat set \<Rightarrow> core \<Rightarrow> core" where
  "doom D c = c\<lparr> core_controls := map (\<lambda>k. core_controls c ! k \<or> k \<in> D) [0..<length (core_controls c)] \<rparr>"

lemma doom_sel [simp]:
  "core_users (doom D c) = core_users c" "core_session_seq (doom D c) = core_session_seq c"
  "core_heap (doom D c) = core_heap c" "core_events (doom D c) = core_events c"
  "length (core_controls (doom D c)) = length (core_controls c)"
  "k < length (core_controls c) \<Longrightarrow> core_controls (doom D c) ! k \<longleftrightarrow> core_controls c ! k \<or> k \<in> D"
  by (simp_all add: doom_def)

lemma doom_empty [simp]: "doom {} c = c"
  by (simp add: doom_def map_nth)

lemma doom_core:
  "core_put a us (doom D c) = doom D (core_put a us c)" "core_send ev (doom D c) = doom D (core_send ev c)"
  "(doom D c)\<lparr> core_heap := h \<rparr> = doom D (c\<lparr> core_heap := h \<rparr>)"
  "(doom D c)\<lparr> core_users := m \<rparr> = doom D (c\<lparr> core_users := m \<rparr>)"
  "(doom D c)\<lparr> core_events := b \<rparr> = doom D (c\<lparr> core_events := b \<rparr>)"
  "(doom D c)\<lparr> core_session_seq := n \<rparr> = doom D (c\<lparr> core_session_seq := n \<rparr>)"
  by (simp_all add: doom_def core_put_def core_send_def)

lemma doom_index:
  "doom D (c\<lparr> core_cred_users := x, core_password_hashes := y \<rparr>) =
     (doom D c)\<lparr> core_cred_users := x, core_password_hashes := y \<rparr>"
  by (simp add: doom_def)

lemma doom_fold_send: "fold core_send evs (doom D c) = doom D (fold core_send evs c)"
  by (induction evs arbitrary: c) (simp_all add: doom_core)

lemma doom_new_control:
  assumes "length (core_controls c) \<notin> D"
  shows "doom D (c\<lparr> core_controls := core_controls c @ [False] \<rparr>) =
    (doom D c)\<lparr> core_controls := core_controls (doom D c) @ [False] \<rparr>"
  using assms by (simp add: doom_def nth_append)

lemma doom_cancel_control: "doom D (cancel_control k c) = doom (insert k D) c"
  by (rule core.equality) (auto simp: doom_def cancel_control_def nth_update_le)

text \<open>The invariant looks at the heap, the controls, the session counter and the event bus.\<close>

lemma core_inv_cong:
  assumes "core_inv H p c" "core_heap c' = core_heap c" "core_controls c' = core_controls c"
    "core_session_seq c' = core_session_seq c" "bus_ok (core_events c')"
  shows "core_inv H p c'"
  using assms by (simp add: core_inv_def registered_def)

lemma core_inv_clear:
  assumes inv: "core_inv H p (doom D c)" and a: "a < length (core_heap c)"
    and clear: "user_clear_sessions (core_heap c ! a) = (slots, us)"
  shows "core_inv H p (doom (slot_controls slots \<union> D) (core_put a us c))"
proof (rule core_inv_cong [OF core_inv_cancel_sessions [OF inv]])
  show "a < length (core_heap (doom D c))" using a by simp
  show "core_heap (doom (slot_controls slots \<union> D) (core_put a us c)) = core_heap (cancel_sessions a (doom D c))"
    using clear by simp
  have slots: "slots = us_sessions (core_heap c ! a)" using clear by (simp add: user_clear_sessions_def)
  show "core_controls (doom (slot_controls slots \<union> D) (core_put a us c)) =
      core_controls (cancel_sessions a (doom D c))"
    by (rule nth_equalityI) (auto simp: cancel_sessions_controls slots slot_controls_def)
qed (use core_inv_bus [OF inv] in simp_all)

section \<open>Invariant\<close>

text \<open>Objects stay, with their identity.\<close>

definition grows :: "core \<Rightarrow> core \<Rightarrow> bool" where
  "grows c c' \<longleftrightarrow>
     length (core_heap c) \<le> length (core_heap c') \<and>
     length (core_controls c) \<le> length (core_controls c') \<and>
     (\<forall>b < length (core_heap c). us_id (core_heap c' ! b) = us_id (core_heap c ! b))"

lemma grows_same_heap [simp]:
  "core_heap c' = core_heap c \<Longrightarrow> length (core_controls c') = length (core_controls c) \<Longrightarrow> grows c c'"
  by (simp add: grows_def)

lemma grows_put: "us_id us = us_id (core_heap c ! a) \<Longrightarrow> grows c (core_put a us c)"
  by (simp add: grows_def nth_update_le)

definition entries_ok :: "core \<Rightarrow> (string \<times> nat) list \<Rightarrow> bool" where
  "entries_ok c m \<longleftrightarrow> (\<forall>(i, a) \<in> set m. a < length (core_heap c) \<and> us_id (core_heap c ! a) = i)"

lemma entries_ok_grows: "entries_ok c m \<Longrightarrow> grows c c' \<Longrightarrow> entries_ok c' m"
  by (fastforce simp: entries_ok_def grows_def)

lemma entries_ok_update:
  assumes "entries_ok c m" "a < length (core_heap c)" "us_id (core_heap c ! a) = i"
  shows "entries_ok c (AList.update i a m)"
  using assms by (induction m) (auto simp: entries_ok_def)

lemma users_ok_entries: "users_ok c \<longleftrightarrow> distinct (map fst (core_users c)) \<and> entries_ok c (core_users c)"
  by (simp add: users_ok_def entries_ok_def)

text \<open>The addresses, identities and controls that an operation carries along exist.\<close>

fun admin_ok :: "core \<Rightarrow> admin \<Rightarrow> bool" where
  "admin_ok c (Building v cur es m) \<longleftrightarrow>
     entries_ok c cur \<and> entries_ok c m \<and> distinct (map fst m) \<and> (\<forall>(i, u) \<in> set es. cu_id u = i)"
| "admin_ok c (Removing v cur m) \<longleftrightarrow> entries_ok c cur \<and> entries_ok c m \<and> distinct (map fst m)"
| "admin_ok c (Cancelling as) \<longleftrightarrow> (\<forall>a \<in> set as. a < length (core_heap c))"
| "admin_ok c (Clearing a k) \<longleftrightarrow> a < length (core_heap c) \<and> admin_ok c k"
| "admin_ok c (Slots user_id slots k) \<longleftrightarrow>
     (\<forall>x \<in> slot_controls slots. x < length (core_controls c)) \<and> admin_ok c k"
| "admin_ok c (Cutting control user_id slots k) \<longleftrightarrow>
     control < length (core_controls c) \<and>
     (\<forall>x \<in> slot_controls slots. x < length (core_controls c)) \<and> admin_ok c k"
| "admin_ok c (Updating a user credentials k) \<longleftrightarrow> a < length (core_heap c) \<and> admin_ok c k"
| "admin_ok c (Crediting a credentials k) \<longleftrightarrow> a < length (core_heap c) \<and> admin_ok c k"
| "admin_ok c (Limiting a limits k) \<longleftrightarrow> a < length (core_heap c) \<and> admin_ok c k"
| "admin_ok c _ \<longleftrightarrow> True"

fun task_ok :: "active_session set \<Rightarrow> core \<Rightarrow> task \<Rightarrow> bool" where
  "task_ok H c (OpenUser user_id source_ip) \<longleftrightarrow> True"
| "task_ok H c (Opening a source_ip) \<longleftrightarrow> a < length (core_heap c)"
| "task_ok H c (Numbered a n source_ip) \<longleftrightarrow> a < length (core_heap c)"
| "task_ok H c (Limited a n limits source_ip) \<longleftrightarrow> a < length (core_heap c)"
| "task_ok H c (Entered s dir n) \<longleftrightarrow> s \<in> H"
| "task_ok H c (Waiting s dir n) \<longleftrightarrow> s \<in> H"
| "task_ok H c (Admitted s dir n) \<longleftrightarrow> s \<in> H"
| "task_ok H c (Reserved s dir n) \<longleftrightarrow> s \<in> H"
| "task_ok H c (Counted s dir n counters) \<longleftrightarrow> s \<in> H"
| "task_ok H c (Admin k) \<longleftrightarrow> admin_ok c k"

definition tasks_ok :: "active_session set \<Rightarrow> core \<Rightarrow> task multiset \<Rightarrow> bool" where
  "tasks_ok H c T \<longleftrightarrow> (\<forall>t \<in># T. task_ok H c t)"

lemma tasks_ok_add [simp]: "tasks_ok H c (add_mset t T) \<longleftrightarrow> task_ok H c t \<and> tasks_ok H c T"
  by (auto simp: tasks_ok_def)

lemma admin_ok_grows: "admin_ok c k \<Longrightarrow> grows c c' \<Longrightarrow> admin_ok c' k"
proof (induction k)
  case (Building v cur es m) then show ?case using entries_ok_grows by auto
next
  case (Removing v cur m) then show ?case using entries_ok_grows by auto
qed (auto simp: grows_def)

lemma task_ok_grows:
  assumes "task_ok H c t" "grows c c'" "\<forall>s. task_session t = Some s \<longrightarrow> s \<in> H'"
  shows "task_ok H' c' t"
  using assms admin_ok_grows by (cases t) (auto simp: grows_def)

lemma task_session_ok: "task_ok H c t \<Longrightarrow> task_session t = Some s \<Longrightarrow> s \<in> H"
  by (cases t) auto

lemma tasks_ok_grows:
  assumes "tasks_ok H c T" "grows c c'" "H \<subseteq> H'"
  shows "tasks_ok H' c' T"
  unfolding tasks_ok_def
proof
  fix t assume "t \<in># T"
  then have t: "task_ok H c t" using assms(1) by (simp add: tasks_ok_def)
  then show "task_ok H' c' t"
    by (rule task_ok_grows [OF _ assms(2)]) (use task_session_ok [OF t] assms(3) in auto)
qed

lemma tasks_ok_drop:
  assumes "tasks_ok H c T" "grows c c'" "\<forall>t \<in># T. task_session t \<noteq> Some s"
  shows "tasks_ok (H - {s}) c' T"
  unfolding tasks_ok_def
proof
  fix t assume t: "t \<in># T"
  then have "task_ok H c t" using assms(1) by (simp add: tasks_ok_def)
  then show "task_ok (H - {s}) c' t"
    by (rule task_ok_grows [OF _ assms(2)]) (use task_session_ok [of H c t] \<open>task_ok H c t\<close> assms(3) t in auto)
qed

lemma admin_doomed_ok: "admin_ok c k \<Longrightarrow> x \<in> admin_doomed k \<Longrightarrow> x < length (core_controls c)"
  by (induction k) auto

lemma tasks_doomed_ok:
  assumes "tasks_ok H c T" "x \<in> tasks_doomed T"
  shows "x < length (core_controls c)"
proof -
  obtain t where t: "t \<in># T" "x \<in> task_doomed t" using assms(2) by (auto simp: tasks_doomed_def)
  then have "task_ok H c t" using assms(1) by (simp add: tasks_ok_def)
  then show ?thesis using t(2) admin_doomed_ok by (cases t) auto
qed

lemma tasks_add [simp]:
  "tasks_pending (add_mset t T) = (\<lambda>a. task_pending a t + tasks_pending T a)"
  "tasks_numbers (add_mset t T) = task_numbers t + tasks_numbers T"
  "tasks_doomed (add_mset t T) = task_doomed t \<union> tasks_doomed T"
  by (simp_all add: tasks_pending_def tasks_numbers_def tasks_doomed_def fun_eq_iff)

lemma tasks_empty [simp]:
  "tasks_pending {#} = (\<lambda>_. 0)" "tasks_numbers {#} = {#}" "tasks_doomed {#} = {}"
  by (simp_all add: tasks_pending_def tasks_numbers_def tasks_doomed_def fun_eq_iff)

text \<open>Session numbers that were drawn are used once.\<close>

definition numbers_ok :: "active_session set \<Rightarrow> u64 \<Rightarrow> u64 multiset \<Rightarrow> bool" where
  "numbers_ok H seq N \<longleftrightarrow> (\<forall>n \<in># N. n \<le> seq \<and> (\<forall>s \<in> H. as_session_id s \<noteq> n) \<and> count N n = 1)"

lemma numbers_ok_draw:
  assumes "numbers_ok H seq N" "\<forall>s \<in> H. as_session_id s \<le> seq" "seq + 1 \<noteq> 0"
  shows "numbers_ok H (seq + 1) (add_mset (seq + 1) N)"
proof -
  have less: "x < seq + 1" if "x \<le> seq" for x using le_less_trans [OF that seq_increases [OF assms(3)]] .
  then have "seq + 1 \<notin># N" using assms(1) unfolding numbers_ok_def by (metis less_irrefl)
  moreover have "\<forall>s \<in> H. as_session_id s \<noteq> seq + 1" using assms(2) less by (metis less_irrefl)
  ultimately show ?thesis
    using assms(1) less unfolding numbers_ok_def by (auto simp: not_in_iff less_imp_le)
qed

lemma numbers_ok_used:
  assumes "numbers_ok H seq (add_mset n N)"
  shows "n \<le> seq" "\<forall>s \<in> H. as_session_id s \<noteq> n" "numbers_ok H seq N"
    "as_session_id s = n \<Longrightarrow> numbers_ok (insert s H) seq N"
proof -
  have n: "n \<notin># N" using assms by (auto simp: numbers_ok_def not_in_iff)
  then show "n \<le> seq" "\<forall>s \<in> H. as_session_id s \<noteq> n" "numbers_ok H seq N"
    "as_session_id s = n \<Longrightarrow> numbers_ok (insert s H) seq N"
    using assms unfolding numbers_ok_def by (auto split: if_splits)
qed

lemma numbers_ok_subset: "numbers_ok H seq N \<Longrightarrow> H' \<subseteq> H \<Longrightarrow> numbers_ok H' seq N"
  by (auto simp: numbers_ok_def)

definition world_ok :: "world \<Rightarrow> bool" where
  "world_ok W \<longleftrightarrow>
     core_inv (w_handles W) (tasks_pending (w_tasks W)) (doom (tasks_doomed (w_tasks W)) (w_core W)) \<and>
     users_ok (w_core W) \<and> tasks_ok (w_handles W) (w_core W) (w_tasks W) \<and>
     numbers_ok (w_handles W) (core_session_seq (w_core W)) (tasks_numbers (w_tasks W)) \<and>
     unat (core_session_seq (w_core W)) = w_opened W"

definition world_inv :: "world \<Rightarrow> bool" where
  "world_inv W \<longleftrightarrow> (w_opened W < 2 ^ 64 \<longrightarrow> world_ok W)"

lemma tasks_pending_reserved:
  "tasks_pending (add_mset (Reserved s dir n) T) =
     (tasks_pending T)(as_user s := tasks_pending T (as_user s) + unat n)"
  by (auto simp: fun_eq_iff)

lemma tasks_pending_counted:
  "tasks_pending T = (tasks_pending (add_mset (Reserved s dir n) T))
     (as_user s := tasks_pending (add_mset (Reserved s dir n) T) (as_user s) - unat n)"
  by (auto simp: fun_eq_iff)

lemma tasks_pending_fresh:
  assumes "core_inv H p c" "tasks_ok H c' T" "length (core_heap c) \<le> a"
  shows "tasks_pending T a = 0"
proof -
  have "task_pending a t = 0" if "t \<in># T" for t
  proof -
    have "task_ok H c' t" using assms(2) that by (simp add: tasks_ok_def)
    then show ?thesis using core_inv_handle(1) [OF assms(1)] assms(3) by (cases t) fastforce+
  qed
  then show ?thesis by (simp add: tasks_pending_def)
qed

section \<open>Every step keeps the invariant\<close>

lemma world_okI:
  assumes "core_inv H (tasks_pending T) (doom (tasks_doomed T) c)" "users_ok c" "tasks_ok H c T"
    "numbers_ok H (core_session_seq c) (tasks_numbers T)" "unat (core_session_seq c) = k"
  shows "world_ok \<lparr> w_core = c, w_handles = H, w_tasks = T, w_opened = k \<rparr>"
  using assms by (simp add: world_ok_def)

lemma world_okD:
  assumes "world_ok \<lparr> w_core = c, w_handles = H, w_tasks = T, w_opened = k \<rparr>"
  shows "core_inv H (tasks_pending T) (doom (tasks_doomed T) c)" "users_ok c" "tasks_ok H c T"
    "numbers_ok H (core_session_seq c) (tasks_numbers T)" "unat (core_session_seq c) = k"
  using assms by (simp_all add: world_ok_def)

text \<open>A step of the tasks alone, and a section that leaves the table of users, the handles and the
  session counter alone.\<close>

lemma world_ok_tasks:
  assumes "world_ok \<lparr> w_core = c, w_handles = H, w_tasks = T0, w_opened = k \<rparr>"
    "tasks_pending T = tasks_pending T0" "tasks_doomed T = tasks_doomed T0"
    "tasks_numbers T = tasks_numbers T0" "tasks_ok H c T"
  shows "world_ok \<lparr> w_core = c, w_handles = H, w_tasks = T, w_opened = k \<rparr>"
  using assms by (simp add: world_ok_def)

lemma world_ok_section:
  assumes W: "world_ok \<lparr> w_core = c, w_handles = H, w_tasks = T0, w_opened = k \<rparr>"
    and "core_inv H (tasks_pending T) (doom (tasks_doomed T) c')" "grows c c'" "core_users c' = core_users c"
    "core_session_seq c' = core_session_seq c" "tasks_ok H c' T" "tasks_numbers T = tasks_numbers T0"
  shows "world_ok \<lparr> w_core = c', w_handles = H, w_tasks = T, w_opened = k \<rparr>"
  using world_okD [OF W] assms(2-) entries_ok_grows
  by (intro world_okI) (auto simp: users_ok_entries)

lemma users_entries:
  assumes "users_ok c"
  shows "entries_ok c (core_users c)" "distinct (map fst (core_users c))"
    "map_of (core_users c) i = Some a \<Longrightarrow> a < length (core_heap c)"
    "\<forall>a \<in> snd ` set (core_users c). a < length (core_heap c)"
  using assms by (auto simp: users_ok_entries entries_ok_def dest: map_of_SomeD)

text \<open>A section that puts back a user state with the same account and sessions.\<close>

lemma world_ok_put:
  assumes W0: "world_ok \<lparr> w_core = c, w_handles = H, w_tasks = add_mset t T, w_opened = k \<rparr>"
    and "a < length (core_heap c)" "us_sessions us = us_sessions (core_heap c ! a)"
    "same_account (core_heap c ! a) us" "user_ok (core_heap c ! a) \<Longrightarrow> user_ok us"
    "\<And>b. task_pending b t' = task_pending b t" "task_doomed t' = task_doomed t"
    "task_numbers t' = task_numbers t" "task_ok H c t'"
  shows "world_ok \<lparr> w_core = core_put a us c, w_handles = H, w_tasks = add_mset t' T, w_opened = k \<rparr>"
proof (rule world_ok_section [OF W0])
  note W = world_okD [OF W0]
  have g: "grows c (core_put a us c)" using assms(4) by (intro grows_put) (simp add: same_account_def)
  show "grows c (core_put a us c)" by (rule g)
  show "tasks_ok H (core_put a us c) (add_mset t' T)"
    by (rule tasks_ok_grows [OF _ g order_refl]) (use W(3) assms(9) in simp)
  have "core_inv H (tasks_pending (add_mset t' T)) (core_put a us (doom (tasks_doomed (add_mset t' T)) c))"
    using W(1) assms core_inv_user [OF W(1), of a]
    by (intro core_inv_put) (auto simp: same_account_def)
  then show "core_inv H (tasks_pending (add_mset t' T)) (doom (tasks_doomed (add_mset t' T)) (core_put a us c))"
    by (simp add: doom_core)
qed (use assms in simp_all)

text \<open>The sections of traffic accounting.\<close>

lemma traffic_schedule_sel:
  assumes "traffic_schedule dur now s dir n c = (w, c')"
  shows "grows c c'" "core_users c' = core_users c" "core_session_seq c' = core_session_seq c"
  using assms by (auto simp: traffic_schedule_def Let_def grows_put split: traffic_direction.splits prod.splits)

lemma traffic_charge_sel:
  assumes "traffic_charge s n c = Inr c'"
  shows "grows c c'" "core_users c' = core_users c" "core_session_seq c' = core_session_seq c"
  using assms user_reserve_quota_Inr [of "core_heap c ! as_user s" n]
  by (auto simp: traffic_charge_def and_then_Inr_iff grows_put)

lemma traffic_count_sel:
  assumes "traffic_count s dir n c = (counters, c')"
  shows "grows c c'" "core_users c' = core_users c" "core_session_seq c' = core_session_seq c"
  using assms by (cases dir; auto simp: traffic_count_def grows_put)+

lemma doom_traffic:
  "traffic_schedule dur now s dir n c = (w, c') \<Longrightarrow> traffic_schedule dur now s dir n (doom D c) = (w, doom D c')"
  "traffic_charge s n c = Inr c' \<Longrightarrow> traffic_charge s n (doom D c) = Inr (doom D c')"
  "traffic_count s dir n c = (counters, c') \<Longrightarrow> traffic_count s dir n (doom D c) = (counters, doom D c')"
  "traffic_emit s dir n counters (doom D c) = doom D (traffic_emit s dir n counters c)"
  by (auto simp: traffic_schedule_def traffic_charge_def traffic_count_def traffic_emit_def and_then_Inr_iff
      Let_def doom_core split: traffic_direction.splits prod.splits)

text \<open>Closing and opening.\<close>

lemma drop_session_sel:
  "grows c (drop_session s c)" "core_users (drop_session s c) = core_users c"
  "core_session_seq (drop_session s c) = core_session_seq c"
proof -
  have "grows c (core_put (as_user s) (fst (user_close_session (core_heap c ! as_user s) (as_session_id s))) c)"
    by (rule grows_put) (use same_account_simps(1) in \<open>simp add: same_account_def\<close>)
  then show "grows c (drop_session s c)" by (simp add: drop_session_def split_beta grows_def)
qed (simp_all add: drop_session_def split_beta)

lemma doom_drop_session: "drop_session s (doom D c) = doom D (drop_session s c)"
  by (simp add: drop_session_def split_beta doom_core doom_fold_send)

lemma open_numbered_cases:
  assumes "open_numbered a n limits source_ip c = (r, c')"
  obtains (fail) e where "r = Inl e" "c' = c"
  | (ok) us ev where
    "open_session_locked limits (core_heap c ! a) n source_ip (length (core_controls c)) = Inr (us, ev)"
    "r = Inr (Some \<lparr> as_user = a, as_session_id = n, as_control = length (core_controls c) \<rparr>)"
    "c' = core_send ev (core_put a us (c\<lparr> core_controls := core_controls c @ [False] \<rparr>))"
  using assms
  by (cases "open_session_locked limits (core_heap c ! a) n source_ip (length (core_controls c))")
     (auto simp: open_numbered_def Let_def)

lemma open_numbered_sel:
  assumes "open_numbered a n limits source_ip c = (r, c')"
  shows "grows c c' \<and> core_users c' = core_users c \<and> core_session_seq c' = core_session_seq c"
  using assms
proof (cases rule: open_numbered_cases)
  case (ok us ev)
  then show ?thesis using same_account_open [OF ok(1)] by (simp add: grows_def nth_update_le same_account_def)
qed simp

lemma draw_number_ok:
  assumes W0: "world_ok \<lparr> w_core = c, w_handles = H, w_tasks = add_mset (Opening a source_ip) T, w_opened = k \<rparr>"
    and k: "Suc k < 2 ^ 64"
  shows "world_ok \<lparr> w_core = c\<lparr> core_session_seq := core_session_seq c + 1 \<rparr>, w_handles = H,
                    w_tasks = add_mset (Numbered a (core_session_seq c + 1) source_ip) T, w_opened = Suc k \<rparr>"
proof -
  note W = world_okD [OF W0]
  have seq: "unat (core_session_seq c + 1) = Suc k" using k W(5) by (simp add: unat_word_ariths)
  then have no_wrap: "core_session_seq c + 1 \<noteq> 0" by (metis nat.distinct(1) unat_0)
  have "numbers_ok H (core_session_seq c) (tasks_numbers T)" using W(4) by simp
  moreover have "\<forall>s \<in> H. as_session_id s \<le> core_session_seq c" using core_inv_handle(3) [OF W(1)] by simp
  ultimately have "numbers_ok H (core_session_seq c + 1) (add_mset (core_session_seq c + 1) (tasks_numbers T))"
    using no_wrap by (rule numbers_ok_draw)
  moreover have "core_inv H (tasks_pending T) ((doom (tasks_doomed T) c)\<lparr> core_session_seq := core_session_seq c + 1 \<rparr>)"
    by (rule core_inv_seq) (use W(1) less_imp_le [OF seq_increases [OF no_wrap]] in simp_all)
  moreover have "tasks_ok H (c\<lparr> core_session_seq := core_session_seq c + 1 \<rparr>) T"
    by (rule tasks_ok_grows [of H c T]) (use W(3) in simp_all)
  ultimately show ?thesis
    using W(2,3) seq by (intro world_okI) (simp_all add: users_ok_def doom_core)
qed

lemma open_session_ok:
  assumes W0: "world_ok \<lparr> w_core = c, w_handles = H, w_tasks = add_mset (Limited a n limits source_ip) T, w_opened = k \<rparr>"
    and step: "open_numbered a n limits source_ip c = (r, c')"
  shows "world_ok \<lparr> w_core = c', w_handles = (case r of Inr (Some s) \<Rightarrow> insert s H | _ \<Rightarrow> H),
                    w_tasks = T, w_opened = k \<rparr>"
proof -
  note W = world_okD [OF W0] and S = open_numbered_sel [OF step]
  note N = numbers_ok_used [of H "core_session_seq c" n "tasks_numbers T"]
  have ok: "tasks_ok H' c' T" if "H \<subseteq> H'" for H'
    by (rule tasks_ok_grows [of H c T]) (use W(3) S that in simp_all)
  have users: "users_ok c'" using W(2) S entries_ok_grows by (auto simp: users_ok_entries)
  from step show ?thesis
  proof (cases rule: open_numbered_cases)
    case (fail e)
    then show ?thesis using W ok [of H] users N(3) by (intro world_okI) simp_all
  next
    case (ok us ev)
    let ?s = "\<lparr> as_user = a, as_session_id = n, as_control = length (core_controls c) \<rparr>"
    have "length (core_controls c) \<notin> tasks_doomed T"
      using tasks_doomed_ok [of H c T] W(3) by auto
    then have "core_inv (insert ?s H) (tasks_pending T) (doom (tasks_doomed T) c')"
      using core_inv_open_numbered [OF W(1), of a n limits source_ip us ev] N(1,2) W(3,4) ok(1)
      by (simp add: ok(3) doom_core doom_new_control [symmetric])
    then show ?thesis
      using W(4,5) S users \<open>\<And>H'. H \<subseteq> H' \<Longrightarrow> tasks_ok H' c' T\<close> [of "insert ?s H"] N(4) [of ?s]
      by (intro world_okI) (auto simp: ok(2))
  qed
qed

lemma build_known_ok:
  assumes "admin_ok c (Building v cur ((i, u) # es) m)" "map_of cur (cu_id u) = Some a"
  shows "admin_ok c (Updating a u credentials (Building v cur es (AList.update (cu_id u) a m)))"
proof -
  have "a < length (core_heap c)" "us_id (core_heap c ! a) = cu_id u"
    using assms map_of_SomeD [OF assms(2)] by (auto simp: entries_ok_def)
  then show ?thesis using assms(1) entries_ok_update by (auto simp: distinct_update)
qed

lemma build_new_ok:
  assumes W0: "world_ok \<lparr> w_core = c, w_handles = H,
      w_tasks = add_mset (Admin (Building v cur ((i, u) # es) m)) T, w_opened = k \<rparr>"
  shows "world_ok \<lparr> w_core = c\<lparr> core_heap := core_heap c @ [user_state_new u credentials now] \<rparr>, w_handles = H,
      w_tasks = add_mset (Admin (Building v cur es (AList.update (cu_id u) (length (core_heap c)) m))) T, w_opened = k \<rparr>"
    (is "world_ok \<lparr> w_core = ?c, w_handles = H, w_tasks = ?T, w_opened = k \<rparr>")
proof (rule world_ok_section [OF W0])
  note W = world_okD [OF W0]
  show g: "grows c ?c" by (simp add: grows_def nth_append)
  have inv: "core_inv H (tasks_pending T) (doom (tasks_doomed T) c)" using W(1) by simp
  have "tasks_pending T (length (core_heap c)) = 0"
    using tasks_pending_fresh [OF inv, of c T] W(3) by simp
  then show "core_inv H (tasks_pending ?T) (doom (tasks_doomed ?T) ?c)"
    using core_inv_new_user [OF inv] by (simp add: doom_core)
  have m: "entries_ok ?c m" "entries_ok ?c cur" using W(3) entries_ok_grows [OF _ g] by simp_all
  have "entries_ok ?c (AList.update (cu_id u) (length (core_heap c)) m)"
    by (rule entries_ok_update [OF m(1)]) (simp_all add: user_state_new_def)
  then show "tasks_ok H ?c ?T"
    using W(3) m(2) tasks_ok_grows [OF _ g order_refl, of H T] by (auto simp: distinct_update)
qed simp_all

lemma clear_ok:
  assumes W0: "world_ok \<lparr> w_core = c, w_handles = H, w_tasks = add_mset (Admin (Clearing a k0)) T, w_opened = k \<rparr>"
    and clear: "user_clear_sessions (core_heap c ! a) = (slots, us)"
  shows "world_ok \<lparr> w_core = core_put a us c, w_handles = H,
    w_tasks = add_mset (Admin (Slots (us_id us) slots k0)) T, w_opened = k \<rparr>"
proof (rule world_ok_section [OF W0])
  note W = world_okD [OF W0]
  have a: "a < length (core_heap c)" using W(3) by simp
  have us: "us = snd (user_clear_sessions (core_heap c ! a))" "slots = us_sessions (core_heap c ! a)"
    using clear by (simp_all add: user_clear_sessions_def)
  show g: "grows c (core_put a us c)"
    by (rule grows_put) (simp add: us(1) user_clear_sessions_def)
  show "core_inv H (tasks_pending (add_mset (Admin (Slots (us_id us) slots k0)) T))
      (doom (tasks_doomed (add_mset (Admin (Slots (us_id us) slots k0)) T)) (core_put a us c))"
    using core_inv_clear [OF W(1) _ clear] a by (simp add: Un_assoc)
  have "x < length (core_controls c)" if x: "x \<in> slot_controls slots" for x
  proof -
    obtain sid slot where "(sid, slot) \<in> set (us_sessions (core_heap c ! a))" "x = slot_control slot"
      using x unfolding slot_controls_def us(2) by force
    then show ?thesis
      using core_inv_handle(2) [OF W(1) slot_registered [OF W(1), of a sid slot]] a by simp
  qed
  then show "tasks_ok H (core_put a us c) (add_mset (Admin (Slots (us_id us) slots k0)) T)"
    using W(3) admin_ok_grows [OF _ g] tasks_ok_grows [OF _ g order_refl, of H T] by simp
qed simp_all

lemma core_step_ok:
  assumes "core_step sha dur W W'" "world_ok W" "w_opened W' < 2 ^ 64"
  shows "world_ok W'"
  using assms
proof (induction rule: core_step.induct)
  case (find_user c user_id a H source_ip T k)
  note W = world_okD [OF find_user(2)]
  show ?case using W(3) users_entries(3) [OF W(2) find_user(1)] by (intro world_ok_tasks [OF find_user(2)]) auto
next
  case (draw_number c H a source_ip T k)
  then show ?case using draw_number_ok by simp
next
  case (open_session a n limits source_ip c r c' H T k)
  then show ?case using open_session_ok by simp
next
  case (drop_session s H T c k)
  note W = world_okD [OF drop_session(3)] and S = drop_session_sel(1) [of c s]
  have "core_inv (H - {s}) (tasks_pending T) (doom (tasks_doomed T) (drop_session s c))"
    using core_inv_drop [OF W(1) drop_session(1)] by (simp add: doom_drop_session)
  then show ?case
    using W(2,4,5) S entries_ok_grows [OF _ S] tasks_ok_drop [OF W(3) S drop_session(2)] drop_session_sel(2,3)
      numbers_ok_subset [of H _ "tasks_numbers T" "H - {s}"]
    by (intro world_okI) (auto simp: users_ok_entries)
next
  case (schedule now s dir n c wait c' H T k)
  note W = world_okD [OF schedule(2)] and S = traffic_schedule_sel [OF schedule(1)]
  have "s \<in> H" using W(3) by simp
  then show ?case
    using core_inv_traffic_schedule [OF W(1) _ doom_traffic(1) [OF schedule(1)]] W(3) S
      tasks_ok_grows [OF _ S(1) order_refl, of H T]
    by (intro world_ok_section [OF schedule(2)]) simp_all
next
  case (charge s n c c' H dir T k)
  note W = world_okD [OF charge(2)] and S = traffic_charge_sel [OF charge(1)]
  have "s \<in> H" using W(3) by simp
  then have "core_inv H (tasks_pending (add_mset (Reserved s dir n) T)) (doom (tasks_doomed T) c')"
    using core_inv_traffic_charge [OF W(1) _ doom_traffic(2) [OF charge(1)]]
    unfolding tasks_pending_reserved by simp
  then show ?case
    using W(3) S tasks_ok_grows [OF _ S(1) order_refl, of H T]
    by (intro world_ok_section [OF charge(2)]) (simp_all del: tasks_add(1))
next
  case (count s dir n c counters c' H T k)
  note W = world_okD [OF count(2)] and S = traffic_count_sel [OF count(1)]
  have "core_inv H (tasks_pending T) (doom (tasks_doomed T) c')"
    unfolding tasks_pending_counted [of T s dir n]
    by (rule core_inv_traffic_count [OF _ _ _ doom_traffic(3) [OF count(1)]])
       (use W(1,3) in \<open>simp_all del: tasks_add(1)\<close>, simp)
  then show ?case
    using W(3) S tasks_ok_grows [OF _ S(1) order_refl, of H T]
    by (intro world_ok_section [OF count(2)]) simp_all
next
  case (emit c H s dir n counters T k)
  note W = world_okD [OF emit(1)]
  have g: "grows c (traffic_emit s dir n counters c)" by (simp add: traffic_emit_def)
  show ?case
    using core_inv_traffic_emit [OF W(1), of s dir n counters] W(3) g tasks_ok_grows [OF _ g order_refl, of H T]
    by (intro world_ok_section [OF emit(1)]) (simp_all add: traffic_emit_def doom_core)
next
  case (replace users v c H T k)
  note W = world_okD [OF replace(2)]
  show ?case
    using W(3) users_entries(1) [OF W(2)] validated_invD(8) [OF validate_users_Inr [OF replace(1)]]
    by (intro world_ok_tasks [OF replace(2)]) (auto simp: entries_ok_def)
next
  case (build_new cur u c H v i es m T k now)
  then show ?case using build_new_ok by simp
next
  case (build_known cur u a c H v i es m T k)
  note W = world_okD [OF build_known(2)]
  have "admin_ok c (Building v cur ((i, u) # es) m)" using W(3) by (simp del: admin_ok.simps)
  from build_known_ok [OF this build_known(1)] show ?case
    using W(3) by (intro world_ok_tasks [OF build_known(2)]) simp_all
next
  case (install c H v m T k)
  note W = world_okD [OF install(1)]
  have "entries_ok (c\<lparr> core_users := m \<rparr>) m" "tasks_ok H (c\<lparr> core_users := m \<rparr>) T" "distinct (map fst m)"
    using W(3) entries_ok_grows [of c m] tasks_ok_grows [of H c T] by auto
  moreover have "core_inv H (tasks_pending T) (doom (tasks_doomed T) (c\<lparr> core_users := m \<rparr>))"
    by (rule core_inv_cong [of _ _ "doom (tasks_doomed T) c"])
       (use W(1) core_inv_bus [OF W(1)] in \<open>simp_all, simp_all add: doom_def\<close>)
  ultimately show ?case using W(4,5) by (intro world_okI) (simp_all add: users_ok_entries)
next
  case (index c H v T k)
  note W = world_okD [OF index(1)]
  let ?c = "c\<lparr> core_cred_users := v_credential_map v, core_password_hashes := v_password_hashes v \<rparr>"
  have "core_inv H (tasks_pending T) (doom (tasks_doomed T) ?c)"
    by (rule core_inv_cong [of _ _ "doom (tasks_doomed T) c"])
       (use W(1) core_inv_bus [OF W(1)] in \<open>simp_all, simp_all add: doom_def\<close>)
  then show ?case
    using W(3) tasks_ok_grows [of H c T ?c H] by (intro world_ok_section [OF index(1)]) simp_all
next
  case (announce c H v T k)
  note W = world_okD [OF announce(1)]
  show ?case
    using W(3) tasks_ok_grows [of H c T _ H] core_inv_send [OF W(1)]
    by (intro world_ok_section [OF announce(1)]) (simp_all add: doom_core)
next
  case (cancel_user c user_id a H T k)
  note W = world_okD [OF cancel_user(2)]
  show ?case using W(3) users_entries(3) [OF W(2) cancel_user(1)] by (intro world_ok_tasks [OF cancel_user(2)]) auto
next
  case (cancel_all c H T k)
  note W = world_okD [OF cancel_all(1)]
  show ?case using W(3) users_entries(4) [OF W(2)] by (intro world_ok_tasks [OF cancel_all(1)]) auto
next
  case (limit_user c user_id a H T k limits)
  note W = world_okD [OF limit_user(2)]
  show ?case using W(3) users_entries(3) [OF W(2) limit_user(1)] by (intro world_ok_tasks [OF limit_user(2)]) auto
next
  case (clear c a slots us H k0 T k)
  then show ?case using clear_ok by simp
next
  case (slot_event c H user_id n slot slots k0 T k)
  note W = world_okD [OF slot_event(1)]
  show ?case
    using W(3) tasks_ok_grows [of H c T _ H] core_inv_send [OF W(1)] admin_ok_grows [of c k0]
    by (intro world_ok_section [OF slot_event(1)]) (simp_all add: doom_core slot_controls_def)
next
  case (slot_cancel c H control user_id slots k0 T k)
  note W = world_okD [OF slot_cancel(1)]
  show ?case
    using W(1,3) tasks_ok_grows [of H c T _ H] admin_ok_grows [of c k0]
    by (intro world_ok_section [OF slot_cancel(1)]) (simp_all add: doom_cancel_control)
next
  case (slots_done c H user_id k0 T k)
  then show ?case by (auto simp: world_ok_def slot_controls_def)
next
  case (credit c H a credentials k0 T k)
  show ?case
    using world_okD(3) [OF credit(1)]
    by (intro world_ok_put [OF credit(1)]) (simp_all add: same_account_def user_ok_def)
next
  case (limit c H a limits k0 T k now)
  show ?case
    using world_okD(3) [OF limit(1)] user_install_limits_ok
    by (intro world_ok_put [OF limit(1)]) (simp_all add: user_install_limits_def same_account_def)
next
  case (subscribe c rx c' H T k)
  note W = world_okD [OF subscribe(2)]
  have c': "c' = c\<lparr> core_events := snd (bus_subscribe (core_events c)) \<rparr>"
    using subscribe(1) by (auto simp: subscribe_events_def split: prod.splits)
  show ?case
    using W(3) tasks_ok_grows [of H c T c' H] core_inv_events [OF W(1) bus_subscribe_ok [OF core_inv_bus [OF W(1)]]]
    by (intro world_ok_section [OF subscribe(2)]) (simp_all add: c' doom_core)
next
  case (unsubscribe c H T k rx)
  note W = world_okD [OF unsubscribe(1)]
  show ?case
    using W(3) tasks_ok_grows [of H c T _ H] core_inv_events [OF W(1) chan_drop_ok [OF core_inv_bus [OF W(1)]]]
    by (intro world_ok_section [OF unsubscribe(1)]) (simp_all add: doom_core)
qed (auto simp: world_ok_def entries_ok_def)

lemma core_step_opened: "core_step sha dur W W' \<Longrightarrow> w_opened W \<le> w_opened W'"
  by (induction rule: core_step.induct) simp_all

interpretation core_world: step_invariant world_init "core_step sha dur" world_inv
  for sha dur
proof
  fix W :: world assume "world_init W"
  then show "world_inv W"
    using core_inv_empty
    by (simp add: world_init_def world_inv_def world_ok_def tasks_ok_def users_ok_def core_empty_def numbers_ok_def)
next
  fix W W' assume "world_inv W" "core_step sha dur W W'"
  then show "world_inv W'"
    using core_step_ok core_step_opened unfolding world_inv_def by (meson le_less_trans)
qed

lemma reachable_world:
  assumes "reachable world_init (core_step sha dur) W" "w_opened W < 2 ^ 64"
  shows "core_inv (w_handles W) (tasks_pending (w_tasks W)) (doom (tasks_doomed (w_tasks W)) (w_core W))"
    "tasks_ok (w_handles W) (w_core W) (w_tasks W)" "users_ok (w_core W)"
  using core_world.reachable_inv [OF assms(1)] assms(2) by (simp_all add: world_inv_def world_ok_def)

section \<open>Calls that are not interrupted\<close>

text \<open>A call whose sections run one after the other does what the function of \<open>Core\<close> says.\<close>

lemma run_step:
  "core_step sha dur W W1 \<Longrightarrow> (core_step sha dur)\<^sup>*\<^sup>* W1 W2 \<Longrightarrow> (core_step sha dur)\<^sup>*\<^sup>* W W2"
  by (rule converse_rtranclp_into_rtranclp)

lemma run_one: "core_step sha dur W W1 \<Longrightarrow> (core_step sha dur)\<^sup>*\<^sup>* W W1"
  by (rule r_into_rtranclp)

lemma run_trans:
  "(core_step sha dur)\<^sup>*\<^sup>* W W1 \<Longrightarrow> (core_step sha dur)\<^sup>*\<^sup>* W1 W2 \<Longrightarrow> (core_step sha dur)\<^sup>*\<^sup>* W W2"
  by (rule rtranclp_trans)

lemma cancel_slots_run:
  "(core_step sha dur)\<^sup>*\<^sup>*
     \<lparr> w_core = c, w_handles = H, w_tasks = add_mset (Admin (Slots user_id slots k0)) T, w_opened = k \<rparr>
     \<lparr> w_core = fold (cancel_slot user_id) slots c, w_handles = H, w_tasks = add_mset (Admin k0) T, w_opened = k \<rparr>"
proof (induction slots arbitrary: c)
  case Nil
  show ?case using run_one [OF core_step.slots_done] by simp
next
  case (Cons e slots)
  obtain n slot where e: "e = (n, slot)" by force
  have slot: "cancel_control (slot_control slot) (core_send (SessionCancelled user_id n (slot_source_ip slot)) c)
      = cancel_slot user_id (n, slot) c" by (simp add: cancel_slot_def)
  show ?case
    unfolding e fold_Cons comp_def
    by (rule run_step [OF core_step.slot_event],
        rule run_step [OF core_step.slot_cancel])
       (use Cons in \<open>simp add: slot\<close>)
qed

lemma cancel_sessions_run:
  "(core_step sha dur)\<^sup>*\<^sup>*
     \<lparr> w_core = c, w_handles = H, w_tasks = add_mset (Admin (Clearing a k0)) T, w_opened = k \<rparr>
     \<lparr> w_core = cancel_sessions a c, w_handles = H, w_tasks = add_mset (Admin k0) T, w_opened = k \<rparr>"
proof -
  obtain slots us where clear: "user_clear_sessions (core_heap c ! a) = (slots, us)" by force
  show ?thesis
    using run_step [OF core_step.clear [OF clear] cancel_slots_run]
    by (simp add: cancel_sessions_def clear)
qed

lemma apply_user_update_run:
  "(core_step sha dur)\<^sup>*\<^sup>*
     \<lparr> w_core = c, w_handles = H, w_tasks = add_mset (Admin (Updating a user credentials k0)) T, w_opened = k \<rparr>
     \<lparr> w_core = apply_user_update a user credentials now c, w_handles = H,
       w_tasks = add_mset (Admin k0) T, w_opened = k \<rparr>"
proof (cases "us_credentials (core_heap c ! a) = credentials")
  case True
  show ?thesis
    using run_step [OF core_step.same_credentials [OF True]
        run_one [OF core_step.limit]] True
    by (simp add: apply_user_update_def)
next
  case False
  show ?thesis
    using run_step [OF core_step.new_credentials [OF False]
        run_trans [OF cancel_sessions_run
          run_step [OF core_step.credit run_one [OF core_step.limit]]]] False
    by (simp add: apply_user_update_def Let_def)
qed

lemma build_users_run:
  assumes "fold (build_user cur v now) es (m, c) = (m', c')"
  shows "(core_step sha dur)\<^sup>*\<^sup>*
     \<lparr> w_core = c, w_handles = H, w_tasks = add_mset (Admin (Building v cur es m)) T, w_opened = k \<rparr>
     \<lparr> w_core = c', w_handles = H, w_tasks = add_mset (Admin (Building v cur [] m')) T, w_opened = k \<rparr>"
  using assms
proof (induction es arbitrary: m c)
  case (Cons e es)
  obtain i u where e: "e = (i, u)" by force
  obtain m1 c1 where b: "build_user cur v now e (m, c) = (m1, c1)" by force
  then have rest: "fold (build_user cur v now) es (m1, c1) = (m', c')" using Cons.prems by simp
  have "(core_step sha dur)\<^sup>*\<^sup>*
     \<lparr> w_core = c, w_handles = H, w_tasks = add_mset (Admin (Building v cur (e # es) m)) T, w_opened = k \<rparr>
     \<lparr> w_core = c1, w_handles = H, w_tasks = add_mset (Admin (Building v cur es m1)) T, w_opened = k \<rparr>"
  proof (cases "map_of cur (cu_id u)")
    case None
    then show ?thesis using b e core_step.build_new [OF None] by (auto simp: build_user_def)
  next
    case (Some a)
    then show ?thesis
      using b e run_step [OF core_step.build_known [OF Some] apply_user_update_run]
      by (auto simp: build_user_def)
  qed
  then show ?case using Cons.IH [OF rest] by (rule run_trans)
qed simp

lemma remove_users_run:
  "(core_step sha dur)\<^sup>*\<^sup>*
     \<lparr> w_core = c, w_handles = H, w_tasks = add_mset (Admin (Removing v cur m)) T, w_opened = k \<rparr>
     \<lparr> w_core = fold (cancel_removed (fst ` set (v_users_by_id v))) cur c, w_handles = H,
       w_tasks = add_mset (Admin (Removing v [] m)) T, w_opened = k \<rparr>"
proof (induction cur arbitrary: c)
  case (Cons e cur)
  obtain i a where e: "e = (i, a)" by force
  show ?case
  proof (cases "i \<in> fst ` set (v_users_by_id v)")
    case True
    show ?thesis
      using run_step [OF core_step.keep [OF True] Cons.IH] True
      by (simp add: e cancel_removed_def)
  next
    case False
    show ?thesis
      using run_step [OF core_step.remove [OF False]
          run_trans [OF cancel_sessions_run Cons.IH]] False
      by (simp add: e cancel_removed_def)
  qed
qed simp

lemma replace_users_run:
  assumes "replace_users sha now users c = (Inr (), c')"
  shows "(core_step sha dur)\<^sup>*\<^sup>*
     \<lparr> w_core = c, w_handles = H, w_tasks = T, w_opened = k \<rparr>
     \<lparr> w_core = c', w_handles = H, w_tasks = T, w_opened = k \<rparr>"
proof -
  obtain v where v: "validate_users sha users validated_init = Inr v"
    using assms by (auto simp: replace_users_def split: sum.splits)
  obtain m c1 where b: "fold (build_user (core_users c) v now) (v_users_by_id v) ([], c) = (m, c1)" by force
  let ?c2 = "fold (cancel_removed (fst ` set (v_users_by_id v))) (core_users c) c1"
  let ?c3 = "?c2\<lparr> core_users := m \<rparr>"
  have c': "c' = core_send (UsersReplaced (v_event_user_ids v))
      (?c3\<lparr> core_cred_users := v_credential_map v, core_password_hashes := v_password_hashes v \<rparr>)"
    using assms v b by (simp add: replace_users_def Let_def)
  show ?thesis
    unfolding c'
    by (rule run_step [OF core_step.replace [OF v]],
        rule run_trans [OF build_users_run [OF b]],
        rule run_step [OF core_step.built],
        rule run_trans [OF remove_users_run],
        rule run_step [OF core_step.install],
        rule run_step [OF core_step.index],
        rule run_step [OF core_step.announce],
        rule run_one [OF core_step.finish])
qed

lemma open_session_run:
  assumes "open_session_with_source user_id source_ip c = (Inr (Some s), c')"
  shows "(core_step sha dur)\<^sup>*\<^sup>*
     \<lparr> w_core = c, w_handles = H, w_tasks = T, w_opened = k \<rparr>
     \<lparr> w_core = c', w_handles = insert s H, w_tasks = T, w_opened = Suc k \<rparr>"
proof -
  obtain a where a: "map_of (core_users c) user_id = Some a" "open_session_at a source_ip c = (Inr (Some s), c')"
    using assms by (auto simp: open_session_with_source_def split: option.splits)
  let ?c = "c\<lparr> core_session_seq := core_session_seq c + 1 \<rparr>"
  have o: "open_numbered a (core_session_seq c + 1) (us_limits (core_heap ?c ! a)) source_ip ?c = (Inr (Some s), c')"
    using a(2) by (simp add: open_session_at_def Let_def)
  from core_step.open_session [OF o, of sha dur H T "Suc k"] have last: "core_step sha dur
     \<lparr> w_core = ?c, w_handles = H,
       w_tasks = add_mset (Limited a (core_session_seq c + 1) (us_limits (core_heap ?c ! a)) source_ip) T, w_opened = Suc k \<rparr>
     \<lparr> w_core = c', w_handles = insert s H, w_tasks = T, w_opened = Suc k \<rparr>" by simp
  show ?thesis
    by (rule run_step [OF core_step.open_user],
        rule run_step [OF core_step.find_user [OF a(1)]],
        rule run_step [OF core_step.draw_number],
        rule run_step [OF core_step.copy_limits],
        rule run_one [OF last])
qed

section \<open>Which steps move the counters\<close>

definition totals_kept :: "core \<Rightarrow> core \<Rightarrow> bool" where
  "totals_kept c c' \<longleftrightarrow>
     (\<forall>b < length (core_heap c). us_total (core_heap c' ! b) = us_total (core_heap c ! b))"

lemma totals_kept_same_heap [simp]: "core_heap c' = core_heap c \<Longrightarrow> totals_kept c c'"
  by (simp add: totals_kept_def)

lemma totals_kept_put: "us_total us = us_total (core_heap c ! a) \<Longrightarrow> totals_kept c (core_put a us c)"
  by (simp add: totals_kept_def nth_update_le)

lemma totals_kept_schedule: "traffic_schedule dur now s dir n c = (w, c') \<Longrightarrow> totals_kept c c'"
  by (auto simp: traffic_schedule_def Let_def totals_kept_put split: traffic_direction.splits prod.splits)

lemma totals_kept_count: "traffic_count s dir n c = (counters, c') \<Longrightarrow> totals_kept c c'"
  by (cases dir) (auto simp: traffic_count_def totals_kept_put)

lemma totals_kept_drop: "totals_kept c (drop_session s c)"
  using same_account_simps(1) [of "core_heap c ! as_user s" "as_session_id s"]
  by (simp add: totals_kept_def drop_session_def split_beta nth_update_le same_account_def)

lemma totals_kept_open: "open_numbered a n limits source_ip c = (r, c') \<Longrightarrow> totals_kept c c'"
proof (erule open_numbered_cases)
  fix us ev
  assume us: "open_session_locked limits (core_heap c ! a) n source_ip (length (core_controls c)) = Inr (us, ev)"
    and "c' = core_send ev (core_put a us (c\<lparr> core_controls := core_controls c @ [False] \<rparr>))"
  then show ?thesis using same_account_open [OF us] by (simp add: totals_kept_def nth_update_le same_account_def)
qed simp

lemmas totals_kept_sections = totals_kept_schedule totals_kept_count totals_kept_drop totals_kept_open

lemma core_step_total_cases:
  assumes "core_step sha dur W W'"
  shows "totals_kept (w_core W) (w_core W') \<or>
    (\<exists>s dir n. Admitted s dir n \<in># w_tasks W \<and> traffic_charge s n (w_core W) = Inr (w_core W'))"
  using assms
proof (cases rule: core_step.cases)
  case (charge s n c c' H dir T k)
  then show ?thesis by auto
next
  case (build_new cur u c H v i es m T k now)
  then show ?thesis by (simp add: totals_kept_def nth_append)
next
  case (clear c a slots us H k0 T k)
  then show ?thesis by (auto simp: user_clear_sessions_def intro: totals_kept_put)
next
  case (limit c H a limits k0 T k now)
  then show ?thesis by (simp add: totals_kept_put user_install_limits_def)
qed (auto simp: totals_kept_put traffic_emit_def subscribe_events_def
      split: prod.splits intro: totals_kept_sections)

text \<open>A call that was admitted after its wait was admitted by a step that found its session active.\<close>

lemma admitted_origin:
  assumes "reachable world_init (core_step sha dur) W" "Admitted s dir n \<in># w_tasks W"
  shows "\<exists>W0 W1. reachable world_init (core_step sha dur) W0 \<and> Waiting s dir n \<in># w_tasks W0 \<and>
    \<not> is_cancelled (w_core W0) (as_control s) \<and> core_step sha dur W0 W1 \<and>
    Admitted s dir n \<in># w_tasks W1 \<and> (core_step sha dur)\<^sup>*\<^sup>* W1 W"
  using assms
proof (induction rule: reachable.induct)
  case (reachable_init W)
  then show ?case by (simp add: world_init_def)
next
  case (reachable_step W W')
  show ?case
  proof (cases "Admitted s dir n \<in># w_tasks W")
    case True
    then show ?thesis
      using reachable_step.IH reachable_step.hyps(2) by (meson rtranclp.rtrancl_into_rtrancl)
  next
    case False
    with reachable_step(2) reachable_step.prems
    have "Waiting s dir n \<in># w_tasks W \<and> \<not> is_cancelled (w_core W) (as_control s)"
      by (cases rule: core_step.cases) (auto simp: ensure_active_def split: if_splits)
    then show ?thesis using reachable_step by blast
  qed
qed

section \<open>A run with one user and one session\<close>

text \<open>A user with a quota of 9 bytes is installed and opens a session, which records 5 bytes; the
  worlds before and after the charge.\<close>

definition quota_user :: core_user where
  "quota_user = (core_user_password ''a'' ''x'')\<lparr> cu_quota_bytes := Some 9 \<rparr>"

abbreviation only_session :: active_session where
  "only_session \<equiv> \<lparr> as_user = 0, as_session_id = 1, as_control = 0 \<rparr>"

abbreviation sample_step :: "world \<Rightarrow> world \<Rightarrow> bool" where
  "sample_step \<equiv> core_step (\<lambda>_. []) (\<lambda>_ _. 0)"

lemma session_reachable:
  obtains c us where "reachable world_init sample_step
      \<lparr> w_core = c, w_handles = {only_session}, w_tasks = {#}, w_opened = 1 \<rparr>"
    "core_heap c = [us]" "core_controls c = [False]" "us_total us = 0" "cl_quota_bytes (us_limits us) = Some 9"
    "length (us_sessions us) = 1" "us_upload_limiter us = limiter_new None 0"
proof -
  let ?sha = "\<lambda>_. [] :: bytes"
  have t: "trim ''a'' = ''a''" "trim ''x'' = ''x''" by code_simp+
  let ?us = "user_state_new quota_user {''x''} 0"
  obtain c where r: "replace_users ?sha 0 [quota_user] core_empty = (Inr (), c)"
    and c: "core_users c = [(''a'', 0)]" "core_heap c = [?us]" "core_controls c = []" "core_session_seq c = 0"
    by (simp add: replace_users_def validate_user_def validated_init_def quota_user_def core_user_password_def
        Let_def t build_user_def core_empty_def)
  obtain us ev where us: "open_session_locked (us_limits ?us) ?us 1 None 0 = Inr (us, ev)"
    by (simp add: open_session_locked_def check_session_limit_def check_ip_limit_def positive_limit_def Let_def
        user_state_new_def quota_user_def core_user_password_def limits_of_def)
  let ?c = "core_send ev (core_put 0 us (c\<lparr> core_session_seq := 1, core_controls := [False] \<rparr>))"
  have o: "open_session_with_source ''a'' None c = (Inr (Some only_session), ?c)"
    using c us by (simp add: open_session_with_source_def open_session_at_def open_numbered_def Let_def)
  have "reachable world_init sample_step \<lparr> w_core = core_empty, w_handles = {}, w_tasks = {#}, w_opened = 0 \<rparr>"
    by (rule reachable_init) (simp add: world_init_def)
  from reachable_run [OF reachable_run [OF this replace_users_run [OF r]] open_session_run [OF o]]
  have "reachable world_init sample_step
      \<lparr> w_core = ?c, w_handles = {only_session}, w_tasks = {#}, w_opened = 1 \<rparr>" by simp
  moreover have "us_total us = 0" "cl_quota_bytes (us_limits us) = Some 9" "length (us_sessions us) = 1"
    "us_upload_limiter us = limiter_new None 0"
    using open_session_locked_Inr [OF us]
    by (simp_all add: update_online_counts_def user_state_new_def quota_user_def core_user_password_def limits_of_def)
  ultimately show thesis using that [of ?c us] c(2) by simp
qed

lemma charge_reachable:
  obtains W W' where "reachable world_init sample_step W" "sample_step W W'"
    "w_tasks W = {# Admitted only_session Upload 5 #}" "w_tasks W' = {# Reserved only_session Upload 5 #}"
    "w_opened W' = 1" "length (core_heap (w_core W)) = 1" "length (core_heap (w_core W')) = 1"
    "us_total (core_heap (w_core W) ! 0) = 0" "us_total (core_heap (w_core W') ! 0) = 5"
    "cl_quota_bytes (us_limits (core_heap (w_core W) ! 0)) = Some 9"
proof -
  obtain c us where c: "reachable world_init sample_step
      \<lparr> w_core = c, w_handles = {only_session}, w_tasks = {#}, w_opened = 1 \<rparr>"
    "core_heap c = [us]" "core_controls c = [False]" "us_total us = 0" "cl_quota_bytes (us_limits us) = Some 9"
    "us_upload_limiter us = limiter_new None 0" by (rule session_reachable)
  let ?s = only_session
  let ?W = "\<lambda>c T. \<lparr> w_core = c, w_handles = {?s}, w_tasks = T, w_opened = 1 \<rparr>"
  have active: "ensure_active c (as_control ?s) = Inr ()" using c(3) by (simp add: ensure_active_def is_cancelled_def)
  have "limiter_reserve (\<lambda>_ _. 0) 0 5 (us_upload_limiter us) = (None, us_upload_limiter us)"
    by (simp add: c(6) limiter_reserve_def limiter_new_def rate_value_def)
  moreover have "core_put 0 (us\<lparr> us_upload_limiter := us_upload_limiter us \<rparr>) c = c"
    using c(2) by (simp add: core_put_def)
  ultimately have sched: "traffic_schedule (\<lambda>_ _. 0) 0 ?s Upload 5 c = (None, c)"
    by (simp add: traffic_schedule_def c(2) Let_def)
  let ?c = "core_put 0 (us\<lparr> us_total := 5 \<rparr>) c"
  have charge: "traffic_charge ?s 5 c = Inr ?c"
    using c by (simp add: traffic_charge_def user_reserve_quota_def checked_add_u64_def)
  have "reachable world_init sample_step (?W c {# Entered ?s Upload 5 #})"
    by (rule reachable_step [OF c(1)], rule core_step.enter) (use active in simp_all)
  from reachable_step [OF this core_step.schedule [OF sched]]
  have "reachable world_init sample_step (?W c {# Waiting ?s Upload 5 #})" .
  from reachable_step [OF this core_step.admit [OF active]]
  have "reachable world_init sample_step (?W c {# Admitted ?s Upload 5 #})" .
  then show thesis
    by (rule that [OF _ core_step.charge [OF charge]]) (use c in simp_all)
qed

section \<open>Properties\<close>

text \<open>C3: the bytes charged to a user grow only by a call of a session of that user, by exactly the
  bytes of the call, without wrapping around, and only up to the quota in force at that moment. The
  call has passed the test that follows its wait: an earlier step of the run found its session not
  cancelled. (Between that test and the charge the session may be cancelled.)\<close>

theorem traffic_within_quota:
  assumes "reachable world_init (core_step sha dur) W" "core_step sha dur W W'"
    "a < length (core_heap (w_core W))"
    "us_total (core_heap (w_core W') ! a) \<noteq> us_total (core_heap (w_core W) ! a)"
  shows "\<exists>s dir n. Admitted s dir n \<in># w_tasks W \<and> as_user s = a \<and>
    unat (us_total (core_heap (w_core W') ! a)) = unat (us_total (core_heap (w_core W) ! a)) + unat n \<and>
    (\<forall>q. cl_quota_bytes (us_limits (core_heap (w_core W) ! a)) = Some q \<longrightarrow>
       us_total (core_heap (w_core W') ! a) \<le> q) \<and>
    (\<exists>W0 W1. reachable world_init (core_step sha dur) W0 \<and> Waiting s dir n \<in># w_tasks W0 \<and>
       \<not> is_cancelled (w_core W0) (as_control s) \<and> core_step sha dur W0 W1 \<and>
       Admitted s dir n \<in># w_tasks W1 \<and> (core_step sha dur)\<^sup>*\<^sup>* W1 W)"
proof -
  let ?c = "w_core W"
  obtain s dir n where s: "Admitted s dir n \<in># w_tasks W" "traffic_charge s n ?c = Inr (w_core W')"
    using core_step_total_cases [OF assms(2)] assms(3,4) by (auto simp: totals_kept_def)
  then obtain us' where us': "user_reserve_quota (core_heap ?c ! as_user s) n = Inr us'"
    "w_core W' = core_put (as_user s) us' ?c"
    by (auto simp: traffic_charge_def and_then_Inr_iff)
  have a: "as_user s = a" using assms(3,4) us'(2) by (auto simp: nth_update_le split: if_splits)
  moreover from this have "core_heap (w_core W') ! a = us'" using assms(3) us'(2) by simp
  ultimately have "unat (us_total (core_heap (w_core W') ! a)) = unat (us_total (core_heap ?c ! a)) + unat n"
    "\<forall>q. cl_quota_bytes (us_limits (core_heap ?c ! a)) = Some q \<longrightarrow> us_total (core_heap (w_core W') ! a) \<le> q"
    using user_reserve_quota_Inr [OF us'(1)] by simp_all
  with s(1) a admitted_origin [OF assms(1) s(1)] show ?thesis by blast
qed

theorem traffic_within_quota_witness:
  "\<exists>W W' W0. reachable world_init sample_step W \<and> sample_step W W' \<and>
     cl_quota_bytes (us_limits (core_heap (w_core W) ! 0)) = Some 9 \<and>
     us_total (core_heap (w_core W) ! 0) = 0 \<and> us_total (core_heap (w_core W') ! 0) = 5 \<and>
     us_total (core_heap (w_core W') ! 0) \<le> 9 \<and>
     reachable world_init sample_step W0 \<and> Waiting only_session Upload 5 \<in># w_tasks W0 \<and>
     \<not> is_cancelled (w_core W0) 0"
proof -
  obtain W W' where W: "reachable world_init sample_step W" "sample_step W W'"
    "w_tasks W = {# Admitted only_session Upload 5 #}" "length (core_heap (w_core W)) = 1"
    "us_total (core_heap (w_core W) ! 0) = 0" "us_total (core_heap (w_core W') ! 0) = 5"
    "cl_quota_bytes (us_limits (core_heap (w_core W) ! 0)) = Some 9" by (rule charge_reachable)
  from traffic_within_quota [OF W(1,2), of 0] W(3-7) obtain W0 where
    "us_total (core_heap (w_core W') ! 0) \<le> 9" "reachable world_init sample_step W0"
    "Waiting only_session Upload 5 \<in># w_tasks W0" "\<not> is_cancelled (w_core W0) 0" by auto
  with W(1,2,5-7) show ?thesis by blast
qed

text \<open>C4: however the operations of the core interleave, the traffic of every user adds up.
  The total that is checked against the quota is the sum of the bytes counted as upload, the
  bytes counted as download and the bytes of calls that have reserved but not yet counted, none
  of these sums wraps around, and with no call in flight the total is upload plus download.\<close>

theorem traffic_adds_up:
  assumes "reachable world_init (core_step sha dur) W" "w_opened W < 2 ^ 64"
    "a < length (core_heap (w_core W))" "us = core_heap (w_core W) ! a"
  shows "unat (us_total us) = unat (us_upload us) + unat (us_download us) + tasks_pending (w_tasks W) a \<and>
    (w_tasks W = {#} \<longrightarrow> us_total us = us_upload us + us_download us)"
proof -
  have total: "unat (us_total us) = unat (us_upload us) + unat (us_download us) + tasks_pending (w_tasks W) a"
    using core_inv_user(2) [OF reachable_world(1) [OF assms(1,2)], of a] assms(3,4) by simp
  moreover have "us_total us = us_upload us + us_download us" if "w_tasks W = {#}"
  proof -
    have "unat (us_upload us) + unat (us_download us) < 2 ^ 64"
      using total that unsigned_less [of "us_total us", where 'a = nat] by simp
    then show ?thesis using total that by (simp add: word_unat_eq_iff unat_word_ariths)
  qed
  ultimately show ?thesis by blast
qed

theorem traffic_adds_up_witness:
  "\<exists>W. reachable world_init sample_step W \<and> us_total (core_heap (w_core W) ! 0) = 5 \<and>
     tasks_pending (w_tasks W) 0 = 5 \<and>
     unat (us_upload (core_heap (w_core W) ! 0)) + unat (us_download (core_heap (w_core W) ! 0)) = 0"
proof -
  obtain W W' where W: "reachable world_init sample_step W" "sample_step W W'"
    "w_tasks W' = {# Reserved only_session Upload 5 #}" "w_opened W' = 1" "length (core_heap (w_core W')) = 1"
    "us_total (core_heap (w_core W') ! 0) = 5" by (rule charge_reachable)
  have r: "reachable world_init sample_step W'" by (rule reachable_step [OF W(1,2)])
  from traffic_adds_up [OF r, of 0] W(3-6) r show ?thesis by (intro exI [of _ W']) simp
qed

text \<open>C5: the table of sessions of a user holds exactly the sessions that are alive. In every
  reachable state the number of online sessions of a user, in the table and as published, is
  the number of its handles that are neither cancelled nor among those that a running
  \<open>cancel_sessions\<close> has taken out of the table and is about to cancel. So the limit on sessions
  counts live sessions, none leaks, and a handle outlives its slot only inside that window.\<close>

theorem online_sessions_exact:
  assumes "reachable world_init (core_step sha dur) W" "w_opened W < 2 ^ 64"
    "a < length (core_heap (w_core W))"
  shows "length (us_sessions (core_heap (w_core W) ! a)) =
      card {s \<in> w_handles W. as_user s = a \<and> \<not> is_cancelled (w_core W) (as_control s) \<and>
                             as_control s \<notin> tasks_doomed (w_tasks W)} \<and>
    us_online (core_heap (w_core W) ! a) = of_nat (length (us_sessions (core_heap (w_core W) ! a)))"
proof -
  let ?c = "w_core W" and ?D = "tasks_doomed (w_tasks W)"
  let ?ss = "us_sessions (core_heap ?c ! a)"
  let ?L = "{s \<in> w_handles W. as_user s = a \<and> \<not> is_cancelled ?c (as_control s) \<and> as_control s \<notin> ?D}"
  let ?f = "\<lambda>(sid, slot). \<lparr> as_user = a, as_session_id = sid, as_control = slot_control slot \<rparr>"
  note inv = reachable_world(1) [OF assms(1,2)]
  have ok: "user_ok (core_heap ?c ! a)" using core_inv_user(1) [OF inv, of a] assms(3) by simp
  then have d: "distinct (map fst ?ss)" by (simp add: user_ok_def)
  have live: "s \<in> ?L \<longleftrightarrow> as_user s = a \<and> registered (doom ?D ?c) s" for s
    using core_inv_registered [OF inv, of s] core_inv_handle(2) [OF inv, of s] assms(3)
    by (auto simp: is_cancelled_def)
  have "?f ` set ?ss = ?L"
    using d unfolding set_eq_iff live by (force simp: registered_def dest: map_of_SomeD)
  moreover have "inj_on ?f (set ?ss)" using d by (auto simp: inj_on_def dest: eq_key_imp_eq_value)
  ultimately have "card ?L = length ?ss"
    using card_image [of ?f "set ?ss"] distinct_card [of ?ss] d by (simp add: distinct_map)
  then show ?thesis using ok by (simp add: user_ok_def)
qed

theorem online_sessions_exact_witness:
  "\<exists>W. reachable world_init sample_step W \<and> w_handles W = {only_session} \<and>
     length (us_sessions (core_heap (w_core W) ! 0)) = 1 \<and> us_online (core_heap (w_core W) ! 0) = 1"
proof -
  obtain c us where c: "reachable world_init sample_step
      \<lparr> w_core = c, w_handles = {only_session}, w_tasks = {#}, w_opened = 1 \<rparr>"
    "core_heap c = [us]" "core_controls c = [False]" by (rule session_reachable)
  have "{s \<in> {only_session}. as_user s = 0 \<and> \<not> is_cancelled c (as_control s)} = {only_session}"
    using c(3) by (auto simp: is_cancelled_def)
  then have "length (us_sessions us) = 1 \<and> us_online us = 1"
    using online_sessions_exact [OF c(1), of 0] c(2) by simp
  then show ?thesis using c(1,2) by fastforce
qed

end
