(* ===== verification/Spec2Isabelle.thy ===== *)
theory Spec2Isabelle
  imports Routing Socks EndToEnd Vless ReplayCache UdpFragments CoreSteps
begin

text \<open>
  Aerion is a multi-protocol proxy core. This development models its protocol-independent
  and wire-level parts and proves them correct.

  \<^bold>\<open>Layout.\<close> \<open>Prelude\<close> (words, results, big-endian integers, slices, readers), \<open>RustStr\<close> (Rust
  strings as UTF-8 byte sequences), \<open>NetAddr\<close> (addresses of \<open>std::net\<close>) and \<open>Codec\<close> (the
  contracts: wire codecs, incremental codecs, invariants of step relations) are the shared
  library. Each component has its own theory.

  \<^item> \<open>IoUtil\<close>: \<open>src/src/io_util.rs\<close>, writing several buffers through partial writes.
  \<^item> \<open>Protocol\<close>: \<open>src/src/protocol.rs\<close>, frames, authentication preface, targets.
\<close>

section \<open>Client and server together\<close>



end
